(* ===== verification/Kutti_Prelude.thy ===== *)
theory Kutti_Prelude
  imports Main "HOL-Library.Word" "HOL-Library.Sublist" "HOL-Library.Multiset"
begin

unbundle bit_operations_syntax

text \<open>
  The vocabulary the components share.  A C byte buffer together with its length
  field is a list of 8-bit words; \<open>uint16_t\<close>, \<open>uint32_t\<close> and \<open>uint64_t\<close> values that the
  program stores, sends or compares are words of that width, so that their
  arithmetic wraps as the C arithmetic does.  Quantities that only count objects
  that are alive in memory or bytes of a file (queue depth, list lengths, file
  offsets, log sequence numbers) are natural numbers.

  The theory also holds the development's collections of facts (\<open>named_theorems\<close>)
  and the lemmas on lists, finders and words that the component proofs use.
\<close>

type_synonym byte = "8 word"
type_synonym bytes = "byte list"
type_synonym u16 = "16 word"
type_synonym u32 = "32 word"
type_synonym u64 = "64 word"

named_theorems codec_simps \<open>equations that evaluate the byte codecs\<close>
named_theorems frame_simps \<open>what an operation leaves unchanged\<close>
named_theorems queue_defs \<open>definitions of the queue engine's primitives\<close>

subsection \<open>Lists\<close>

lemma list_eight_cases:
  obtains (long) a0 a1 a2 a3 a4 a5 a6 a7 xs' where
    "xs = a0 # a1 # a2 # a3 # a4 # a5 # a6 # a7 # xs'"
  | (short) "length xs < 8"
proof (cases "length xs < 8")
  case False
  then have "8 \<le> length xs" by simp
  then obtain a0 a1 a2 a3 a4 a5 a6 a7 xs' where
    "xs = a0 # a1 # a2 # a3 # a4 # a5 # a6 # a7 # xs'"
    by (auto simp: numeral_eq_Suc Suc_le_length_iff)
  then show ?thesis by (rule long)
qed (rule short)

lemma upt_0_8: "[0..<8] = [0, 1, 2, 3, 4, 5, 6, 7 :: nat]"
  by (simp add: numeral_eq_Suc)

lemma find_Some_mem: "find P xs = Some x \<Longrightarrow> x \<in> set xs \<and> P x"
  by (induction xs) (auto split: if_splits)

lemma find_None_all: "find P xs = None \<longleftrightarrow> (\<forall>x \<in> set xs. \<not> P x)"
  by (induction xs) auto

lemma find_append: "find P (xs @ ys) = (case find P xs of None \<Rightarrow> find P ys | Some x \<Rightarrow> Some x)"
  by (induction xs) auto

lemma find_map: "find P (map f xs) = map_option f (find (P \<circ> f) xs)"
  by (induction xs) auto

end
