(* ===== verification/Byte_Codec.thy ===== *)
theory Byte_Codec
  imports Kutti_Prelude
begin

unbundle bit_operations_syntax

text \<open>
  The little-endian field helpers of \<open>queue.c\<close> (\<open>put32\<close>, \<open>get32\<close>, \<open>put64\<close>, \<open>get64\<close>) and
  \<open>job_int.h\<close> (\<open>jput16\<close> and its kin).
\<close>

definition put16 :: "u32 \<Rightarrow> bytes" where
  "put16 value = [ucast value, ucast (drop_bit 8 value)]"

definition get16 :: "bytes \<Rightarrow> u32" where
  "get16 p = ucast (p ! 0) OR push_bit 8 (ucast (p ! 1))"

definition put32 :: "u32 \<Rightarrow> bytes" where
  "put32 value = [ucast value, ucast (drop_bit 8 value), ucast (drop_bit 16 value),
     ucast (drop_bit 24 value)]"

definition get32 :: "bytes \<Rightarrow> u32" where
  "get32 p = ucast (p ! 0) OR push_bit 8 (ucast (p ! 1)) OR
     push_bit 16 (ucast (p ! 2)) OR push_bit 24 (ucast (p ! 3))"

definition put64 :: "u64 \<Rightarrow> bytes" where
  "put64 value = map (\<lambda>i. ucast (drop_bit (i * 8) value)) [0..<8]"

definition get64 :: "bytes \<Rightarrow> u64" where
  "get64 p = foldl (\<lambda>value i. value OR push_bit (i * 8) (ucast (p ! i))) 0 [0..<8]"

lemma length_put16 [simp]: "length (put16 v) = 2"
  by (simp add: put16_def)

lemma length_put32 [simp]: "length (put32 v) = 4"
  by (simp add: put32_def)

lemma length_put64 [simp]: "length (put64 v) = 8"
  by (simp add: put64_def)

subsection \<open>The interface of a fixed-width field\<close>

locale fixed_codec =
  fixes enc :: "'a \<Rightarrow> bytes" and dec :: "bytes \<Rightarrow> 'a" and width :: nat and valid :: "'a \<Rightarrow> bool"
  assumes enc_width: "length (enc v) = width"
    and dec_enc: "valid v \<Longrightarrow> dec (enc v @ rest) = v"
    and enc_dec: "width \<le> length p \<Longrightarrow> enc (dec p) = take width p"
    and valid_dec: "width \<le> length p \<Longrightarrow> valid (dec p)"
begin

lemma dec_enc_exact: "valid v \<Longrightarrow> dec (enc v) = v"
  using dec_enc [of v "[]"] by simp

lemma dec_at: "valid v \<Longrightarrow> length pre = k \<Longrightarrow> dec (drop k (pre @ enc v @ rest)) = v"
  by (simp add: dec_enc)

lemma dec_prefix: "width \<le> length p \<Longrightarrow> dec (p @ q) = dec p"
proof -
  assume w: "width \<le> length p"
  have "dec p = dec (enc (dec p) @ drop width p @ q)"
    using w by (simp add: dec_enc valid_dec)
  also have "enc (dec p) @ drop width p @ q = p @ q"
    using w by (simp add: enc_dec append_assoc [symmetric] del: append_assoc)
  finally show ?thesis by simp
qed

lemma enc_inj: "valid v \<Longrightarrow> valid w \<Longrightarrow> enc v = enc w \<longleftrightarrow> v = w"
  by (metis dec_enc_exact)

lemma enc_append_inj: "valid v \<Longrightarrow> valid w \<Longrightarrow> enc v @ p = enc w @ q \<longleftrightarrow> v = w \<and> p = q"
  by (metis append_eq_append_conv dec_enc enc_width)

end

subsection \<open>The reference: little-endian digits\<close>

fun le_bytes :: "nat \<Rightarrow> 'a::len word \<Rightarrow> bytes" where
  "le_bytes 0 v = []"
| "le_bytes (Suc n) v = ucast v # le_bytes n (drop_bit 8 v)"

fun le_word :: "bytes \<Rightarrow> 'a::len word" where
  "le_word [] = 0"
| "le_word (b # bs) = ucast b OR push_bit 8 (le_word bs)"

lemma length_le_bytes [simp]: "length (le_bytes n v) = n"
  by (induction n arbitrary: v) auto

lemma le_word_le_bytes: "le_word (le_bytes n v) = take_bit (8 * n) (v :: 'a::len word)"
proof (induction n arbitrary: v)
  case (Suc n)
  show ?case
  proof (rule bit_word_eqI)
    fix k assume "k < LENGTH('a)"
    then show "bit (le_word (le_bytes (Suc n) v) :: 'a word) k = bit (take_bit (8 * Suc n) v) k"
      by (cases "k < 8") (auto simp: Suc.IH bit_simps)
  qed
qed simp

lemma le_word_bound: "bit (le_word bs :: 'a::len word) k \<Longrightarrow> k < 8 * length bs"
proof (induction bs arbitrary: k)
  case (Cons b bs)
  then show ?case
    by (cases "k < 8") (auto simp: bit_simps dest!: Cons.IH dest: bit_imp_le_length)
qed simp

lemma le_bytes_le_word:
  "8 * length bs \<le> LENGTH('a) \<Longrightarrow> le_bytes (length bs) (le_word bs :: 'a::len word) = bs"
proof (induction bs)
  case (Cons b bs)
  let ?w = "le_word bs :: 'a word"
  have len: "8 \<le> LENGTH('a)" and le: "8 * length bs \<le> LENGTH('a)" using Cons.prems by auto
  have "ucast (ucast b OR push_bit 8 ?w) = b"
    using len by (intro bit_word_eqI) (auto simp: bit_simps)
  moreover have "drop_bit 8 (ucast b OR push_bit 8 ?w) = ?w"
  proof (rule bit_word_eqI)
    fix k assume "k < LENGTH('a)"
    show "bit (drop_bit 8 (ucast b OR push_bit 8 ?w)) k = bit ?w k"
    proof (cases "k + 8 < LENGTH('a)")
      case True
      then show ?thesis by (auto simp: bit_simps add.commute dest: bit_imp_le_length)
    next
      case False
      moreover have "\<not> bit ?w k"
        using False Cons.prems le_word_bound [of bs k, where 'a = 'a] by auto
      ultimately show ?thesis by (auto simp: bit_simps add.commute)
    qed
  qed
  ultimately show ?case using Cons.IH le by simp
qed simp

lemma put16_le: "put16 v = le_bytes 2 v"
  by (simp add: put16_def numeral_2_eq_2)

lemma put32_le: "put32 v = le_bytes 4 v"
  by (simp add: put32_def numeral_eq_Suc drop_bit_drop_bit)

lemma put64_le: "put64 v = le_bytes 8 v"
  by (simp add: put64_def upt_0_8 numeral_eq_Suc drop_bit_drop_bit)

lemma get16_le: "2 \<le> length p \<Longrightarrow> get16 p = le_word (take 2 p)"
  by (auto simp: get16_def numeral_eq_Suc Suc_le_length_iff)

lemma get32_le: "4 \<le> length p \<Longrightarrow> get32 p = le_word (take 4 p)"
  by (auto simp: get32_def numeral_eq_Suc Suc_le_length_iff push_bit_or or.assoc)

lemma get64_le: "8 \<le> length p \<Longrightarrow> get64 p = le_word (take 8 p)"
  by (cases p rule: list_eight_cases)
    (simp_all add: get64_def upt_0_8 push_bit_or or.assoc)

lemma take_bit_16_u32: "v < 65536 \<longleftrightarrow> take_bit 16 v = (v :: u32)"
proof -
  have "v < 65536 \<longleftrightarrow> unat v < 2 ^ 16"
    by (simp add: word_less_nat_alt)
  also have "\<dots> \<longleftrightarrow> unat (take_bit 16 v) = unat v"
    by (simp only: unsigned_take_bit_eq take_bit_nat_eq_self_iff)
  finally show ?thesis by (simp add: word_unat_eq_iff)
qed

lemma take_bit_full [simp]: "take_bit 32 (v :: u32) = v" "take_bit 64 (w :: u64) = w"
  by (auto intro: bit_word_eqI simp: bit_simps)

lemma le_word_16_bound: "length p = 2 \<Longrightarrow> le_word p < (65536 :: u32)"
  unfolding take_bit_16_u32
  using le_word_bound [of p, where 'a = 32] by (auto intro!: bit_word_eqI simp: bit_simps)

interpretation c16: fixed_codec put16 get16 2 "\<lambda>v. v < 65536"
proof unfold_locales
  fix p :: bytes assume "2 \<le> length p"
  then show "put16 (get16 p) = take 2 p"
    using le_bytes_le_word [of "take 2 p", where 'a = 32] by (simp add: put16_le get16_le)
qed (auto simp: put16_le get16_le le_word_le_bytes take_bit_16_u32 [symmetric] le_word_16_bound)


interpretation c32: fixed_codec put32 get32 4 "\<lambda>_. True"
proof unfold_locales
  fix p :: bytes assume "4 \<le> length p"
  then show "put32 (get32 p) = take 4 p"
    using le_bytes_le_word [of "take 4 p", where 'a = 32] by (simp add: put32_le get32_le)
qed (auto simp: put32_le get32_le le_word_le_bytes)

interpretation c64: fixed_codec put64 get64 8 "\<lambda>_. True"
proof unfold_locales
  fix p :: bytes assume "8 \<le> length p"
  then show "put64 (get64 p) = take 8 p"
    using le_bytes_le_word [of "take 8 p", where 'a = 64] by (simp add: put64_le get64_le)
qed (auto simp: put64_le get64_le le_word_le_bytes)

end
