(* ===== verification/Crc32.thy ===== *)
theory Crc32
  imports Byte_Codec
begin

unbundle bit_operations_syntax

text \<open>
  The checksum of the queue WAL (\<open>queue.c\<close>: \<open>crc_init\<close>, \<open>crc_span\<close>, \<open>crc32\<close>): the
  slice-by-8 tables as the code builds them, the folding loop that consumes eight
  bytes a step, and the three-span entry point.  The reference is the bit-at-a-time
  definition of the reflected CRC-32; the theory shows that the optimised routine
  computes it, that the checksum of three spans is the checksum of their
  concatenation, and that a change confined to one byte is always detected.
\<close>

subsection \<open>The tables and the folding loop\<close>

definition crc_poly_step :: "u32 \<Rightarrow> u32" where
  "crc_poly_step value =
     (if value AND 1 \<noteq> 0 then 0xedb88320 XOR drop_bit 1 value else drop_bit 1 value)"

fun crc_table :: "nat \<Rightarrow> u32 list" where
  "crc_table 0 = map (\<lambda>i. (crc_poly_step ^^ 8) (word_of_nat i)) [0..<256]"
| "crc_table (Suc sl) =
     map (\<lambda>i. crc_table 0 ! unat (crc_table sl ! i AND 0xff) XOR
              drop_bit 8 (crc_table sl ! i)) [0..<256]"

fun crc_span :: "u32 \<Rightarrow> bytes \<Rightarrow> u32" where
  "crc_span crc (p0 # p1 # p2 # p3 # p4 # p5 # p6 # p7 # p) =
     (let low = (ucast p0 OR push_bit 8 (ucast p1) OR push_bit 16 (ucast p2) OR
                 push_bit 24 (ucast p3)) XOR crc
      in crc_span
           (crc_table 7 ! unat (low AND 0xff) XOR
            crc_table 6 ! unat (drop_bit 8 low AND 0xff) XOR
            crc_table 5 ! unat (drop_bit 16 low AND 0xff) XOR
            crc_table 4 ! unat (drop_bit 24 low AND 0xff) XOR
            crc_table 3 ! unat p4 XOR crc_table 2 ! unat p5 XOR
            crc_table 1 ! unat p6 XOR crc_table 0 ! unat p7) p)"
| "crc_span crc (b # p) =
     crc_span (crc_table 0 ! unat ((crc XOR ucast b) AND 0xff) XOR drop_bit 8 crc) p"
| "crc_span crc [] = crc"

definition crc32 :: "bytes \<Rightarrow> bytes \<Rightarrow> bytes \<Rightarrow> u32" where
  "crc32 a b d = crc_span (crc_span (crc_span 0xffffffff a) b) d XOR 0xffffffff"

subsection \<open>The reference: one bit at a time\<close>

definition crc_byte :: "u32 \<Rightarrow> byte \<Rightarrow> u32" where
  "crc_byte crc b = (crc_poly_step ^^ 8) (crc XOR ucast b)"

definition crc_ref :: "u32 \<Rightarrow> bytes \<Rightarrow> u32" where
  "crc_ref = foldl crc_byte"

lemma odd_xor_word: "odd (x XOR y) \<longleftrightarrow> odd x \<noteq> odd (y :: u32)"
  using bit_xor_iff [of x y 0] by (simp add: bit_0)

lemma and_1_zero_iff: "(x :: u32) AND 1 \<noteq> 0 \<longleftrightarrow> odd x"
  by (simp add: and_one_eq odd_iff_mod_2_eq_one)

lemma crc_poly_step_xor: "crc_poly_step (x XOR y) = crc_poly_step x XOR crc_poly_step y"
  by (auto simp: crc_poly_step_def and_1_zero_iff odd_xor_word drop_bit_xor xor.assoc
      xor.left_commute xor.commute intro!: bit_word_eqI simp: bit_simps)

lemma crc_poly_steps_xor:
  "(crc_poly_step ^^ n) (x XOR y) = (crc_poly_step ^^ n) x XOR (crc_poly_step ^^ n) y"
  by (induction n) (simp_all add: crc_poly_step_xor)

lemma crc_poly_step_even:
  assumes "even x"
  shows "crc_poly_step x = drop_bit 1 x"
  using assms by (simp add: crc_poly_step_def and_1_zero_iff)

lemma crc_poly_steps_low_zero:
  "take_bit n x = 0 \<Longrightarrow> (crc_poly_step ^^ n) x = drop_bit n x"
proof (induction n arbitrary: x)
  case (Suc n)
  have low: "\<not> bit x k" if "k < Suc n" for k
    using Suc.prems that by (metis bit_0_eq bit_take_bit_iff bot_apply bot_bool_def)
  then have "even x" using bit_0 [of x] by blast
  then have step: "crc_poly_step x = drop_bit 1 x" by (rule crc_poly_step_even)
  have "take_bit n (drop_bit 1 x) = 0"
    using low by (intro bit_word_eqI) (auto simp: bit_simps)
  from Suc.IH [OF this] show ?case
    by (simp add: funpow_Suc_right step del: funpow.simps)
qed simp

lemma low_byte_split: "(x :: u32) = (x AND 0xff) XOR push_bit 8 (drop_bit 8 x)"
proof (rule bit_word_eqI)
  fix n assume "n < LENGTH(32)"
  have "(x AND 0xff) = take_bit 8 x" by (simp add: take_bit_eq_mask mask_eq_exp_minus_1)
  then show "bit x n = bit ((x AND 0xff) XOR push_bit 8 (drop_bit 8 x)) n"
    using \<open>n < LENGTH(32)\<close> by (auto simp: bit_simps)
qed

lemma crc_poly_steps_8: "(crc_poly_step ^^ 8) x = (crc_poly_step ^^ 8) (x AND 0xff) XOR drop_bit 8 x"
proof -
  have "(crc_poly_step ^^ 8) (push_bit 8 (drop_bit 8 x)) = drop_bit 8 (push_bit 8 (drop_bit 8 x))"
    by (rule crc_poly_steps_low_zero) (auto intro!: bit_word_eqI simp: bit_simps)
  also have "\<dots> = drop_bit 8 x"
    using bit_imp_le_length [of x] by (fastforce intro!: bit_word_eqI simp: bit_simps)
  finally show ?thesis
    by (subst low_byte_split [of x]) (simp add: crc_poly_steps_xor)
qed

lemma crc_poly_steps_0 [simp]: "(crc_poly_step ^^ n) 0 = 0"
  by (induction n) (simp_all add: crc_poly_step_def)

lemma crc_poly_steps_peel:
  "(crc_poly_step ^^ (n + 8)) x =
     (crc_poly_step ^^ (n + 8)) (x AND 0xff) XOR (crc_poly_step ^^ n) (drop_bit 8 x)"
proof -
  have "(crc_poly_step ^^ (n + 8)) x = (crc_poly_step ^^ n) ((crc_poly_step ^^ 8) x)"
    by (simp only: funpow_add o_apply)
  also have "\<dots> = (crc_poly_step ^^ n) ((crc_poly_step ^^ 8) (x AND 0xff)) XOR
                (crc_poly_step ^^ n) (drop_bit 8 x)"
    by (subst crc_poly_steps_8) (rule crc_poly_steps_xor)
  finally show ?thesis by (simp only: funpow_add o_apply)
qed

lemma crc_poly_steps_word:
  "(crc_poly_step ^^ 64) x =
     (crc_poly_step ^^ 64) (x AND 0xff) XOR (crc_poly_step ^^ 56) (drop_bit 8 x AND 0xff) XOR
     (crc_poly_step ^^ 48) (drop_bit 16 x AND 0xff) XOR
     (crc_poly_step ^^ 40) (drop_bit 24 x AND 0xff)"
proof -
  have "drop_bit 32 x = 0" by simp
  then show ?thesis
    using crc_poly_steps_peel [of 56 x] crc_poly_steps_peel [of 48 "drop_bit 8 x"]
      crc_poly_steps_peel [of 40 "drop_bit 16 x"] crc_poly_steps_peel [of 32 "drop_bit 24 x"]
    by (simp add: drop_bit_drop_bit xor.assoc)
qed

lemma unat_low_byte: "unat ((x :: u32) AND 0xff) < 256"
proof -
  have "x AND 0xff \<le> 0xff" by (rule word_and_le1)
  then show ?thesis by (simp add: word_le_nat_alt)
qed

lemma length_crc_table [simp]: "length (crc_table sl) = 256"
  by (cases sl) simp_all

lemma crc_table_0: "crc_table 0 ! unat (x AND 0xff) = (crc_poly_step ^^ 8) (x AND 0xff)"
  using unat_low_byte [of x] by simp

lemma crc_table_nth:
  "i < 256 \<Longrightarrow> crc_table sl ! i = (crc_poly_step ^^ (8 * Suc sl)) (word_of_nat i)"
proof (induction sl)
  case 0
  then show ?case by simp
next
  case (Suc sl)
  let ?p = "crc_table sl ! i"
  have "crc_table (Suc sl) ! i = (crc_poly_step ^^ 8) (?p AND 0xff) XOR drop_bit 8 ?p"
    using Suc.prems by (simp only: crc_table.simps(2) nth_map length_upt nth_upt crc_table_0) simp
  also have "\<dots> = (crc_poly_step ^^ 8) ?p" by (simp only: crc_poly_steps_8 [of ?p])
  also have "\<dots> = (crc_poly_step ^^ (8 + 8 * Suc sl)) (word_of_nat i)"
    using Suc.IH [OF Suc.prems] by (simp only: funpow_add o_apply)
  finally show ?case by (simp only: mult_Suc_right)
qed

declare crc_table.simps [simp del]

lemma crc_table_word:
  "crc_table sl ! unat (x AND 0xff) = (crc_poly_step ^^ (8 * Suc sl)) (x AND 0xff)"
  by (simp add: crc_table_nth [OF unat_low_byte] del: funpow.simps)

lemma crc_table_byte:
  "crc_table sl ! unat (b :: byte) = (crc_poly_step ^^ (8 * Suc sl)) (ucast b)"
proof -
  have "unat b < 256" using unsigned_less [of b] by simp
  then show ?thesis by (simp add: crc_table_nth del: funpow.simps)
qed

lemma crc_byte_table:
  "crc_table 0 ! unat ((crc XOR ucast b) AND 0xff) XOR drop_bit 8 crc = crc_byte crc b"
proof -
  have "drop_bit 8 (crc XOR ucast b) = drop_bit 8 crc"
    by (rule bit_word_eqI) (auto simp: bit_simps dest: bit_imp_le_length)
  then show ?thesis
    using crc_poly_steps_8 [of "crc XOR ucast b"]
    by (simp add: crc_byte_def crc_table_0 del: funpow.simps)
qed

lemma crc_bytes_linear:
  "foldl crc_byte crc [p0, p1, p2, p3, p4, p5, p6, p7] =
     (crc_poly_step ^^ 64) crc XOR
     (crc_poly_step ^^ 64) (ucast p0) XOR (crc_poly_step ^^ 56) (ucast p1) XOR
     (crc_poly_step ^^ 48) (ucast p2) XOR (crc_poly_step ^^ 40) (ucast p3) XOR
     (crc_poly_step ^^ 32) (ucast p4) XOR (crc_poly_step ^^ 24) (ucast p5) XOR
     (crc_poly_step ^^ 16) (ucast p6) XOR (crc_poly_step ^^ 8) (ucast p7)"
  by (simp add: crc_byte_def crc_poly_steps_xor xor.assoc o_def
      flip: funpow_add [THEN fun_cong, unfolded o_apply] del: funpow.simps)

lemma low_word_bytes:
  fixes p0 p1 p2 p3 :: byte
  defines "w \<equiv> (ucast p0 OR push_bit 8 (ucast p1) OR push_bit 16 (ucast p2) OR
                 push_bit 24 (ucast p3) :: u32)"
  shows "w AND 0xff = ucast p0" "drop_bit 8 w AND 0xff = ucast p1"
    "drop_bit 16 w AND 0xff = ucast p2" "drop_bit 24 w AND 0xff = ucast p3"
proof -
  have ff: "(0xff :: u32) = mask 8" by (simp add: mask_eq_exp_minus_1)
  show "w AND 0xff = ucast p0" "drop_bit 8 w AND 0xff = ucast p1"
    "drop_bit 16 w AND 0xff = ucast p2" "drop_bit 24 w AND 0xff = ucast p3"
    unfolding w_def ff
    by (intro bit_word_eqI, auto simp: bit_simps dest: bit_imp_le_length)+
qed

lemma crc_table_slices:
  "crc_table 7 ! unat (x AND 0xff) XOR crc_table 6 ! unat (drop_bit 8 x AND 0xff) XOR
   crc_table 5 ! unat (drop_bit 16 x AND 0xff) XOR crc_table 4 ! unat (drop_bit 24 x AND 0xff) =
   (crc_poly_step ^^ 64) x"
proof -
  have "(crc_poly_step ^^ (8 * Suc 7)) = crc_poly_step ^^ 64"
    "(crc_poly_step ^^ (8 * Suc 6)) = crc_poly_step ^^ 56"
    "(crc_poly_step ^^ (8 * Suc 5)) = crc_poly_step ^^ 48"
    "(crc_poly_step ^^ (8 * Suc 4)) = crc_poly_step ^^ 40"
    by (simp_all del: funpow.simps)
  then show ?thesis
    using crc_poly_steps_word [of x] by (simp only: crc_table_word)
qed

lemma crc_table_tail:
  fixes p4 p5 p6 p7 :: byte
  shows "crc_table 3 ! unat p4 XOR crc_table 2 ! unat p5 XOR crc_table 1 ! unat p6 XOR
   crc_table 0 ! unat p7 =
   (crc_poly_step ^^ 32) (ucast p4) XOR (crc_poly_step ^^ 24) (ucast p5) XOR
   (crc_poly_step ^^ 16) (ucast p6) XOR (crc_poly_step ^^ 8) (ucast p7)"
proof -
  have "(crc_poly_step ^^ (8 * Suc 3)) = crc_poly_step ^^ 32"
    "(crc_poly_step ^^ (8 * Suc 2)) = crc_poly_step ^^ 24"
    "(crc_poly_step ^^ (8 * Suc 1)) = crc_poly_step ^^ 16"
    "(crc_poly_step ^^ (8 * Suc 0)) = crc_poly_step ^^ 8"
    by (simp_all del: funpow.simps)
  then show ?thesis by (simp only: crc_table_byte)
qed

lemma crc_fold_eight:
  "(let low = (ucast p0 OR push_bit 8 (ucast p1) OR push_bit 16 (ucast p2) OR
               push_bit 24 (ucast p3)) XOR crc
    in crc_table 7 ! unat (low AND 0xff) XOR
       crc_table 6 ! unat (drop_bit 8 low AND 0xff) XOR
       crc_table 5 ! unat (drop_bit 16 low AND 0xff) XOR
       crc_table 4 ! unat (drop_bit 24 low AND 0xff) XOR
       crc_table 3 ! unat p4 XOR crc_table 2 ! unat p5 XOR
       crc_table 1 ! unat p6 XOR crc_table 0 ! unat p7) =
   foldl crc_byte crc [p0, p1, p2, p3, p4, p5, p6, p7]"
proof -
  let ?w = "ucast p0 OR push_bit 8 (ucast p1) OR push_bit 16 (ucast p2) OR
               push_bit 24 (ucast p3) :: u32"
  have w: "(crc_poly_step ^^ 64) ?w = (crc_poly_step ^^ 64) (ucast p0) XOR
     (crc_poly_step ^^ 56) (ucast p1) XOR (crc_poly_step ^^ 48) (ucast p2) XOR
     (crc_poly_step ^^ 40) (ucast p3)"
    by (subst crc_poly_steps_word) (simp only: low_word_bytes)
  show ?thesis
    unfolding Let_def crc_bytes_linear
    using crc_table_slices [of "?w XOR crc"] crc_table_tail [of p4 p5 p6 p7]
    by (simp only: crc_poly_steps_xor w xor.assoc [symmetric]) (simp only: ac_simps)
qed

lemma crc_span_ref: "crc_span crc p = crc_ref crc p"
proof (induction crc p rule: crc_span.induct)
  case (1 crc p0 p1 p2 p3 p4 p5 p6 p7 p)
  show ?case
    by (simp only: crc_span.simps(1) Let_def 1 [OF refl])
      (simp only: crc_fold_eight [unfolded Let_def] crc_ref_def foldl.simps)
qed (simp_all add: crc_byte_table crc_ref_def)


subsection \<open>What the checksum promises\<close>

lemma crc_ref_Cons: "crc_ref crc (b # p) = crc_ref (crc_byte crc b) p"
  by (simp add: crc_ref_def)

lemma crc_ref_append: "crc_ref crc (a @ b) = crc_ref (crc_ref crc a) b"
  by (simp add: crc_ref_def)

lemma crc32_spans: "crc32 a b d = crc_ref 0xffffffff (a @ b @ d) XOR 0xffffffff"
  by (simp add: crc32_def crc_span_ref crc_ref_append)

lemma crc_poly_step_top: "bit (crc_poly_step x) 31 \<longleftrightarrow> odd x"
proof -
  have "bit (0xedb88320 :: u32) 31" by simp
  moreover have "\<not> bit (drop_bit 1 x) 31"
    using bit_imp_le_length [of x 32] by (auto simp: bit_simps)
  ultimately show ?thesis
    by (simp add: crc_poly_step_def and_1_zero_iff bit_xor_iff del: bit_numeral_simps)
qed

lemma xor_eq_0_word: "x XOR y = 0 \<longleftrightarrow> x = (y :: u32)"
  by (auto simp: bit_eq_iff bit_xor_iff)

lemma xor_cancel_word [simp]: "x XOR z = y XOR z \<longleftrightarrow> x = (y :: u32)"
  by (auto simp: bit_eq_iff bit_xor_iff)

lemma crc_poly_step_zero: "crc_poly_step x = 0 \<Longrightarrow> x = 0"
proof -
  assume z: "crc_poly_step x = 0"
  then have ev: "even x" using crc_poly_step_top [of x] by simp
  then have "drop_bit 1 x = 0" using z by (simp add: crc_poly_step_even)
  then have "\<not> bit x (Suc n)" for n using bit_drop_bit_eq [of 1 x] by (metis bit_0_eq bot_apply bot_bool_def comp_apply plus_1_eq_Suc)
  with ev show "x = 0" by (intro bit_word_eqI) (metis bit_0 bit_0_eq bot_apply bot_bool_def not0_implies_Suc)
qed

lemma crc_poly_steps_zero: "(crc_poly_step ^^ n) x = 0 \<Longrightarrow> x = 0"
  by (induction n) (auto dest: crc_poly_step_zero)

lemma crc_byte_xor: "crc_byte (x XOR y) b = crc_byte x b XOR (crc_poly_step ^^ 8) y"
  by (simp add: crc_byte_def crc_poly_steps_xor ac_simps del: funpow.simps)

lemma crc_ref_xor:
  "crc_ref (x XOR y) p = crc_ref x p XOR (crc_poly_step ^^ (8 * length p)) y"
proof (induction p arbitrary: x y)
  case (Cons b p)
  have "crc_ref (x XOR y) (b # p) = crc_ref (crc_byte x b XOR (crc_poly_step ^^ 8) y) p"
    by (simp add: crc_ref_def crc_byte_xor del: funpow.simps)
  also have "\<dots> = crc_ref (crc_byte x b) p XOR
                (crc_poly_step ^^ (8 * length p)) ((crc_poly_step ^^ 8) y)"
    by (rule Cons.IH)
  also have "(crc_poly_step ^^ (8 * length p)) ((crc_poly_step ^^ 8) y) =
             (crc_poly_step ^^ (8 * length (b # p))) y"
    using funpow_add [of "8 * length p" 8 crc_poly_step] by (simp add: add.commute del: funpow.simps)
  finally show ?case by (simp add: crc_ref_def del: funpow.simps)
qed (simp add: crc_ref_def)

lemma crc_ref_inj_state:
  assumes "crc_ref x p = crc_ref y p"
  shows "x = y"
proof -
  have "y = x XOR (x XOR y)" by (simp flip: xor.assoc)
  then have "crc_ref y p = crc_ref x p XOR (crc_poly_step ^^ (8 * length p)) (x XOR y)"
    using crc_ref_xor [of x "x XOR y" p] by simp
  then have "(crc_poly_step ^^ (8 * length p)) (x XOR y) = 0"
    using assms by (auto simp: bit_eq_iff bit_xor_iff)
  then show ?thesis using crc_poly_steps_zero xor_eq_0_word by blast
qed

lemma crc_byte_inj: "crc_byte x b = crc_byte x c \<Longrightarrow> b = c"
proof -
  assume "crc_byte x b = crc_byte x c"
  then have "(crc_poly_step ^^ 8) ((x XOR ucast b) XOR (x XOR ucast c)) = 0"
    by (simp only: crc_byte_def crc_poly_steps_xor xor_self_eq)
  then have "(x XOR ucast b) XOR (x XOR ucast c) = 0" by (rule crc_poly_steps_zero)
  then have "(ucast b :: u32) = ucast c" by (simp add: xor_eq_0_word) (auto simp: bit_eq_iff bit_xor_iff)
  then have eq: "bit (ucast b :: u32) n = bit (ucast c :: u32) n" for n by simp
  have "bit b n = bit c n" if "n < 8" for n
    using eq [of n] that by (simp add: bit_simps)
  then show "b = c" by (intro bit_word_eqI) simp
qed

lemma crc32_detects_byte:
  assumes "a @ b @ d = p @ x # q" and "a' @ b' @ d' = p @ y # q" and "x \<noteq> y"
  shows "crc32 a b d \<noteq> crc32 a' b' d'"
proof
  assume "crc32 a b d = crc32 a' b' d'"
  then have "crc_ref 0xffffffff (p @ x # q) = crc_ref 0xffffffff (p @ y # q)"
    unfolding crc32_spans assms(1,2) by simp
  then have "crc_byte (crc_ref 0xffffffff p) x = crc_byte (crc_ref 0xffffffff p) y"
    by (simp only: crc_ref_append crc_ref_Cons) (rule crc_ref_inj_state)
  then show False using crc_byte_inj assms(3) by blast
qed

subsection \<open>Properties\<close>

text \<open>
  C8: The slice-by-8 checksum of three spans is the bit-at-a-time CRC-32 of their
  concatenation.
\<close>

theorem crc32_bitwise:
  "crc32 a b d = foldl crc_byte 0xffffffff (a @ b @ d) XOR 0xffffffff"
  by (simp add: crc32_spans crc_ref_def)

text \<open>
  C9: Two inputs that differ in exactly one byte never have the same checksum, however they
  are split into spans.
\<close>

theorem crc32_byte_change_detected:
  assumes "a @ b @ d = p @ x # q" and "a' @ b' @ d' = p @ y # q" and "x \<noteq> y"
  shows "crc32 a b d \<noteq> crc32 a' b' d'"
  using assms by (rule crc32_detects_byte)

theorem crc32_byte_change_detected_witness:
  "crc32 [1, 2] [3] [] \<noteq> crc32 [1] [7] [3]"
  using crc32_byte_change_detected [of "[1, 2]" "[3]" "[]" "[1]" 2 "[3]" "[1]" "[7]" "[3]" 7]
  by simp

end
