(* ===== verification/Wal_Record.thy ===== *)
theory Wal_Record
  imports Crc32
begin

unbundle bit_operations_syntax

text \<open>
  The record format of the queue log (\<open>queue.c\<close>): the operation codes, the header that
  \<open>append_record_ex\<close> and \<open>append_batch_records\<close> assemble, the reading half of \<open>replay_log\<close>
  (everything up to the point where a record is applied) and the scan of the bytes
  after the last good record, \<open>tail_holds_record\<close>.

  The lemmas show that reading what was written gives the record back and leaves the
  bytes that follow it, that what is read is exactly what would be written, and that the
  zero tail of a space reservation holds no record.
\<close>

subsection \<open>Operation codes\<close>

datatype log_op =
    LOG_DECLARE | LOG_PUBLISH | LOG_ACK | LOG_DELIVER | LOG_REQUEUE
  | LOG_EXDECLARE | LOG_EXBIND | LOG_EXUNBIND | LOG_TX_PREPARE | LOG_TX_COMMIT
  | LOG_CONSUMER | LOG_CONSUMER_DEL | LOG_PURGE | LOG_DELETE | LOG_EXDELETE | LOG_EXUPDATE
  | LOG_JOB_STATE | LOG_JOB_COMPLETION | LOG_JOB_RECEIPT | LOG_JOB_META | LOG_QUEUE_META

fun op_code :: "log_op \<Rightarrow> byte" where
  "op_code LOG_DECLARE = 1"
| "op_code LOG_PUBLISH = 2"
| "op_code LOG_ACK = 3"
| "op_code LOG_DELIVER = 4"
| "op_code LOG_REQUEUE = 5"
| "op_code LOG_EXDECLARE = 6"
| "op_code LOG_EXBIND = 7"
| "op_code LOG_EXUNBIND = 8"
| "op_code LOG_TX_PREPARE = 9"
| "op_code LOG_TX_COMMIT = 10"
| "op_code LOG_CONSUMER = 11"
| "op_code LOG_CONSUMER_DEL = 12"
| "op_code LOG_PURGE = 13"
| "op_code LOG_DELETE = 14"
| "op_code LOG_EXDELETE = 15"
| "op_code LOG_EXUPDATE = 16"
| "op_code LOG_JOB_STATE = 17"
| "op_code LOG_JOB_COMPLETION = 18"
| "op_code LOG_JOB_RECEIPT = 19"
| "op_code LOG_JOB_META = 20"
| "op_code LOG_QUEUE_META = 21"

definition all_ops :: "log_op list" where
  "all_ops = [LOG_DECLARE, LOG_PUBLISH, LOG_ACK, LOG_DELIVER, LOG_REQUEUE, LOG_EXDECLARE,
     LOG_EXBIND, LOG_EXUNBIND, LOG_TX_PREPARE, LOG_TX_COMMIT, LOG_CONSUMER, LOG_CONSUMER_DEL,
     LOG_PURGE, LOG_DELETE, LOG_EXDELETE, LOG_EXUPDATE, LOG_JOB_STATE, LOG_JOB_COMPLETION,
     LOG_JOB_RECEIPT, LOG_JOB_META, LOG_QUEUE_META]"

text \<open>
  \<open>record_op_known\<close> answers which operation a header byte names; where the code keeps the
  byte and asks again, the model keeps the constructor.
\<close>

definition record_op_known :: "byte \<Rightarrow> log_op option" where
  "record_op_known b = find (\<lambda>op. op_code op = b) all_ops"

definition job_record :: "log_op \<Rightarrow> bool" where
  "job_record op = (op \<in> {LOG_JOB_STATE, LOG_JOB_COMPLETION, LOG_JOB_RECEIPT, LOG_JOB_META,
                          LOG_QUEUE_META})"

subsection \<open>Writing\<close>

definition QUEUE_NAME_MAX :: nat where "QUEUE_NAME_MAX = 255"
definition QUEUE_MESSAGE_MAX :: nat where "QUEUE_MESSAGE_MAX = 64 * 2 ^ 20"
definition LOG_HEADER :: nat where "LOG_HEADER = 28"

record log_record =
  r_op :: log_op
  r_durable :: bool
  r_name :: bytes
  r_id :: u64
  r_aux :: u64
  r_data :: bytes

definition header_fields :: "log_record \<Rightarrow> bytes" where
  "header_fields r =
     [op_code (r_op r), if r_durable r then 1 else 0] @
     put16 (word_of_nat (length (r_name r))) @
     put32 (word_of_nat (length (r_data r))) @ put64 (r_id r) @ put64 (r_aux r)"

definition log_header :: "log_record \<Rightarrow> bytes" where
  "log_header r =
     header_fields r @ put32 (crc32 (header_fields r) (r_name r) (r_data r))"

definition encode_record :: "log_record \<Rightarrow> bytes" where
  "encode_record r = log_header r @ r_name r @ r_data r"

subsection \<open>Reading\<close>

definition read_all :: "bytes \<Rightarrow> nat \<Rightarrow> int" where
  "read_all rest n =
     (if n = 0 then 1 else if rest = [] then 0 else if length rest < n then -1 else 1)"

text \<open>
  The conditions under which \<open>replay_log\<close> calls a header corrupt; \<open>None\<close> is an unknown
  operation.
\<close>

definition header_corrupt :: "log_op option \<Rightarrow> nat \<Rightarrow> nat \<Rightarrow> u64 \<Rightarrow> bool" where
  "header_corrupt known name_len len rid =
     (case known of None \<Rightarrow> True | Some op \<Rightarrow>
        name_len = 0 \<or> name_len > QUEUE_NAME_MAX \<or> len > QUEUE_MESSAGE_MAX \<or>
        (op \<notin> {LOG_PUBLISH, LOG_DECLARE, LOG_EXDECLARE, LOG_EXBIND, LOG_EXUNBIND, LOG_EXUPDATE,
               LOG_TX_PREPARE, LOG_TX_COMMIT} \<and> \<not> job_record op \<and> len \<noteq> 0) \<or>
        (op = LOG_DECLARE \<and> len > 6 + QUEUE_NAME_MAX) \<or>
        (job_record op \<and> op \<noteq> LOG_QUEUE_META \<and> len = 0) \<or>
        (op = LOG_CONSUMER \<and> rid = 0) \<or> (op = LOG_CONSUMER_DEL \<and> rid \<noteq> 0))"

datatype parse_result =
    Parse_Eof
  | Parse_Corrupt
  | Parse_Job_Disabled
  | Parse_Job_Format
  | Parsed log_record bytes

text \<open>
  One turn of \<open>replay_log\<close> up to the dispatch.  \<open>parse_body\<close> is the part after the header has
  been taken apart: \<open>after\<close> is the log behind the header, \<open>mem\<close> says whether the allocation of
  the payload succeeds.  \<open>parse_record\<close> reads the header; \<open>rest\<close> is the log from the read
  position on.
\<close>

definition parse_body ::
  "bool \<Rightarrow> bool \<Rightarrow> bytes \<Rightarrow> log_op option \<Rightarrow> bool \<Rightarrow> nat \<Rightarrow> nat \<Rightarrow> u64 \<Rightarrow> u64 \<Rightarrow> u32 \<Rightarrow> bytes \<Rightarrow> parse_result"
where
  "parse_body job_enabled mem h24 known durable name_len len rid expires_ms expected after =
     (let is_job = (case known of None \<Rightarrow> False | Some op \<Rightarrow> job_record op) in
      if is_job \<and> \<not> job_enabled then Parse_Job_Disabled
      else if header_corrupt known name_len len rid then Parse_Corrupt
      else
        let name = take name_len after; data = take len (drop name_len after)
        in if len \<noteq> 0 \<and> \<not> mem \<or> read_all after name_len \<noteq> 1 \<or>
              (len \<noteq> 0 \<and> read_all (drop name_len after) len \<noteq> 1) then Parse_Corrupt
        else if crc32 h24 name data \<noteq> expected then Parse_Corrupt
        else if is_job \<and> known \<noteq> Some LOG_QUEUE_META \<and> data ! 0 \<noteq> 1 then Parse_Job_Format
        else Parsed \<lparr>r_op = the known, r_durable = durable, r_name = name, r_id = rid,
                      r_aux = expires_ms, r_data = data\<rparr> (drop len (drop name_len after)))"

definition parse_record :: "bool \<Rightarrow> bool \<Rightarrow> bytes \<Rightarrow> parse_result" where
  "parse_record job_enabled mem rest =
     (let rc = read_all rest LOG_HEADER in
      if rc = 0 then Parse_Eof else if rc < 0 then Parse_Corrupt
      else
        let header = take LOG_HEADER rest
        in parse_body job_enabled mem (take 24 header) (record_op_known (header ! 0))
             (header ! 1 \<noteq> 0) (unat (get16 (drop 2 header))) (unat (get32 (drop 4 header)))
             (get64 (drop 8 header)) (get64 (drop 16 header)) (get32 (drop 24 header))
             (drop LOG_HEADER rest))"

fun scan_tail :: "bytes \<Rightarrow> bool" where
  "scan_tail [] = False"
| "scan_tail (b # h) =
     (if length (b # h) < LOG_HEADER then False
      else
        let hd28 = b # h; name_len = unat (get16 (drop 2 hd28)); len = unat (get32 (drop 4 hd28))
        in if record_op_known b \<noteq> None \<and> name_len \<noteq> 0 \<and> name_len \<le> QUEUE_NAME_MAX \<and>
              len \<le> QUEUE_MESSAGE_MAX \<and> LOG_HEADER + name_len + len \<le> length hd28 \<and>
              crc32 (take 24 hd28) (take name_len (drop LOG_HEADER hd28))
                (take len (drop (LOG_HEADER + name_len) hd28)) = get32 (drop 24 hd28)
           then True else scan_tail h)"

text \<open>The answer of \<open>tail_holds_record\<close> on the bytes from the last good position to the end.\<close>

definition tail_holds_record :: "bool \<Rightarrow> bytes \<Rightarrow> int" where
  "tail_holds_record mem tail =
     (if tail = [] then 0
      else if \<not> mem then -1
      else let rest = dropWhile (\<lambda>b. b = 0) tail in
        if rest = [] then 0 else if scan_tail rest then 1 else 0)"

subsection \<open>Codes\<close>

lemma op_code_nonzero [simp]: "op_code op \<noteq> 0"
  by (cases op) simp_all

lemma record_op_known_code [simp]: "record_op_known (op_code op) = Some op"
  by (cases op) (simp_all add: record_op_known_def all_ops_def)

lemma record_op_known_SomeD: "record_op_known b = Some op \<Longrightarrow> op_code op = b"
  unfolding record_op_known_def by (drule find_Some_mem) (rule conjunct2)

lemma record_op_known_0 [simp]: "record_op_known 0 = None"
  by (simp add: record_op_known_def all_ops_def)

subsection \<open>Well-formed records\<close>

text \<open>What every writer of the log guarantees of the record it appends.\<close>

definition valid_record :: "log_record \<Rightarrow> bool" where
  "valid_record r \<longleftrightarrow>
     \<not> header_corrupt (Some (r_op r)) (length (r_name r)) (length (r_data r)) (r_id r) \<and>
     (job_record (r_op r) \<longrightarrow> r_op r \<noteq> LOG_QUEUE_META \<longrightarrow> r_data r ! 0 = 1)"

lemma length_header_fields [simp]: "length (header_fields r) = 24"
  by (simp add: header_fields_def)

lemma length_log_header [simp]: "length (log_header r) = LOG_HEADER"
  by (simp add: log_header_def LOG_HEADER_def)

lemma length_encode_record:
  "length (encode_record r) = LOG_HEADER + length (r_name r) + length (r_data r)"
  by (simp add: encode_record_def)

lemma header_fields_decode:
  fixes r :: log_record and rest h :: bytes
  defines "h \<equiv> header_fields r @ rest"
  assumes "length (r_name r) < 65536" and "length (r_data r) < 2 ^ 32"
  shows "h ! 0 = op_code (r_op r)" "h ! 1 = (if r_durable r then 1 else 0)"
    "unat (get16 (drop 2 h)) = length (r_name r)" "unat (get32 (drop 4 h)) = length (r_data r)"
    "get64 (drop 8 h) = r_id r" "get64 (drop 16 h) = r_aux r" "take 24 h = header_fields r"
    "drop 24 h = rest"
proof -
  let ?n = "word_of_nat (length (r_name r)) :: u32" and ?l = "word_of_nat (length (r_data r)) :: u32"
  have n: "?n < 65536" and un: "unat ?n = length (r_name r)"
    using assms(2) by (simp_all add: word_less_nat_alt unat_of_nat)
  have ul: "unat ?l = length (r_data r)"
    using assms(3) by (simp add: unat_of_nat)
  have d2: "drop 2 h = put16 ?n @ put32 ?l @ put64 (r_id r) @ put64 (r_aux r) @ rest"
    and d4: "drop 4 h = put32 ?l @ put64 (r_id r) @ put64 (r_aux r) @ rest"
    and d8: "drop 8 h = put64 (r_id r) @ put64 (r_aux r) @ rest"
    and d16: "drop 16 h = put64 (r_aux r) @ rest"
    by (simp_all add: h_def header_fields_def)
  show "unat (get16 (drop 2 h)) = length (r_name r)"
    unfolding d2 using c16.dec_enc [OF n] un by simp
  show "unat (get32 (drop 4 h)) = length (r_data r)"
    unfolding d4 using c32.dec_enc [of ?l] ul by simp
  show "get64 (drop 8 h) = r_id r" "get64 (drop 16 h) = r_aux r"
    unfolding d8 d16 using c64.dec_enc by simp_all
  show "h ! 0 = op_code (r_op r)" "h ! 1 = (if r_durable r then 1 else 0)"
    "take 24 h = header_fields r" "drop 24 h = rest"
    by (simp_all add: h_def) (simp_all add: header_fields_def)
qed

lemma valid_record_bounds:
  assumes "valid_record r"
  shows "0 < length (r_name r)" "length (r_name r) \<le> QUEUE_NAME_MAX"
    "length (r_data r) \<le> QUEUE_MESSAGE_MAX" "length (r_name r) < 65536"
    "length (r_data r) < 2 ^ 32"
  using assms by (auto simp: valid_record_def header_corrupt_def QUEUE_NAME_MAX_def QUEUE_MESSAGE_MAX_def)

lemma parse_encode_record:
  assumes v: "valid_record r" and job: "job_record (r_op r) \<longrightarrow> job_enabled"
    and mem: "r_data r = [] \<or> mem"
  shows "parse_record job_enabled mem (encode_record r @ rest) = Parsed r rest"
proof -
  note b = valid_record_bounds [OF v]
  let ?e = "encode_record r @ rest"
  let ?h = "log_header r"
  have h: "take LOG_HEADER ?e = ?h" and a: "drop LOG_HEADER ?e = r_name r @ r_data r @ rest"
    by (simp_all add: encode_record_def)
  have rc: "read_all ?e LOG_HEADER = 1"
    using length_encode_record [of r] by (auto simp: read_all_def LOG_HEADER_def)
  have f: "?h = header_fields r @ put32 (crc32 (header_fields r) (r_name r) (r_data r))"
    by (simp add: log_header_def)
  note d = header_fields_decode [OF b(4,5), of "put32 (crc32 (header_fields r) (r_name r) (r_data r))",
      folded f]
  have crc: "get32 (drop 24 ?h) = crc32 (header_fields r) (r_name r) (r_data r)"
    by (simp only: d(8)) (rule c32.dec_enc_exact, simp)
  have reads: "read_all (r_name r @ r_data r @ rest) (length (r_name r)) = 1"
    "r_data r \<noteq> [] \<Longrightarrow> read_all (r_data r @ rest) (length (r_data r)) = 1"
    using b(1) by (auto simp: read_all_def)
  have body: "parse_body job_enabled mem (header_fields r) (Some (r_op r)) (r_durable r)
      (length (r_name r)) (length (r_data r)) (r_id r) (r_aux r)
      (crc32 (header_fields r) (r_name r) (r_data r)) (r_name r @ r_data r @ rest) = Parsed r rest"
    using v job mem reads by (auto simp: parse_body_def valid_record_def Let_def)
  have flag: "((if r_durable r then 1 else 0 :: byte) \<noteq> 0) = r_durable r" by simp
  show ?thesis
    unfolding parse_record_def h a rc Let_def d record_op_known_code crc [unfolded d] flag body
    by simp
qed

text \<open>Whatever is read is what would have been written, up to the value of the flag byte.\<close>

lemma take_drop_split: "n + k \<le> length xs \<Longrightarrow> take n xs @ take k (drop n xs) @ drop (n + k) xs = xs"
  by (metis append_assoc append_take_drop_id drop_drop add.commute)

lemma header_corrupt_None [simp]: "header_corrupt None n l i"
  by (simp add: header_corrupt_def)

lemma parse_body_Parsed:
  assumes p: "parse_body job_enabled mem h24 known durable n l rid aux expected a = Parsed r rest"
  shows "valid_record r" "job_record (r_op r) \<longrightarrow> job_enabled" "a = r_name r @ r_data r @ rest"
proof -
  obtain op where op: "known = Some op"
    and hc: "\<not> header_corrupt (Some op) n l rid"
    and job: "job_record op \<longrightarrow> job_enabled"
    and rd: "read_all a n = 1" "l \<noteq> 0 \<longrightarrow> read_all (drop n a) l = 1"
    and fmt: "job_record op \<and> op \<noteq> LOG_QUEUE_META \<longrightarrow> take l (drop n a) ! 0 = 1"
    and r: "r = \<lparr>r_op = op, r_durable = durable, r_name = take n a, r_id = rid, r_aux = aux,
                 r_data = take l (drop n a)\<rparr>"
    and rest: "rest = drop l (drop n a)"
    using p unfolding parse_body_def Let_def
    by (cases known) (auto split: if_split_asm)
  have n0: "n \<noteq> 0" using hc by (simp add: header_corrupt_def)
  have ln: "length (r_name r) = n" and ld: "length (r_data r) = l"
    using rd n0 r by (auto simp: read_all_def split: if_splits)
  show "valid_record r" using hc fmt ln ld r by (simp add: valid_record_def)
  show "job_record (r_op r) \<longrightarrow> job_enabled" using job r by simp
  have le: "n + l \<le> length a" using ln ld rd n0 r by (auto simp: read_all_def split: if_splits)
  have "rest = drop (n + l) a" using rest by (simp add: add.commute)
  then show "a = r_name r @ r_data r @ rest"
    using take_drop_split [OF le] r by simp
qed

lemma parse_record_Parsed:
  assumes p: "parse_record job_enabled mem bs = Parsed r rest"
  shows "valid_record r" "job_record (r_op r) \<longrightarrow> job_enabled"
    "bs = take LOG_HEADER bs @ r_name r @ r_data r @ rest"
    "length rest < length bs"
proof -
  let ?h = "take LOG_HEADER bs"
  have rd0: "read_all bs LOG_HEADER \<noteq> 0" "\<not> read_all bs LOG_HEADER < 0"
    and body: "parse_body job_enabled mem (take 24 ?h) (record_op_known (?h ! 0)) (?h ! 1 \<noteq> 0)
      (unat (get16 (drop 2 ?h))) (unat (get32 (drop 4 ?h))) (get64 (drop 8 ?h)) (get64 (drop 16 ?h))
      (get32 (drop 24 ?h)) (drop LOG_HEADER bs) = Parsed r rest"
    using p unfolding parse_record_def Let_def by (simp_all split: if_split_asm)
  have l28: "LOG_HEADER \<le> length bs"
    using rd0 by (auto simp: read_all_def split: if_splits)
  note b = parse_body_Parsed [OF body]
  show "valid_record r" "job_record (r_op r) \<longrightarrow> job_enabled" by (fact b)+
  have eq: "take LOG_HEADER bs @ drop LOG_HEADER bs = bs" by (rule append_take_drop_id)
  then show "bs = take LOG_HEADER bs @ r_name r @ r_data r @ rest" by (simp only: b(3))
  have "length bs = LOG_HEADER + length (drop LOG_HEADER bs)" using l28 by simp
  then show "length rest < length bs" by (simp only: b(3)) (simp add: LOG_HEADER_def)
qed

lemma read_all_nil [simp]: "n \<noteq> 0 \<Longrightarrow> read_all [] n = 0"
  by (simp add: read_all_def)

lemma parse_record_Nil [simp]: "parse_record job_enabled mem [] = Parse_Eof"
  by (simp add: parse_record_def LOG_HEADER_def Let_def)

subsection \<open>The tail\<close>

lemma tail_zeros: "\<forall>b \<in> set tail. b = 0 \<Longrightarrow> tail = [] \<or> mem \<Longrightarrow> tail_holds_record mem tail = 0"
  by (auto simp: tail_holds_record_def Let_def dropWhile_eq_Nil_conv)

lemma parse_body_None [simp]:
  "parse_body job_enabled mem h24 None durable n l rid aux expected a = Parse_Corrupt"
  by (simp add: parse_body_def)

lemma parse_record_zero_head:
  "bs \<noteq> [] \<Longrightarrow> bs ! 0 = 0 \<Longrightarrow> parse_record job_enabled mem bs = Parse_Corrupt"
  by (cases bs) (auto simp: parse_record_def Let_def read_all_def header_corrupt_def LOG_HEADER_def)

lemma scan_tail_header:
  assumes "record_op_known (bs ! 0) \<noteq> None" and "LOG_HEADER + n + l \<le> length bs"
    and "n = unat (get16 (drop 2 bs))" and "l = unat (get32 (drop 4 bs))"
    and "n \<noteq> 0" "n \<le> QUEUE_NAME_MAX" "l \<le> QUEUE_MESSAGE_MAX"
    and "crc32 (take 24 bs) (take n (drop LOG_HEADER bs)) (take l (drop (LOG_HEADER + n) bs)) =
         get32 (drop 24 bs)"
  shows "scan_tail bs"
proof (cases bs)
  case Nil
  with assms(2,5) show ?thesis by simp
next
  case (Cons b h)
  with assms show ?thesis by (simp add: Let_def)
qed

text \<open>A whole record anywhere behind the read position is seen by the scan.\<close>

lemma scan_tail_append: "scan_tail bs \<Longrightarrow> scan_tail (pre @ bs)"
proof (induction pre)
  case (Cons b pre)
  then have "scan_tail (pre @ bs)" by simp
  moreover from this have "LOG_HEADER \<le> length (pre @ bs)"
    by (cases "pre @ bs") (auto split: if_splits simp del: append_eq_Cons_conv)
  ultimately show ?case by (simp add: Let_def)
qed simp

lemma scan_tail_record:
  assumes v: "valid_record r"
  shows "scan_tail (encode_record r @ rest)"
proof -
  note b = valid_record_bounds [OF v]
  have e: "encode_record r @ rest = header_fields r @
    put32 (crc32 (header_fields r) (r_name r) (r_data r)) @ r_name r @ r_data r @ rest"
    by (simp add: encode_record_def log_header_def)
  note d = header_fields_decode [OF b(4,5), of "put32 (crc32 (header_fields r) (r_name r) (r_data r)) @
    r_name r @ r_data r @ rest", folded e]
  have parts: "take (length (r_name r)) (drop LOG_HEADER (encode_record r @ rest)) = r_name r"
    "take (length (r_data r)) (drop (LOG_HEADER + length (r_name r)) (encode_record r @ rest)) = r_data r"
    by (simp_all add: encode_record_def)
  show ?thesis
  proof (rule scan_tail_header [where n = "length (r_name r)" and l = "length (r_data r)"])
    show "crc32 (take 24 (encode_record r @ rest))
        (take (length (r_name r)) (drop LOG_HEADER (encode_record r @ rest)))
        (take (length (r_data r)) (drop (LOG_HEADER + length (r_name r)) (encode_record r @ rest))) =
      get32 (drop 24 (encode_record r @ rest))"
      unfolding parts d by (rule c32.dec_enc [symmetric]) simp
  qed (use b d in \<open>simp_all add: length_encode_record\<close>)
qed

lemma scan_tail_dropWhile: "scan_tail (dropWhile (\<lambda>b. b = 0) bs) \<longleftrightarrow> scan_tail bs"
proof (induction bs)
  case (Cons b bs)
  show ?case
  proof (cases "b = 0")
    case True
    have "length bs < LOG_HEADER \<Longrightarrow> \<not> scan_tail bs" by (cases bs) auto
    with True Cons show ?thesis by (auto simp: Let_def)
  qed simp
qed simp

lemma tail_holds_record_scan:
  "tail_holds_record True tail = (if scan_tail tail then 1 else 0)"
  using scan_tail_dropWhile [of tail]
  by (cases "dropWhile (\<lambda>b. b = 0) tail = []") (auto simp: tail_holds_record_def Let_def)

subsection \<open>Properties of the format\<close>

text \<open>
  C5: reading what was written gives the record back, and leaves exactly the bytes that
  follow it.\<close>
theorem record_roundtrip:
  assumes "valid_record r" and "job_record (r_op r) \<longrightarrow> job_enabled" and "r_data r = [] \<or> mem"
  shows "parse_record job_enabled mem (encode_record r @ rest) = Parsed r rest"
  by (rule parse_encode_record [OF assms])

theorem record_roundtrip_witness:
  "parse_record False True (encode_record \<lparr>r_op = LOG_PUBLISH, r_durable = True, r_name = [113], r_id = 7,
      r_aux = 0, r_data = [104, 105]\<rparr> @ [0, 0]) =
    Parsed \<lparr>r_op = LOG_PUBLISH, r_durable = True, r_name = [113], r_id = 7, r_aux = 0, r_data = [104, 105]\<rparr> [0, 0]"
  by (rule record_roundtrip)
    (simp_all add: valid_record_def header_corrupt_def QUEUE_NAME_MAX_def QUEUE_MESSAGE_MAX_def job_record_def)

text \<open>
  C6: the scan behind the last good record misses nothing.  When a whole valid record lies
  anywhere in the rest of the file, the scan reports it, so that the log is not cut off in
  front of it; a rest of zeros, as a space reservation leaves it, holds no record.\<close>
theorem tail_scan_complete:
  "(valid_record r \<longrightarrow> tail_holds_record True (pre @ encode_record r @ post) = 1) \<and>
   tail_holds_record True (replicate n 0) = 0"
proof (intro conjI impI)
  assume "valid_record r"
  then show "tail_holds_record True (pre @ encode_record r @ post) = 1"
    using scan_tail_append [OF scan_tail_record] by (simp add: tail_holds_record_scan)
qed (rule tail_zeros, simp_all)

theorem tail_scan_complete_witness:
  "valid_record \<lparr>r_op = LOG_ACK, r_durable = True, r_name = [113], r_id = 7, r_aux = 0, r_data = []\<rparr> \<and>
   tail_holds_record True ([0, 0, 5] @ encode_record \<lparr>r_op = LOG_ACK, r_durable = True, r_name = [113],
     r_id = 7, r_aux = 0, r_data = []\<rparr> @ [9]) = 1"
proof -
  have "valid_record \<lparr>r_op = LOG_ACK, r_durable = True, r_name = [113], r_id = 7, r_aux = 0, r_data = []\<rparr>"
    by (simp add: valid_record_def header_corrupt_def QUEUE_NAME_MAX_def QUEUE_MESSAGE_MAX_def job_record_def)
  then show ?thesis
    using tail_scan_complete [of "\<lparr>r_op = LOG_ACK, r_durable = True, r_name = [113], r_id = 7, r_aux = 0,
      r_data = []\<rparr>" "[0, 0, 5]" "[9]"] by blast
qed

end
