(* ===== verification/Queue_Wal.thy ===== *)
theory Queue_Wal
  imports Wal_Record
begin

text \<open>
  The write-ahead log of the queue store (\<open>queue.c\<close>: \<open>pwrite_all\<close>, \<open>wal_reserve_locked\<close>,
  \<open>wal_flush_locked\<close>, \<open>wal_stage_locked\<close>, \<open>append_record_ex\<close>, \<open>append_batch_records\<close>,
  \<open>sync_log\<close>, \<open>q_wait_durable_locked\<close>).  The record \<open>wal\<close> holds the log fields of
  \<open>QueueStore\<close> and the file they write to.

  The operating system is a parameter: \<open>w_env\<close> answers every allocation, write,
  reservation and barrier, and \<open>w_calls\<close> counts the questions so that every answer can be
  different.  \<open>w_file\<close> is the content of the log file, \<open>w_disk\<close> the part of it a completed
  barrier has made durable.  \<open>fsync\<close> makes the whole file durable; \<open>fdatasync\<close> is taken at its
  weakest, as a barrier for the bytes inside the size that is already durable, which is
  the reason the code keeps \<open>wal_size_synced\<close>.

  The operations run under \<open>wal_lock\<close> and are state transformers here; what other threads
  do while the lock is released is the subject of \<open>Wal_Group_Commit\<close>.  The invariant
  \<open>wal_ok\<close> and the predicate \<open>durable\<close> carry the lemmas: the log only grows, by whole
  records and in order; a failed write latches; and once an acknowledgement point
  (\<open>sync_log\<close>, the durability wait, or a record appended with its own barrier) has
  succeeded, every byte logged so far is on the disk and stays there.
\<close>

subsection \<open>The file and the kernel\<close>

datatype io = Io_Eintr | Io_Error | Io_Wrote nat

definition file_write :: "bytes \<Rightarrow> nat \<Rightarrow> bytes \<Rightarrow> bytes" where
  "file_write file off data =
     (let f = file @ replicate (off - length file) 0
      in take off f @ data @ drop (off + length data) f)"

text \<open>
  \<open>pwrite_all\<close> with the kernel's answers to its \<open>pwrite\<close> calls as a list; once the list is
  used up, the next call writes everything that is left.
\<close>

fun pwrite_all :: "io list \<Rightarrow> bytes \<Rightarrow> bytes \<Rightarrow> nat \<Rightarrow> int \<times> bytes" where
  "pwrite_all rs file [] off = (0, file)"
| "pwrite_all [] file (b # p) off = (0, file_write file off (b # p))"
| "pwrite_all (Io_Eintr # rs) file (b # p) off = pwrite_all rs file (b # p) off"
| "pwrite_all (Io_Error # rs) file (b # p) off = (-1, file)"
| "pwrite_all (Io_Wrote n # rs) file (b # p) off =
     (if n = 0 then (-1, file)
      else pwrite_all rs (file_write file off (take n (b # p))) (drop n (b # p))
             (off + min n (length (b # p))))"

record wal_env =
  env_malloc :: "nat \<Rightarrow> bool"
  env_pwrite :: "nat \<Rightarrow> io list"
  env_fallocate :: "nat \<Rightarrow> bool"
  env_sync :: "nat \<Rightarrow> bool"

record wal =
  w_fd :: bool
  w_file :: bytes
  w_disk :: bytes
  w_buf_alloc :: bool
  w_buf :: bytes
  w_off :: nat
  w_alloc_end :: nat
  w_size_synced :: bool
  w_seq :: nat
  w_synced :: nat
  w_syncer :: bool
  w_failed :: bool
  w_env :: wal_env
  w_calls :: nat

definition QUEUE_WAL_PREALLOC :: nat where "QUEUE_WAL_PREALLOC = 8 * 2 ^ 20"
definition WAL_BUF_CAP :: nat where "WAL_BUF_CAP = 256 * 1024"

subsection \<open>Reserving, flushing and staging\<close>

definition wal_reserve_locked :: "wal \<Rightarrow> nat \<Rightarrow> wal" where
  "wal_reserve_locked w need =
     (if w_off w + need \<le> w_alloc_end w then w
      else
        let want = w_off w + need + QUEUE_WAL_PREALLOC
        in if env_fallocate (w_env w) (w_calls w)
           then w\<lparr>w_file := w_file w @ replicate (want - length (w_file w)) 0,
                  w_alloc_end := want, w_size_synced := False, w_calls := Suc (w_calls w)\<rparr>
           else w\<lparr>w_alloc_end := 0, w_calls := Suc (w_calls w)\<rparr>)"

definition wal_pwrite :: "wal \<Rightarrow> bytes \<Rightarrow> nat \<Rightarrow> int \<times> wal" where
  "wal_pwrite w data off =
     (case pwrite_all (env_pwrite (w_env w) (w_calls w)) (w_file w) data off of
        (rc, file) \<Rightarrow> (rc, w\<lparr>w_file := file, w_calls := Suc (w_calls w)\<rparr>))"

definition wal_sync_datasync_locked :: "wal \<Rightarrow> bool" where
  "wal_sync_datasync_locked w \<longleftrightarrow> w_alloc_end w \<noteq> 0 \<and> w_size_synced w"

definition wal_sync_run :: "wal \<Rightarrow> bool \<Rightarrow> int \<times> wal" where
  "wal_sync_run w datasync =
     (if env_sync (w_env w) (w_calls w)
      then (0, w\<lparr>w_disk := (if datasync then take (length (w_disk w)) (w_file w) else w_file w),
                 w_calls := Suc (w_calls w)\<rparr>)
      else (-1, w\<lparr>w_calls := Suc (w_calls w)\<rparr>))"

definition wal_sync_done_locked :: "wal \<Rightarrow> wal" where
  "wal_sync_done_locked w = w\<lparr>w_size_synced := True\<rparr>"

definition wal_flush_locked :: "wal \<Rightarrow> int \<times> wal" where
  "wal_flush_locked w =
     (if w_buf w = [] then (0, w)
      else
        let w1 = wal_reserve_locked w (length (w_buf w))
        in case wal_pwrite w1 (w_buf w1) (w_off w1) of (rc, w2) \<Rightarrow>
          if rc < 0 then (-1, w2\<lparr>w_failed := True\<rparr>)
          else (0, w2\<lparr>w_off := w_off w2 + length (w_buf w2), w_buf := []\<rparr>))"

definition wal_buf_cap :: "wal \<Rightarrow> nat" where
  "wal_buf_cap w = (if w_buf_alloc w then WAL_BUF_CAP else 0)"

text \<open>The allocation of the staging buffer on the first record that fits it.\<close>

definition wal_buf_get :: "wal \<Rightarrow> nat \<Rightarrow> wal" where
  "wal_buf_get w nbytes =
     (if \<not> w_buf_alloc w \<and> nbytes \<le> WAL_BUF_CAP
      then w\<lparr>w_buf_alloc := env_malloc (w_env w) (w_calls w), w_calls := Suc (w_calls w)\<rparr>
      else w)"

text \<open>The three direct writes of a record that is not staged, each only after the one before.\<close>

definition wal_write_direct :: "wal \<Rightarrow> bytes \<Rightarrow> bytes \<Rightarrow> bytes \<Rightarrow> int \<times> wal" where
  "wal_write_direct w header name data =
     (let at = w_off w in
      case wal_pwrite w header at of (rc1, w1) \<Rightarrow>
        if rc1 < 0 then (-1, w1)
        else case (if name \<noteq> [] then wal_pwrite w1 name (at + length header) else (0, w1)) of (rc2, w2) \<Rightarrow>
          if rc2 < 0 then (-1, w2)
          else case (if data \<noteq> [] then wal_pwrite w2 data (at + length header + length name)
                     else (0, w2)) of (rc3, w3) \<Rightarrow>
            if rc3 < 0 then (-1, w3)
            else (0, w3\<lparr>w_off := at + (length header + length name + length data)\<rparr>))"

definition wal_stage_locked :: "wal \<Rightarrow> bytes \<Rightarrow> bytes \<Rightarrow> bytes \<Rightarrow> int \<times> wal" where
  "wal_stage_locked w header name data =
     (let nbytes = length header + length name + length data;
          w0 = wal_buf_get w nbytes
      in if \<not> w_buf_alloc w0 \<or> nbytes > wal_buf_cap w0
         then (case wal_flush_locked w0 of (rc, w1) \<Rightarrow>
            if rc < 0 then (-1, w1)
            else wal_write_direct (wal_reserve_locked w1 nbytes) header name data)
         else
           case (if length (w_buf w0) + nbytes > wal_buf_cap w0 then wal_flush_locked w0
                 else (0, w0)) of (rc, w1) \<Rightarrow>
             if rc < 0 then (-1, w1)
             else (0, w1\<lparr>w_buf := w_buf w1 @ header @ name @ data\<rparr>))"

subsection \<open>Appending records\<close>

definition wal_set_failed :: "wal \<Rightarrow> wal" where
  "wal_set_failed w = w\<lparr>w_failed := True\<rparr>"

text \<open>Flush, then barrier: as the acknowledgement points under the lock do.\<close>

definition flush_sync :: "wal \<Rightarrow> int \<times> wal" where
  "flush_sync w =
     (case wal_flush_locked w of (rc, w1) \<Rightarrow>
        if rc < 0 then (rc, w1) else wal_sync_run w1 (wal_sync_datasync_locked w1))"

definition append_record_ex :: "wal \<Rightarrow> log_record \<Rightarrow> bool \<Rightarrow> bool \<Rightarrow> int \<times> wal" where
  "append_record_ex w r do_fsync defer_write =
     (if \<not> r_durable r then (0, w)
      else if \<not> w_fd w \<or> w_failed w then (-1, w)
      else
        case wal_stage_locked w (log_header r) (r_name r) (r_data r) of (rc0, w0) \<Rightarrow>
        case (if rc0 < 0 \<or> defer_write then (rc0, w0) else wal_flush_locked w0) of (rc1, w1) \<Rightarrow>
        if rc1 < 0 then (-1, wal_set_failed w1)
        else
          case (if do_fsync then flush_sync w1 else (0, w1)) of (rc2, w2) \<Rightarrow>
          if rc2 < 0 then (-1, wal_set_failed w2)
          else
            let w3 = w2\<lparr>w_seq := Suc (w_seq w2)\<rparr>
            in (0, if do_fsync then (wal_sync_done_locked w3)\<lparr>w_synced := w_seq w3\<rparr> else w3))"

definition append_record :: "wal \<Rightarrow> log_record \<Rightarrow> bool \<Rightarrow> int \<times> wal" where
  "append_record w r do_fsync = append_record_ex w r do_fsync False"

record batch_record =
  b_op :: log_op
  b_id :: u64
  b_aux :: u64
  b_data :: bytes

definition batch_log :: "bytes \<Rightarrow> batch_record \<Rightarrow> log_record" where
  "batch_log name b = \<lparr>r_op = b_op b, r_durable = True, r_name = name, r_id = b_id b,
                       r_aux = b_aux b, r_data = b_data b\<rparr>"

fun batch_stage :: "wal \<Rightarrow> bytes \<Rightarrow> batch_record list \<Rightarrow> bool \<times> wal" where
  "batch_stage w name [] = (False, w)"
| "batch_stage w name (b # records) =
     (let r = batch_log name b in
      case wal_stage_locked w (log_header r) name (b_data b) of (rc, w1) \<Rightarrow>
        if rc < 0 then (True, w1)
        else batch_stage (w1\<lparr>w_seq := Suc (w_seq w1)\<rparr>) name records)"

definition append_batch_records :: "wal \<Rightarrow> bytes \<Rightarrow> batch_record list \<Rightarrow> int \<times> wal" where
  "append_batch_records w name records =
     (if records = [] then (0, w)
      else if \<not> w_fd w \<or> w_failed w then (-1, w)
      else
        let staged_at = length (w_buf w); wrote_at = w_off w; seq_at = w_seq w
        in case batch_stage w name records of (failed0, w1) \<Rightarrow>
           case (if failed0 then (-1, w1) else wal_flush_locked w1) of (rc, w2) \<Rightarrow>
           if rc < 0
           then (-1, wal_set_failed
                  (if w_off w2 = wrote_at
                   then w2\<lparr>w_buf := take staged_at (w_buf w2), w_seq := seq_at\<rparr> else w2))
           else (0, w2))"

subsection \<open>Durability\<close>

definition sync_log :: "wal \<Rightarrow> int \<times> wal" where
  "sync_log w =
     (if \<not> w_fd w then (-1, w)
      else
        let target = w_seq w; is_done = (w_synced w \<ge> target)
        in case (if is_done then (0, w) else wal_flush_locked w) of (flushed, w1) \<Rightarrow>
           let datasync = wal_sync_datasync_locked w1
           in if is_done then (0, w1)
              else if flushed < 0 then (-1, w1)
              else case wal_sync_run w1 datasync of (rc, w2) \<Rightarrow>
                if rc \<noteq> 0 then (-1, wal_set_failed w2)
                else
                  let w3 = wal_sync_done_locked w2
                  in (0, if target > w_synced w3 then w3\<lparr>w_synced := target\<rparr> else w3))"

text \<open>
  One turn of the loop of \<open>q_wait_durable_locked\<close>: return, wait on the condition variable for
  the thread that is syncing, or go round again.  The turn is seen from one thread: nobody
  else runs while the lock is released.
\<close>

datatype wait_turn = Wait_Return int wal | Wait_Blocked | Wait_Again wal

definition q_wait_round :: "wal \<Rightarrow> wait_turn" where
  "q_wait_round w =
     (let ws = w\<lparr>w_syncer := True\<rparr>; covered = w_seq ws
      in case wal_flush_locked ws of (rc, w1) \<Rightarrow>
           if rc < 0 then Wait_Return (-1) (w1\<lparr>w_syncer := False\<rparr>)
           else case wal_sync_run w1 (wal_sync_datasync_locked w1) of (rc2, w2) \<Rightarrow>
             let w3 = (if rc2 = 0 then wal_sync_done_locked w2 else w2)\<lparr>w_syncer := False\<rparr>
             in if rc2 \<noteq> 0 then Wait_Return (-1) (wal_set_failed w3)
                else Wait_Again (if covered > w_synced w3 then w3\<lparr>w_synced := covered\<rparr> else w3))"

definition q_wait_turn :: "wal \<Rightarrow> nat \<Rightarrow> wait_turn" where
  "q_wait_turn w target =
     (if w_failed w then Wait_Return (-1) w
      else if w_synced w \<ge> target then Wait_Return 0 w
      else if w_syncer w then Wait_Blocked
      else if w_seq w = target \<and> w_synced w = target - 1
      then (case flush_sync w of (rc, w1) \<Rightarrow>
              if rc < 0 then Wait_Return (-1) (wal_set_failed w1)
              else Wait_Return 0 ((wal_sync_done_locked w1)\<lparr>w_synced := target\<rparr>))
      else q_wait_round w)"

fun q_wait_loop :: "nat \<Rightarrow> wal \<Rightarrow> nat \<Rightarrow> (int \<times> wal) option" where
  "q_wait_loop 0 w target = None"
| "q_wait_loop (Suc fuel) w target =
     (case q_wait_turn w target of
        Wait_Return rc w' \<Rightarrow> Some (rc, w')
      | Wait_Blocked \<Rightarrow> None
      | Wait_Again w' \<Rightarrow> q_wait_loop fuel w' target)"

text \<open>
  Two turns are enough whenever no other thread is syncing and the target has been
  logged (\<open>q_wait_returns\<close> below), which holds at every call: the callers pass the current
  sequence number.
\<close>

definition q_wait_durable_locked :: "wal \<Rightarrow> nat \<Rightarrow> int \<times> wal" where
  "q_wait_durable_locked w target =
     (case q_wait_loop 2 w target of Some r \<Rightarrow> r | None \<Rightarrow> (-1, w))"

subsection \<open>Writing to the file\<close>

lemma length_file_write: "length (file_write file off data) = max (length file) (off + length data)"
  by (auto simp: file_write_def Let_def max_def min_def)

lemma take_file_write: "n \<le> off \<Longrightarrow> off \<le> length file \<Longrightarrow> take n (file_write file off data) = take n file"
  by (simp add: file_write_def Let_def)

lemma take_file_write_end:
  "off \<le> length file \<Longrightarrow> take (off + length data) (file_write file off data) = take off file @ data"
  by (simp add: file_write_def Let_def)

lemma file_write_file_write:
  assumes "off \<le> length file"
  shows "file_write (file_write file off a) (off + length a) b = file_write file off (a @ b)"
proof -
  have "off + length a \<le> length (file_write file off a)" by (simp add: length_file_write)
  with assms show ?thesis by (simp add: file_write_def Let_def ac_simps)
qed

lemma file_write_Nil: "off \<le> length file \<Longrightarrow> file_write file off [] = file"
  by (simp add: file_write_def)

lemma pwrite_all_result:
  assumes "pwrite_all rs file data off = (rc, file')" and "off \<le> length file"
  shows "rc = 0 \<and> file' = file_write file off data \<or>
    rc = -1 \<and> (\<exists>k \<le> length data. file' = file_write file off (take k data))"
  using assms
proof (induction rs "file" data off rule: pwrite_all.induct)
  case (5 n rs "file" b p off)
  let ?d = "b # p"
  let ?m = "min n (length ?d)"
  have len: "length (take n ?d) = ?m" by simp
  show ?case
  proof (cases "n = 0")
    case False
    have le: "off + ?m \<le> length (file_write file off (take n ?d))"
      by (simp add: length_file_write)
    have rec: "pwrite_all rs (file_write file off (take n ?d)) (drop n ?d) (off + ?m) = (rc, file')"
      using 5(2) False by simp
    note ww = file_write_file_write [OF 5(3), of "take n ?d", unfolded len]
    from 5(1) [OF False rec le] show ?thesis
    proof
      assume "rc = 0 \<and> file' = file_write (file_write file off (take n ?d)) (off + ?m) (drop n ?d)"
      then show ?thesis by (simp only: ww append_take_drop_id simp_thms)
    next
      assume "rc = -1 \<and> (\<exists>k \<le> length (drop n ?d).
        file' = file_write (file_write file off (take n ?d)) (off + ?m) (take k (drop n ?d)))"
      then obtain k where "rc = -1" and
        "file' = file_write (file_write file off (take n ?d)) (off + ?m) (take k (drop n ?d))" by blast
      then have "file' = file_write file off (take n ?d @ take k (drop n ?d))" by (simp only: ww)
      then have f: "file' = file_write file off (take (n + k) ?d)" by (simp only: take_add)
      show ?thesis
      proof (cases "n + k \<le> length ?d")
        case True
        with f \<open>rc = -1\<close> show ?thesis by blast
      next
        case False
        then have "take (n + k) ?d = take (length ?d) ?d" by simp
        with f have "file' = file_write file off (take (length ?d) ?d)" by (simp only:)
        with \<open>rc = -1\<close> show ?thesis by blast
      qed
    qed
  qed (use 5 in \<open>auto simp: file_write_Nil intro: exI [of _ 0]\<close>)
qed (auto simp: file_write_Nil intro: exI [of _ 0])

subsection \<open>The shape of the log\<close>

definition wal_bytes :: "wal \<Rightarrow> bytes" where
  "wal_bytes w = take (w_off w) (w_file w) @ w_buf w"

definition wal_wf :: "wal \<Rightarrow> bool" where
  "wal_wf w \<longleftrightarrow>
     w_off w \<le> length (w_file w) \<and> w_alloc_end w \<le> length (w_file w) \<and>
     length (w_buf w) \<le> wal_buf_cap w \<and> w_synced w \<le> w_seq w \<and>
     length (w_disk w) \<le> length (w_file w) \<and>
     (w_alloc_end w \<noteq> 0 \<and> w_size_synced w \<longrightarrow> length (w_disk w) = length (w_file w))"

definition durable :: "wal \<Rightarrow> bytes \<Rightarrow> bool" where
  "durable w b \<longleftrightarrow> length b \<le> w_off w \<and> prefix b (wal_bytes w) \<and> prefix b (w_disk w)"

text \<open>
  What the steps below the level of an operation leave alone; \<open>wal_frame\<close> compares the
  state before and after.
\<close>

definition wal_frame :: "wal \<Rightarrow> wal \<Rightarrow> bool" where
  "wal_frame w w' \<longleftrightarrow>
     w_fd w' = w_fd w \<and> w_disk w' = w_disk w \<and> w_seq w' = w_seq w \<and> w_synced w' = w_synced w \<and>
     w_syncer w' = w_syncer w \<and> w_env w' = w_env w \<and> (w_failed w \<longrightarrow> w_failed w')"

lemma wal_frame_refl [simp]: "wal_frame w w"
  by (simp add: wal_frame_def)

lemma wal_frame_trans [trans]: "wal_frame w w' \<Longrightarrow> wal_frame w' w'' \<Longrightarrow> wal_frame w w''"
  by (simp add: wal_frame_def)

lemma wal_reserve:
  assumes "wal_wf w" and w': "w' = wal_reserve_locked w need"
  shows "wal_wf w'" "wal_frame w w'" "wal_bytes w' = wal_bytes w"
    "w_buf w' = w_buf w" "w_off w' = w_off w" "w_failed w' = w_failed w"
    "w_buf_alloc w' = w_buf_alloc w" "w_alloc_end w' \<noteq> 0 \<Longrightarrow> w_off w + need \<le> w_alloc_end w'"
  using assms
  by (auto simp: wal_reserve_locked_def wal_wf_def wal_frame_def wal_bytes_def Let_def
      wal_buf_cap_def)

lemma wal_pwrite:
  assumes "wal_wf w" and "wal_pwrite w data off = (rc, w')" and "w_off w \<le> off"
    and "off \<le> length (w_file w)"
    and "w_alloc_end w \<noteq> 0 \<longrightarrow> off + length data \<le> w_alloc_end w"
  shows "wal_wf w'" "wal_frame w w'" "wal_bytes w' = wal_bytes w" "w_buf w' = w_buf w"
    "w_off w' = w_off w" "w_failed w' = w_failed w" "w_buf_alloc w' = w_buf_alloc w"
    "w_alloc_end w' = w_alloc_end w" "rc = 0 \<or> rc = -1"
    "rc = 0 \<Longrightarrow> w_file w' = file_write (w_file w) off data"
proof -
  obtain f where f: "pwrite_all (env_pwrite (w_env w) (w_calls w)) (w_file w) data off = (rc, f)"
    and w': "w' = w\<lparr>w_file := f, w_calls := Suc (w_calls w)\<rparr>"
    using assms(2) by (auto simp: wal_pwrite_def split: prod.splits)
  note r = pwrite_all_result [OF f assms(4)]
  obtain d where d: "f = file_write (w_file w) off d" and ld: "length d \<le> length data"
    using r by (force simp: min_def)
  have lf: "length (w_file w) \<le> length f" by (simp add: d length_file_write)
  have same: "w_alloc_end w \<noteq> 0 \<Longrightarrow> length f = length (w_file w)"
    using assms(1,5) ld by (simp add: d length_file_write wal_wf_def)
  have tk: "take (w_off w) f = take (w_off w) (w_file w)"
    using assms(3,4) by (simp add: d take_file_write)
  show "wal_wf w'" using assms(1) lf same by (auto simp: wal_wf_def w' wal_buf_cap_def)
  show "wal_bytes w' = wal_bytes w" using tk by (simp add: wal_bytes_def w')
  show "rc = 0 \<or> rc = -1" "rc = 0 \<Longrightarrow> w_file w' = file_write (w_file w) off data"
    using r by (auto simp: w')
qed (simp_all add: wal_pwrite_def wal_frame_def split: prod.splits,
     use assms(2) in \<open>auto simp: wal_pwrite_def wal_frame_def split: prod.splits\<close>)

lemma wal_flush:
  assumes "wal_wf w" and "wal_flush_locked w = (rc, w')"
  shows "wal_wf w'" "wal_frame w w'" "wal_bytes w' = wal_bytes w" "rc = 0 \<or> rc = -1"
    "rc = 0 \<Longrightarrow> w_buf w' = [] \<and> w_failed w' = w_failed w"
    "rc = -1 \<Longrightarrow> w_failed w' \<and> w_off w' = w_off w \<and> w_buf w' = w_buf w"
    "w_buf_alloc w' = w_buf_alloc w" "w_off w \<le> w_off w'"
proof -
  have "wal_wf w' \<and> wal_frame w w' \<and> wal_bytes w' = wal_bytes w \<and> (rc = 0 \<or> rc = -1) \<and>
    (rc = 0 \<longrightarrow> w_buf w' = [] \<and> w_failed w' = w_failed w) \<and>
    (rc = -1 \<longrightarrow> w_failed w' \<and> w_off w' = w_off w \<and> w_buf w' = w_buf w) \<and>
    w_buf_alloc w' = w_buf_alloc w \<and> w_off w \<le> w_off w'"
  proof (cases "w_buf w = []")
    case True
    with assms show ?thesis by (simp add: wal_flush_locked_def)
  next
    case False
    let ?w1 = "wal_reserve_locked w (length (w_buf w))"
    note r = wal_reserve [OF assms(1), of ?w1 "length (w_buf w)", OF refl]
    obtain rc1 w2 where p: "wal_pwrite ?w1 (w_buf ?w1) (w_off ?w1) = (rc1, w2)" by fastforce
    have le: "w_off ?w1 \<le> length (w_file ?w1)" using r(1) by (simp add: wal_wf_def)
    have ae: "w_alloc_end ?w1 \<noteq> 0 \<longrightarrow> w_off ?w1 + length (w_buf ?w1) \<le> w_alloc_end ?w1"
      using r(4,5,8) by simp
    note q = wal_pwrite [OF r(1) p order_refl le ae]
    show ?thesis
    proof (cases "rc1 < 0")
      case True
      then have "rc = -1" "w' = w2\<lparr>w_failed := True\<rparr>"
        using assms(2) False p by (simp_all add: wal_flush_locked_def Let_def)
      then show ?thesis
        using q r by (simp add: wal_wf_def wal_frame_def wal_bytes_def wal_buf_cap_def)
    next
      case nonneg: False
      then have rc1: "rc1 = 0" using q(9) by auto
      have rc: "rc = 0" and w': "w' = w2\<lparr>w_off := w_off w2 + length (w_buf w2), w_buf := []\<rparr>"
        using assms(2) False p nonneg by (simp_all add: wal_flush_locked_def Let_def)
      note fl = q(10) [OF rc1]
      have b: "take (w_off w2 + length (w_buf w2)) (w_file w2) = take (w_off w) (w_file ?w1) @ w_buf w"
        using take_file_write_end [OF le, of "w_buf ?w1"] by (simp add: fl q(4,5) r(4,5))
      have "w_off w2 + length (w_buf w2) \<le> length (w_file w2)"
        by (simp add: fl length_file_write q(4,5))
      moreover have "wal_bytes w' = wal_bytes w"
        using r(3) by (simp add: w' wal_bytes_def b r(4,5))
      ultimately show ?thesis
        using q r rc by (simp add: w' wal_wf_def wal_frame_def wal_buf_cap_def)
    qed
  qed
  then show "wal_wf w'" "wal_frame w w'" "wal_bytes w' = wal_bytes w" "rc = 0 \<or> rc = -1"
    "rc = 0 \<Longrightarrow> w_buf w' = [] \<and> w_failed w' = w_failed w"
    "rc = -1 \<Longrightarrow> w_failed w' \<and> w_off w' = w_off w \<and> w_buf w' = w_buf w"
    "w_buf_alloc w' = w_buf_alloc w" "w_off w \<le> w_off w'"
    by auto
qed

text \<open>A sequence of writes that fill one span beyond the log, as \<open>wal_write_direct\<close> makes them.\<close>

definition span_written :: "wal \<Rightarrow> wal \<Rightarrow> bytes \<Rightarrow> bool" where
  "span_written w w' b \<longleftrightarrow>
     wal_wf w' \<and> wal_frame w w' \<and> wal_bytes w' = wal_bytes w \<and> w_buf w' = w_buf w \<and>
     w_off w' = w_off w \<and> w_failed w' = w_failed w \<and> w_buf_alloc w' = w_buf_alloc w \<and>
     w_alloc_end w' = w_alloc_end w \<and> w_file w' = file_write (w_file w) (w_off w) b"

lemma span_written_Nil: "wal_wf w \<Longrightarrow> span_written w w []"
  by (simp add: span_written_def file_write_Nil wal_wf_def)

lemma span_written_step:
  assumes "wal_wf w" and s: "span_written w w1 b"
    and p: "wal_pwrite w1 data (w_off w + length b) = (rc, w2)"
    and ae: "w_alloc_end w \<noteq> 0 \<longrightarrow> w_off w + length b + length data \<le> w_alloc_end w"
  shows "rc = 0 \<and> span_written w w2 (b @ data) \<or>
    rc = -1 \<and> wal_wf w2 \<and> wal_frame w w2 \<and> wal_bytes w2 = wal_bytes w \<and> w_off w2 = w_off w"
proof -
  have wf1: "wal_wf w1" using s by (simp add: span_written_def)
  have le0: "w_off w \<le> length (w_file w)" using assms(1) by (simp add: wal_wf_def)
  have le: "w_off w1 \<le> w_off w + length b" "w_off w + length b \<le> length (w_file w1)"
    using s by (simp_all add: span_written_def length_file_write)
  have ae1: "w_alloc_end w1 \<noteq> 0 \<longrightarrow> w_off w + length b + length data \<le> w_alloc_end w1"
    using s ae by (simp add: span_written_def)
  note q = wal_pwrite [OF wf1 p le ae1]
  have "rc = 0 \<Longrightarrow> w_file w2 = file_write (w_file w) (w_off w) (b @ data)"
    using q(10) s file_write_file_write [OF le0, of b data] by (simp add: span_written_def)
  then show ?thesis
    using q s by (auto simp: span_written_def intro: wal_frame_trans)
qed

lemma wal_write_direct:
  assumes "wal_wf w" and "w_buf w = []" and d: "wal_write_direct w header name data = (rc, w')"
    and ae: "w_alloc_end w \<noteq> 0 \<longrightarrow>
          w_off w + (length header + length name + length data) \<le> w_alloc_end w"
  shows "rc = 0 \<and> wal_wf w' \<and> wal_frame w w' \<and> w_failed w' = w_failed w \<and> w_off w \<le> w_off w' \<and>
      wal_bytes w' = wal_bytes w @ header @ name @ data \<or>
    rc = -1 \<and> wal_wf w' \<and> wal_frame w w' \<and> wal_bytes w' = wal_bytes w \<and> w_off w' = w_off w"
    (is "?ok \<or> ?fail")
proof -
  obtain rc1 w1 where p1: "wal_pwrite w header (w_off w + length ([] :: bytes)) = (rc1, w1)" by fastforce
  from span_written_step [OF assms(1) span_written_Nil [OF assms(1)] p1] ae
  consider (f1) "rc1 = -1" "wal_wf w1" "wal_frame w w1" "wal_bytes w1 = wal_bytes w" "w_off w1 = w_off w"
    | (s1) "rc1 = 0" "span_written w w1 header" by auto
  then show ?thesis
  proof cases
    case f1
    with d p1 show ?thesis by (simp add: wal_write_direct_def)
  next
    case s1
    obtain rc2 w2 where p2: "(if name \<noteq> [] then wal_pwrite w1 name (w_off w + length header)
        else (0, w1)) = (rc2, w2)" by (meson surj_pair)
    have "rc2 = -1 \<and> wal_wf w2 \<and> wal_frame w w2 \<and> wal_bytes w2 = wal_bytes w \<and> w_off w2 = w_off w \<or>
      rc2 = 0 \<and> span_written w w2 (header @ name)"
      using span_written_step [OF assms(1) s1(2), of name rc2 w2] p2 ae s1(2)
      by (cases "name = []") auto
    then consider (f2) "rc2 = -1" "wal_wf w2" "wal_frame w w2" "wal_bytes w2 = wal_bytes w" "w_off w2 = w_off w"
      | (s2) "rc2 = 0" "span_written w w2 (header @ name)" by auto
    then show ?thesis
    proof cases
      case f2
      with d p1 p2 s1 show ?thesis by (simp add: wal_write_direct_def)
    next
      case s2
      obtain rc3 w3 where p3: "(if data \<noteq> [] then wal_pwrite w2 data (w_off w + length header + length name)
          else (0, w2)) = (rc3, w3)" by (meson surj_pair)
      have "rc3 = -1 \<and> wal_wf w3 \<and> wal_frame w w3 \<and> wal_bytes w3 = wal_bytes w \<and> w_off w3 = w_off w \<or>
        rc3 = 0 \<and> span_written w w3 (header @ name @ data)"
        using span_written_step [OF assms(1) s2(2), of data rc3 w3] p3 ae s2(2)
        by (cases "data = []") (auto simp: add.assoc)
      then consider (f3) "rc3 = -1" "wal_wf w3" "wal_frame w w3" "wal_bytes w3 = wal_bytes w" "w_off w3 = w_off w"
        | (s3) "rc3 = 0" "span_written w w3 (header @ name @ data)" by auto
      then show ?thesis
      proof cases
        case f3
        with d p1 p2 p3 s1 s2 show ?thesis by (simp add: wal_write_direct_def)
      next
        case s3
        let ?n = "length header + length name + length data"
        have w': "rc = 0" "w' = w3\<lparr>w_off := w_off w + ?n\<rparr>"
          using d p1 p2 p3 s1(1) s2(1) s3(1) by (simp_all add: wal_write_direct_def)
        have "w_off w \<le> length (w_file w)" using assms(1) by (simp add: wal_wf_def)
        from take_file_write_end [OF this, of "header @ name @ data"]
        have "take (w_off w + ?n) (w_file w3) = take (w_off w) (w_file w) @ header @ name @ data"
          using s3(2) by (simp add: span_written_def add.assoc)
        then have "wal_bytes w' = wal_bytes w @ header @ name @ data"
          using s3(2) assms(2) by (simp add: w'(2) span_written_def wal_bytes_def)
        moreover have wf3: "wal_wf w3" using s3(2) by (simp add: span_written_def)
        moreover have "w_off w + ?n \<le> length (w_file w3)"
          using s3(2) by (simp add: span_written_def length_file_write add.assoc)
        then have "wal_wf w'" using wf3 by (simp add: w'(2) wal_wf_def wal_buf_cap_def)
        moreover have "wal_frame w w'" "w_failed w' = w_failed w" "w_off w \<le> w_off w'"
          using s3(2) by (simp_all add: w'(2) span_written_def wal_frame_def)
        ultimately show ?thesis using w'(1) by blast
      qed
    qed
  qed
qed

lemma wal_buf_get:
  assumes "wal_wf w" and "w' = wal_buf_get w n"
  shows "wal_wf w'" "wal_frame w w'" "wal_bytes w' = wal_bytes w" "w_off w' = w_off w"
    "w_failed w' = w_failed w" "w_buf w' = w_buf w"
  using assms
  by (auto simp: wal_buf_get_def wal_wf_def wal_frame_def wal_bytes_def wal_buf_cap_def)

lemma wal_stage:
  assumes wfw: "wal_wf w" and st: "wal_stage_locked w header name data = (rc, w')"
  shows "wal_wf w'" "wal_frame w w'" "rc = 0 \<or> rc = -1" "w_off w \<le> w_off w'"
    "rc = 0 \<Longrightarrow> wal_bytes w' = wal_bytes w @ header @ name @ data \<and> w_failed w' = w_failed w"
    "rc = -1 \<Longrightarrow> wal_bytes w' = wal_bytes w"
proof -
  let ?n = "length header + length name + length data"
  let ?w0 = "wal_buf_get w ?n"
  note g = wal_buf_get [OF wfw, of ?w0 ?n, OF refl]
  have "wal_wf w' \<and> wal_frame w w' \<and> w_off w \<le> w_off w' \<and>
    (rc = 0 \<and> wal_bytes w' = wal_bytes w @ header @ name @ data \<and> w_failed w' = w_failed w \<or>
     rc = -1 \<and> wal_bytes w' = wal_bytes w)"
  proof (cases "\<not> w_buf_alloc ?w0 \<or> ?n > wal_buf_cap ?w0")
    case True
    obtain rc1 w1 where f: "wal_flush_locked ?w0 = (rc1, w1)" by fastforce
    note q = wal_flush [OF g(1) f]
    show ?thesis
    proof (cases "rc1 < 0")
      case True
      then have "rc = -1" "w' = w1"
        using st f \<open>\<not> w_buf_alloc ?w0 \<or> ?n > wal_buf_cap ?w0\<close> by (auto simp: wal_stage_locked_def Let_def)
      moreover have "wal_frame w w1" using g(2) q(2) by (rule wal_frame_trans)
      ultimately show ?thesis using q(1,3,8) g(3,4) by simp
    next
      case False
      let ?w2 = "wal_reserve_locked w1 ?n"
      note r = wal_reserve [OF q(1), of ?w2 ?n, OF refl]
      have d: "wal_write_direct ?w2 header name data = (rc, w')"
        using st f True False by (auto simp: wal_stage_locked_def Let_def)
      have buf: "w_buf ?w2 = []" using q(4,5) False r(4) by auto
      have ae: "w_alloc_end ?w2 \<noteq> 0 \<longrightarrow> w_off ?w2 + ?n \<le> w_alloc_end ?w2"
        using r(5,8) by simp
      have fr: "wal_frame w ?w2" using g(2) q(2) r(2) wal_frame_trans by blast
      have fl: "w_failed ?w2 = w_failed w" using r(6) q(4,5) g(5) False by auto
      have bb: "wal_bytes ?w2 = wal_bytes w" "w_off w \<le> w_off ?w2" using r(3,5) q(3,8) g(3,4) by simp_all
      from wal_write_direct [OF r(1) buf d ae] show ?thesis
        using wal_frame_trans [OF fr] by (elim disjE conjE) (simp_all add: fl bb order_trans [OF bb(2)])
    qed
  next
    case False
    obtain rc1 w1 where f: "(if length (w_buf ?w0) + ?n > wal_buf_cap ?w0 then wal_flush_locked ?w0
        else (0, ?w0)) = (rc1, w1)" by (meson surj_pair)
    have q: "wal_wf w1 \<and> wal_frame ?w0 w1 \<and> wal_bytes w1 = wal_bytes ?w0 \<and> w_off ?w0 \<le> w_off w1 \<and>
      w_buf_alloc w1 = w_buf_alloc ?w0 \<and>
      (rc1 = 0 \<and> length (w_buf w1) + ?n \<le> wal_buf_cap ?w0 \<and> w_failed w1 = w_failed ?w0 \<or> rc1 = -1)"
    proof (cases "length (w_buf ?w0) + ?n > wal_buf_cap ?w0")
      case True
      with f have "wal_flush_locked ?w0 = (rc1, w1)" by simp
      from wal_flush [OF g(1) this] False show ?thesis by auto
    next
      case False
      with f g show ?thesis by auto
    qed
    show ?thesis
    proof (cases "rc1 < 0")
      case True
      then have "rc = -1" "w' = w1" using st f False by (auto simp: wal_stage_locked_def Let_def)
      moreover have "wal_frame w w1" using g(2) q wal_frame_trans by blast
      ultimately show ?thesis using q g(3,4) by simp
    next
      case nonneg: False
      then have rc: "rc = 0" and w': "w' = w1\<lparr>w_buf := w_buf w1 @ header @ name @ data\<rparr>"
        using st f False by (auto simp: wal_stage_locked_def Let_def)
      have "wal_wf w'" using q nonneg False by (auto simp: w' wal_wf_def wal_buf_cap_def)
      moreover have "wal_frame w w'" using q g(2) by (auto simp: w' wal_frame_def)
      moreover have "w_failed w' = w_failed w" "w_off w \<le> w_off w'"
        using q g(4,5) nonneg by (auto simp: w')
      moreover have "wal_bytes w' = wal_bytes w @ header @ name @ data"
        using q g(3) by (simp add: w' wal_bytes_def)
      ultimately show ?thesis using rc by simp
    qed
  qed
  then show "wal_wf w'" "wal_frame w w'" "rc = 0 \<or> rc = -1" "w_off w \<le> w_off w'"
    "rc = 0 \<Longrightarrow> wal_bytes w' = wal_bytes w @ header @ name @ data \<and> w_failed w' = w_failed w"
    "rc = -1 \<Longrightarrow> wal_bytes w' = wal_bytes w"
    by auto
qed

lemma wal_bytes_same_off:
  assumes "wal_wf w" and "wal_wf w'" and "wal_bytes w' = wal_bytes w @ x" and "w_off w' = w_off w"
  shows "w_buf w' = w_buf w @ x"
  using assms by (simp add: wal_bytes_def wal_wf_def)

lemma durable_mono:
  "durable w b \<Longrightarrow> wal_bytes w' = wal_bytes w @ x \<Longrightarrow> w_disk w' = w_disk w \<Longrightarrow> w_off w \<le> w_off w' \<Longrightarrow>
   durable w' b"
  by (simp add: durable_def)

lemma wal_sync:
  assumes "wal_wf w" and "wal_sync_run w (wal_sync_datasync_locked w) = (rc, w')"
  shows "wal_wf w'" "wal_bytes w' = wal_bytes w" "rc = 0 \<or> rc = -1" "w_buf w' = w_buf w"
    "w_failed w' = w_failed w" "w_seq w' = w_seq w" "w_synced w' = w_synced w"
    "w_syncer w' = w_syncer w" "w_fd w' = w_fd w" "w_env w' = w_env w" "w_off w' = w_off w"
    "rc = -1 \<Longrightarrow> w_disk w' = w_disk w" "rc = 0 \<Longrightarrow> w_disk w' = w_file w'"
proof -
  obtain d where w': "w' = w\<lparr>w_disk := d, w_calls := Suc (w_calls w)\<rparr>"
    and d: "rc = 0 \<and> d = w_file w \<or> rc = -1 \<and> d = w_disk w"
    using assms by (cases "wal_sync_datasync_locked w")
      (auto simp: wal_sync_run_def wal_sync_datasync_locked_def wal_wf_def split: if_splits)
  show "wal_wf w'" using assms(1) d by (auto simp: w' wal_wf_def wal_buf_cap_def)
  show "wal_bytes w' = wal_bytes w" "rc = 0 \<or> rc = -1" "w_buf w' = w_buf w"
    "w_failed w' = w_failed w" "w_seq w' = w_seq w" "w_synced w' = w_synced w"
    "w_syncer w' = w_syncer w" "w_fd w' = w_fd w" "w_env w' = w_env w" "w_off w' = w_off w"
    "rc = -1 \<Longrightarrow> w_disk w' = w_disk w" "rc = 0 \<Longrightarrow> w_disk w' = w_file w'"
    using d by (auto simp: w' wal_bytes_def)
qed

text \<open>A flushed log whose barrier has just completed is on the disk.\<close>

lemma durable_all:
  "wal_wf w \<Longrightarrow> w_disk w = w_file w \<Longrightarrow> w_buf w = [] \<Longrightarrow> durable w (wal_bytes w)"
  by (simp add: durable_def wal_bytes_def take_is_prefix)

lemma durable_prefix: "durable w b \<Longrightarrow> prefix a b \<Longrightarrow> durable w a"
  by (auto simp: durable_def dest: prefix_length_le intro: prefix_order.trans)

subsection \<open>The operations\<close>

text \<open>
  The invariant of the log between operations.  Once a record has been logged, a synced
  mark equal to the sequence number means that the whole log is on the disk, unless a
  write or a barrier has failed.
\<close>

definition wal_ok :: "wal \<Rightarrow> bool" where
  "wal_ok w \<longleftrightarrow>
     wal_wf w \<and> (\<not> w_failed w \<and> 0 < w_seq w \<and> w_synced w = w_seq w \<longrightarrow> durable w (wal_bytes w))"

text \<open>
  The relation every operation satisfies: the log has grown by \<open>b\<close>, nothing that was durable
  is lost, the descriptor and the environment are the same, and a failure latches.
\<close>

definition wal_grows :: "wal \<Rightarrow> bytes \<Rightarrow> wal \<Rightarrow> bool" where
  "wal_grows w b w' \<longleftrightarrow>
     wal_ok w' \<and> wal_bytes w' = wal_bytes w @ b \<and> (\<forall>x. durable w x \<longrightarrow> durable w' x) \<and>
     w_fd w' = w_fd w \<and> w_env w' = w_env w \<and> w_syncer w' = w_syncer w \<and>
     (w_failed w \<longrightarrow> w_failed w') \<and> w_seq w \<le> w_seq w' \<and> w_off w \<le> w_off w'"

lemma wal_grows_refl [simp]: "wal_grows w [] w \<longleftrightarrow> wal_ok w"
  by (simp add: wal_grows_def)

lemma wal_grows_trans [trans]: "wal_grows w b w' \<Longrightarrow> wal_grows w' c w'' \<Longrightarrow> wal_grows w (b @ c) w''"
  by (simp add: wal_grows_def)

lemma wal_grows_ok: "wal_grows w b w' \<Longrightarrow> wal_ok w'"
  by (simp add: wal_grows_def)

lemma wal_grows_frame:
  assumes "wal_frame w w'" and "wal_wf w'" and "wal_bytes w' = wal_bytes w @ b" and "w_failed w'"
    and "w_off w \<le> w_off w'"
  shows "wal_grows w b w'"
  using assms by (auto simp: wal_grows_def wal_ok_def wal_frame_def durable_mono)

lemma wal_set_failed_simps [simp]:
  "wal_wf (wal_set_failed w) = wal_wf w" "wal_bytes (wal_set_failed w) = wal_bytes w"
  "durable (wal_set_failed w) b = durable w b" "w_failed (wal_set_failed w)"
  "w_fd (wal_set_failed w) = w_fd w" "w_seq (wal_set_failed w) = w_seq w"
  "w_env (wal_set_failed w) = w_env w" "w_syncer (wal_set_failed w) = w_syncer w"
  "w_synced (wal_set_failed w) = w_synced w" "w_disk (wal_set_failed w) = w_disk w"
  "w_off (wal_set_failed w) = w_off w"
  by (simp_all add: wal_set_failed_def wal_wf_def wal_bytes_def durable_def wal_buf_cap_def)

lemma wal_frame_set_failed: "wal_frame w w' \<Longrightarrow> wal_frame w (wal_set_failed w')"
  by (simp add: wal_frame_def)

lemma flush_sync:
  assumes "wal_wf w" and "flush_sync w = (rc, w')"
  shows "rc = 0 \<or> rc = -1" "wal_wf w'" "wal_bytes w' = wal_bytes w"
    "w_fd w' = w_fd w" "w_env w' = w_env w" "w_syncer w' = w_syncer w" "w_seq w' = w_seq w"
    "w_synced w' = w_synced w" "w_failed w \<Longrightarrow> w_failed w'"
    "durable w b \<Longrightarrow> durable w' b"
    "rc = 0 \<Longrightarrow> durable w' (wal_bytes w') \<and> w_failed w' = w_failed w \<and> w_disk w' = w_file w'"
    "w_off w \<le> w_off w'"
proof -
  obtain rc1 w1 where f: "wal_flush_locked w = (rc1, w1)" by fastforce
  note q = wal_flush [OF assms(1) f]
  have "(rc = 0 \<or> rc = -1) \<and> wal_wf w' \<and> wal_bytes w' = wal_bytes w \<and>
      w_fd w' = w_fd w \<and> w_env w' = w_env w \<and> w_syncer w' = w_syncer w \<and> w_seq w' = w_seq w \<and>
      w_synced w' = w_synced w \<and> (w_failed w \<longrightarrow> w_failed w') \<and> (\<forall>b. durable w b \<longrightarrow> durable w' b) \<and>
      (rc = 0 \<longrightarrow> durable w' (wal_bytes w') \<and> w_failed w' = w_failed w \<and> w_disk w' = w_file w') \<and>
      w_off w \<le> w_off w'"
  proof (cases "rc1 < 0")
    case True
    then have "rc = -1" "w' = w1" using assms(2) f q(4) by (auto simp: flush_sync_def)
    with q show ?thesis by (simp add: wal_frame_def durable_def)
  next
    case False
    then have s: "wal_sync_run w1 (wal_sync_datasync_locked w1) = (rc, w')" and rc1: "rc1 = 0"
      using assms(2) f q(4) by (auto simp: flush_sync_def)
    note y = wal_sync [OF q(1) s]
    have buf: "w_buf w' = []" "w_failed w1 = w_failed w" using y(4) q(5) [OF rc1] by simp_all
    have all: "rc = 0 \<Longrightarrow> durable w' (wal_bytes w')" by (rule durable_all [OF y(1) y(13) buf(1)])
    have "durable w' b" if d: "durable w b" for b
    proof (cases "rc = 0")
      case True
      have "prefix b (wal_bytes w')" using d y(2) q(3) by (simp add: durable_def)
      with all [OF True] show ?thesis by (rule durable_prefix)
    next
      case False
      then have "w_disk w' = w_disk w" using y(3,12) q(2) by (simp add: wal_frame_def)
      then show ?thesis using d y(2,11) q(3,8) by (simp add: durable_def)
    qed
    then show ?thesis using y q(2,3,8) buf all by (simp add: wal_frame_def)
  qed
  then show "rc = 0 \<or> rc = -1" "wal_wf w'" "wal_bytes w' = wal_bytes w"
    "w_fd w' = w_fd w" "w_env w' = w_env w" "w_syncer w' = w_syncer w" "w_seq w' = w_seq w"
    "w_synced w' = w_synced w" "w_failed w \<Longrightarrow> w_failed w'" "durable w b \<Longrightarrow> durable w' b"
    "rc = 0 \<Longrightarrow> durable w' (wal_bytes w') \<and> w_failed w' = w_failed w \<and> w_disk w' = w_file w'"
    "w_off w \<le> w_off w'"
    by auto
qed

lemma append_record_ex_cases:
  assumes ok: "wal_ok w" and ap: "append_record_ex w r do_fsync defer_write = (rc, w')"
    and dur: "r_durable r"
  shows "rc = 0 \<and> wal_grows w (encode_record r) w' \<and> \<not> w_failed w' \<and> w_fd w \<and>
      w_seq w' = Suc (w_seq w) \<and>
      (do_fsync \<longrightarrow> w_synced w' = w_seq w') \<or>
    rc = -1 \<and> (\<exists>b \<in> {[], encode_record r}. wal_grows w b w') \<and> (w_fd w \<longrightarrow> w_failed w')"
proof (cases "\<not> w_fd w \<or> w_failed w")
  case True
  with ap dur ok show ?thesis by (auto simp: append_record_ex_def)
next
  case False
  have wfw: "wal_wf w" using ok by (simp add: wal_ok_def)
  obtain rc0 w0 where s: "wal_stage_locked w (log_header r) (r_name r) (r_data r) = (rc0, w0)" by fastforce
  note st = wal_stage [OF wfw s]
  obtain rc1 w1 where f: "(if rc0 < 0 \<or> defer_write then (rc0, w0) else wal_flush_locked w0) = (rc1, w1)"
    by (meson surj_pair)
  have st1: "wal_wf w1 \<and> wal_frame w w1 \<and> w_off w \<le> w_off w1 \<and>
    (rc1 = 0 \<and> wal_bytes w1 = wal_bytes w @ encode_record r \<and> w_failed w1 = w_failed w \<or>
     rc1 = -1 \<and> (\<exists>b \<in> {[], encode_record r}. wal_bytes w1 = wal_bytes w @ b))"
  proof (cases "rc0 < 0 \<or> defer_write")
    case True
    with f st show ?thesis by (auto simp: encode_record_def)
  next
    case nd: False
    with f have fl: "wal_flush_locked w0 = (rc1, w1)" and rc0: "rc0 = 0" using st(3) by auto
    note q = wal_flush [OF st(1) fl]
    have "wal_bytes w1 = wal_bytes w @ encode_record r" using q(3) st(5) [OF rc0] by (simp add: encode_record_def)
    then show ?thesis using q(1,4,5,8) st(4) st(5) [OF rc0] wal_frame_trans [OF st(2) q(2)] by auto
  qed
  show ?thesis
  proof (cases "rc1 < 0")
    case True
    then have "rc = -1" "w' = wal_set_failed w1" using ap dur False s f by (auto simp: append_record_ex_def)
    with st1 True show ?thesis by (auto intro!: wal_grows_frame wal_frame_set_failed)
  next
    case n1: False
    then have b1: "wal_bytes w1 = wal_bytes w @ encode_record r" "w_failed w1 = w_failed w"
      using st1 by auto
    obtain rc2 w2 where y: "(if do_fsync then flush_sync w1 else (0, w1)) = (rc2, w2)" by (meson surj_pair)
    have wf1: "wal_wf w1" and fr1: "wal_frame w w1" and off1: "w_off w \<le> w_off w1" using st1 by auto
    have d1: "durable w x \<Longrightarrow> durable w1 x" for x
      using fr1 b1(1) off1 by (auto simp: wal_frame_def intro: durable_mono)
    show ?thesis
    proof (cases do_fsync)
      case True
      note z = flush_sync [OF wf1 y [simplified True if_True]]
      show ?thesis
      proof (cases "rc2 < 0")
        case True
        then have "rc = -1" "w' = wal_set_failed w2"
          using ap dur False s f n1 y by (auto simp: append_record_ex_def)
        moreover have "wal_grows w (encode_record r) (wal_set_failed w2)"
          using z b1 fr1 d1 off1 by (simp add: wal_grows_def wal_ok_def wal_frame_def)
        ultimately show ?thesis by simp
      next
        case n2: False
        then have rc2: "rc2 = 0" using z(1) by auto
        have w': "rc = 0" "w' = w2\<lparr>w_seq := Suc (w_seq w2), w_size_synced := True, w_synced := Suc (w_seq w2)\<rparr>"
          using ap dur False s f n1 y n2 True
          by (auto simp: append_record_ex_def wal_sync_done_locked_def Let_def)
        have "wal_wf w'" using z(2) z(11) [OF rc2] by (simp add: w' wal_wf_def wal_buf_cap_def)
        moreover have "durable w' x = durable w2 x" "wal_bytes w' = wal_bytes w2" for x
          by (simp_all add: w' durable_def wal_bytes_def)
        ultimately show ?thesis
          using z b1 fr1 d1 off1 False rc2 by (auto simp: w' wal_grows_def wal_ok_def wal_frame_def)
      qed
    next
      case ns: False
      then have w': "rc = 0" "w' = w1\<lparr>w_seq := Suc (w_seq w1)\<rparr>"
        using ap dur False s f n1 by (auto simp: append_record_ex_def Let_def)
      have "wal_wf w'" using wf1 by (simp add: w' wal_wf_def wal_buf_cap_def)
      moreover have "w_synced w1 \<le> w_seq w1" using wf1 by (simp add: wal_wf_def)
      moreover have "durable w' x = durable w1 x" "wal_bytes w' = wal_bytes w1" for x
        by (simp_all add: w' durable_def wal_bytes_def)
      ultimately show ?thesis
        using b1 fr1 d1 off1 False ns by (auto simp: w' wal_grows_def wal_ok_def wal_frame_def)
    qed
  qed
qed

lemma wal_grows_set_failed: "wal_grows w b w' \<Longrightarrow> wal_grows w b (wal_set_failed w')"
  by (simp add: wal_grows_def wal_ok_def)

lemma sync_log_cases:
  assumes ok: "wal_ok w" and sy: "sync_log w = (rc, w')"
  shows "rc = 0 \<and> wal_grows w [] w' \<and> w_failed w' = w_failed w \<and> w_seq w' = w_seq w \<and>
      w_synced w' = w_seq w' \<and> w_fd w \<and> (w_synced w < w_seq w \<longrightarrow> durable w' (wal_bytes w')) \<or>
    rc = -1 \<and> wal_grows w [] w' \<and> (w_fd w \<longrightarrow> w_failed w')"
proof (cases "\<not> w_fd w \<or> w_synced w \<ge> w_seq w")
  case True
  moreover have "w_synced w \<le> w_seq w" using ok by (simp add: wal_ok_def wal_wf_def)
  ultimately show ?thesis using sy ok by (auto simp: sync_log_def Let_def split: if_splits)
next
  case False
  have wfw: "wal_wf w" using ok by (simp add: wal_ok_def)
  obtain rc1 w1 where f: "wal_flush_locked w = (rc1, w1)" by fastforce
  note q = wal_flush [OF wfw f]
  show ?thesis
  proof (cases "rc1 < 0")
    case True
    then have "rc = -1" "w' = w1" "rc1 = -1" using sy False f q(4) by (auto simp: sync_log_def Let_def)
    moreover have "wal_grows w [] w1" using q \<open>rc1 = -1\<close> by (intro wal_grows_frame) auto
    ultimately show ?thesis using q(6) by simp
  next
    case n1: False
    obtain rc2 w2 where y: "wal_sync_run w1 (wal_sync_datasync_locked w1) = (rc2, w2)" by fastforce
    have fs: "flush_sync w = (rc2, w2)" using f n1 y by (simp add: flush_sync_def)
    note z = flush_sync [OF wfw fs]
    show ?thesis
    proof (cases "rc2 = 0")
      case False
      then have w': "rc = -1" "w' = wal_set_failed w2"
        using sy \<open>\<not> (\<not> w_fd w \<or> w_seq w \<le> w_synced w)\<close> f n1 y by (auto simp: sync_log_def Let_def)
      have "wal_grows w [] (wal_set_failed w2)" using z by (simp add: wal_grows_def wal_ok_def)
      then show ?thesis by (simp add: w')
    next
      case True
      have w': "rc = 0" "w' = w2\<lparr>w_size_synced := True, w_synced := w_seq w\<rparr>"
        using sy False f n1 y True z(8)
        by (auto simp: sync_log_def Let_def wal_sync_done_locked_def)
      have same: "durable w' x = durable w2 x" "wal_bytes w' = wal_bytes w2" for x
        by (simp_all add: w' durable_def wal_bytes_def)
      have "wal_wf w'" using z(2,7,8) z(11) [OF True] by (simp add: w' wal_wf_def wal_buf_cap_def)
      then have "wal_grows w [] w'"
        using z True by (simp add: wal_grows_def wal_ok_def same) (simp add: w')
      then show ?thesis using z True False by (simp add: same) (simp add: w')
    qed
  qed
qed

lemma q_wait_turn_cases:
  assumes ok: "wal_ok w" and sy: "\<not> w_syncer w" and target: "target \<le> w_seq w"
  obtains (return_ok) w' where "q_wait_turn w target = Wait_Return 0 w'" "wal_grows w [] w'"
      "\<not> w_failed w'" "w_seq w' = w_seq w" "target \<le> w_synced w'"
      "w_synced w' = w_seq w' \<or> w_synced w' = w_synced w"
    | (return_fail) w' where "q_wait_turn w target = Wait_Return (-1) w'" "wal_grows w [] w'" "w_failed w'"
    | (again) w' where "q_wait_turn w target = Wait_Again w'" "wal_grows w [] w'" "\<not> w_failed w'"
      "w_seq w' = w_seq w" "w_synced w' = w_seq w'"
proof -
  have wfw: "wal_wf w" using ok by (simp add: wal_ok_def)
  consider (early) "w_failed w \<or> w_synced w \<ge> target"
    | (fast) "\<not> w_failed w" "w_synced w < target" "w_seq w = target \<and> w_synced w = target - 1"
    | (slow) "\<not> w_failed w" "w_synced w < target" "\<not> (w_seq w = target \<and> w_synced w = target - 1)"
    by fastforce
  then show ?thesis
  proof cases
    case early
    then show ?thesis using ok return_fail [of w] return_ok [of w]
      by (cases "w_failed w") (simp_all add: q_wait_turn_def)
  next
    case fast
    obtain rc w1 where f: "flush_sync w = (rc, w1)" by fastforce
    note z = flush_sync [OF wfw f]
    show ?thesis
    proof (cases "rc < 0")
      case True
      have "wal_grows w [] (wal_set_failed w1)" using z by (simp add: wal_grows_def wal_ok_def)
      then show ?thesis using return_fail [of "wal_set_failed w1"] fast sy f True
        by (simp add: q_wait_turn_def)
    next
      case False
      then have rc: "rc = 0" using z(1) by auto
      define w' where "w' = w1\<lparr>w_size_synced := True, w_synced := target\<rparr>"
      have same: "durable w' x = durable w1 x" "wal_bytes w' = wal_bytes w1" for x
        by (simp_all add: w'_def durable_def wal_bytes_def)
      have "wal_wf w'" using z(2,7,8) z(11) [OF rc] target by (simp add: w'_def wal_wf_def wal_buf_cap_def)
      then have "wal_grows w [] w'"
        using z rc by (simp add: wal_grows_def wal_ok_def same) (simp add: w'_def)
      then show ?thesis using return_ok [of w'] fast sy f False z(7) z(11) [OF rc]
        by (simp add: q_wait_turn_def wal_sync_done_locked_def w'_def)
    qed
  next
    case slow
    then have turn: "q_wait_turn w target = q_wait_round w" using sy by (auto simp: q_wait_turn_def)
    let ?ws = "w\<lparr>w_syncer := True\<rparr>"
    have wfs: "wal_wf ?ws" using wfw by (simp add: wal_wf_def wal_buf_cap_def)
    have same0: "durable ?ws x = durable w x" "wal_bytes ?ws = wal_bytes w" for x
      by (simp_all add: durable_def wal_bytes_def)
    obtain rc w1 where f: "wal_flush_locked ?ws = (rc, w1)" by fastforce
    note q = wal_flush [OF wfs f]
    show ?thesis
    proof (cases "rc < 0")
      case True
      let ?w' = "w1\<lparr>w_syncer := False\<rparr>"
      have "wal_grows w [] ?w'" "w_failed ?w'"
        using q True sy by (auto simp: wal_grows_def wal_ok_def wal_frame_def durable_def wal_bytes_def
            wal_wf_def wal_buf_cap_def)
      then show ?thesis using return_fail [of ?w'] f True by (simp add: turn q_wait_round_def Let_def)
    next
      case n1: False
      obtain rc2 w2 where y: "wal_sync_run w1 (wal_sync_datasync_locked w1) = (rc2, w2)" by fastforce
      have fs: "flush_sync ?ws = (rc2, w2)" using f n1 y by (simp add: flush_sync_def)
      note z = flush_sync [OF wfs fs, unfolded same0]
      show ?thesis
      proof (cases "rc2 = 0")
        case False
        let ?w' = "wal_set_failed (w2\<lparr>w_syncer := False\<rparr>)"
        have "wal_wf (w2\<lparr>w_syncer := False\<rparr>)" using z(2) by (simp add: wal_wf_def wal_buf_cap_def)
        moreover have "durable (w2\<lparr>w_syncer := False\<rparr>) x = durable w2 x"
          "wal_bytes (w2\<lparr>w_syncer := False\<rparr>) = wal_bytes w2" for x by (simp_all add: durable_def wal_bytes_def)
        ultimately have "wal_grows w [] ?w'"
          using z sy by (simp add: wal_grows_def wal_ok_def)
        then show ?thesis using return_fail [of ?w'] f n1 y False
          by (simp add: turn q_wait_round_def Let_def)
      next
        case True
        define w' where "w' = w2\<lparr>w_size_synced := True, w_syncer := False, w_synced := w_seq w\<rparr>"
        have same: "durable w' x = durable w2 x" "wal_bytes w' = wal_bytes w2" for x
          by (simp_all add: w'_def durable_def wal_bytes_def)
        have "wal_wf w'" using z(2,7,8) z(11) [OF True] by (simp add: w'_def wal_wf_def wal_buf_cap_def)
        then have "wal_grows w [] w'"
          using z True sy by (simp add: wal_grows_def wal_ok_def same) (simp add: w'_def)
        then show ?thesis using again [of w'] slow f n1 y True z(7,8) z(11) [OF True] target
          by (simp add: turn q_wait_round_def wal_sync_done_locked_def w'_def Let_def)
      qed
    qed
  qed
qed

lemma q_wait_loop_cases:
  assumes ok: "wal_ok w" and sy: "\<not> w_syncer w" and target: "target \<le> w_seq w"
  obtains (ok) w' where "q_wait_loop 2 w target = Some (0, w')" "wal_grows w [] w'"
      "\<not> w_failed w'" "w_seq w' = w_seq w" "target \<le> w_synced w'"
    | (failed) w' where "q_wait_loop 2 w target = Some (-1, w')" "wal_grows w [] w'" "w_failed w'"
  using assms
proof (cases rule: q_wait_turn_cases)
  case (return_ok w')
  then show ?thesis by (intro ok [of w']) (simp_all add: numeral_2_eq_2)
next
  case (return_fail w')
  then show ?thesis by (intro failed [of w']) (simp_all add: numeral_2_eq_2)
next
  case (again w')
  then have "q_wait_turn w' target = Wait_Return 0 w'"
    using target by (simp add: q_wait_turn_def)
  with again show ?thesis using target by (intro ok [of w']) (simp_all add: numeral_2_eq_2)
qed

lemma q_wait_durable_cases:
  assumes ok: "wal_ok w" and sy: "\<not> w_syncer w" and wt: "q_wait_durable_locked w (w_seq w) = (rc, w')"
  shows "rc = 0 \<and> wal_grows w [] w' \<and> \<not> w_failed w' \<and> w_seq w' = w_seq w \<and> w_synced w' = w_seq w' \<or>
    rc = -1 \<and> wal_grows w [] w' \<and> w_failed w'"
  using ok sy order_refl
proof (cases rule: q_wait_loop_cases)
  case (ok w'')
  moreover have "w_synced w'' \<le> w_seq w''" using wal_grows_ok [OF ok(2)] by (simp add: wal_ok_def wal_wf_def)
  ultimately show ?thesis using wt by (auto simp: q_wait_durable_locked_def)
next
  case (failed w'')
  then show ?thesis using wt by (auto simp: q_wait_durable_locked_def)
qed

subsection \<open>Batches\<close>

definition batch_bytes :: "bytes \<Rightarrow> batch_record list \<Rightarrow> bytes" where
  "batch_bytes name records = concat (map (\<lambda>b. encode_record (batch_log name b)) records)"

lemma batch_stage:
  assumes "wal_wf w" and "batch_stage w name records = (bad, w')"
  shows "wal_wf w' \<and> w_fd w' = w_fd w \<and> w_disk w' = w_disk w \<and> w_env w' = w_env w \<and>
    w_syncer w' = w_syncer w \<and> w_synced w' = w_synced w \<and> w_off w \<le> w_off w' \<and>
    (w_failed w \<longrightarrow> w_failed w') \<and> w_seq w \<le> w_seq w' \<and>
    (\<exists>n \<le> length records. wal_bytes w' = wal_bytes w @ batch_bytes name (take n records)) \<and>
    (\<not> bad \<longrightarrow> wal_bytes w' = wal_bytes w @ batch_bytes name records \<and> w_failed w' = w_failed w \<and>
      w_seq w' = w_seq w + length records)"
  using assms
proof (induction records arbitrary: w)
  case Nil
  then show ?case by (simp add: batch_bytes_def)
next
  case (Cons b records)
  let ?r = "batch_log name b"
  obtain rc w1 where s: "wal_stage_locked w (log_header ?r) name (b_data b) = (rc, w1)" by fastforce
  note st = wal_stage [OF Cons.prems(1) s]
  show ?case
  proof (cases "rc < 0")
    case True
    then have "bad" "w' = w1" "rc = -1" using Cons.prems(2) s st(3) by auto
    moreover have "wal_bytes w1 = wal_bytes w @ batch_bytes name (take 0 (b # records))"
      using st(6) \<open>rc = -1\<close> by (simp add: batch_bytes_def)
    ultimately show ?thesis using st(1,2,4) by (auto simp: wal_frame_def)
  next
    case False
    then have rc: "rc = 0" using st(3) by auto
    let ?w1 = "w1\<lparr>w_seq := Suc (w_seq w1)\<rparr>"
    have wf1: "wal_wf ?w1" using st(1) by (simp add: wal_wf_def wal_buf_cap_def)
    have rec: "batch_stage ?w1 name records = (bad, w')" using Cons.prems(2) s False by (simp add: Let_def)
    have b1: "wal_bytes ?w1 = wal_bytes w @ encode_record ?r" "w_failed ?w1 = w_failed w"
      using st(5) [OF rc] by (simp_all add: wal_bytes_def encode_record_def batch_log_def)
    have step: "batch_bytes name (take (Suc n) (b # records)) = encode_record ?r @ batch_bytes name (take n records)"
      "batch_bytes name (b # records) = encode_record ?r @ batch_bytes name records" for n
      by (simp_all add: batch_bytes_def)
    note IH = Cons.IH [OF wf1 rec]
    then obtain n where "n \<le> length records"
      "wal_bytes w' = wal_bytes ?w1 @ batch_bytes name (take n records)" by blast
    then have "\<exists>n \<le> length (b # records). wal_bytes w' = wal_bytes w @ batch_bytes name (take n (b # records))"
      using b1(1) step(1) by (intro exI [of _ "Suc n"]) simp
    then show ?thesis using IH b1 st(2,4) by (auto simp: step(2) wal_frame_def)
  qed
qed

lemma append_batch_cases:
  assumes ok: "wal_ok w" and ap: "append_batch_records w name records = (rc, w')" and ne: "records \<noteq> []"
  shows "rc = 0 \<and> wal_grows w (batch_bytes name records) w' \<and> \<not> w_failed w' \<and>
      w_seq w' = w_seq w + length records \<or>
    rc = -1 \<and> (\<exists>n \<le> length records. wal_grows w (batch_bytes name (take n records)) w') \<and>
      (w_fd w \<longrightarrow> w_failed w') \<and> (w_off w' = w_off w \<longrightarrow> wal_bytes w' = wal_bytes w \<and> w_seq w' = w_seq w)"
proof (cases "\<not> w_fd w \<or> w_failed w")
  case True
  have "wal_grows w (batch_bytes name (take 0 records)) w" using ok by (simp add: batch_bytes_def)
  then have "\<exists>n \<le> length records. wal_grows w (batch_bytes name (take n records)) w" by blast
  moreover have "rc = -1" "w' = w" using True ap ne by (auto simp: append_batch_records_def)
  ultimately show ?thesis using True by blast
next
  case False
  have wfw: "wal_wf w" using ok by (simp add: wal_ok_def)
  obtain bad w1 where s: "batch_stage w name records = (bad, w1)" by fastforce
  note st = batch_stage [OF wfw s]
  have wf1: "wal_wf w1" and grow1: "\<exists>n \<le> length records. wal_bytes w1 = wal_bytes w @ batch_bytes name (take n records)"
    and fr1: "w_fd w1 = w_fd w" "w_disk w1 = w_disk w" "w_env w1 = w_env w" "w_syncer w1 = w_syncer w"
      "w_synced w1 = w_synced w" "w_seq w \<le> w_seq w1" "w_off w \<le> w_off w1"
    and all1: "\<not> bad \<Longrightarrow> wal_bytes w1 = wal_bytes w @ batch_bytes name records \<and>
      w_failed w1 = w_failed w \<and> w_seq w1 = w_seq w + length records"
    using st by blast+
  obtain rc2 w2 where f: "(if bad then (-1, w1) else wal_flush_locked w1) = (rc2, w2)" by (meson surj_pair)
  have q: "wal_wf w2 \<and> wal_frame w1 w2 \<and> wal_bytes w2 = wal_bytes w1 \<and> (rc2 = 0 \<or> rc2 = -1) \<and>
    (rc2 = 0 \<longrightarrow> \<not> bad \<and> w_failed w2 = w_failed w1) \<and> w_off w1 \<le> w_off w2"
  proof (cases bad)
    case True
    then show ?thesis using f wf1 by auto
  next
    case False
    then show ?thesis using wal_flush [OF wf1, of rc2 w2] f by simp
  qed
  have fr: "w_fd w2 = w_fd w" "w_disk w2 = w_disk w" "w_env w2 = w_env w" "w_syncer w2 = w_syncer w"
    "w_synced w2 = w_synced w" "w_seq w2 = w_seq w1" "w_off w \<le> w_off w2"
    using fr1 q by (simp_all add: wal_frame_def)
  show ?thesis
  proof (cases "rc2 < 0")
    case True
    let ?w3 = "if w_off w2 = w_off w
      then w2\<lparr>w_buf := take (length (w_buf w)) (w_buf w2), w_seq := w_seq w\<rparr> else w2"
    have w': "rc = -1" "w' = wal_set_failed ?w3"
      using ap ne False s f True by (simp_all add: append_batch_records_def Let_def)
    obtain n where n: "n \<le> length records" "wal_bytes w2 = wal_bytes w @ batch_bytes name (take n records)"
      using grow1 q by auto
    show ?thesis
    proof (cases "w_off w2 = w_off w")
      case True
      have buf: "w_buf w2 = w_buf w @ batch_bytes name (take n records)"
        using wal_bytes_same_off [OF wfw _ n(2) True] q by simp
      then have "take (w_off w) (w_file w2) = take (w_off w) (w_file w)"
        using n(2) True by (simp add: wal_bytes_def)
      then have by3: "wal_bytes w' = wal_bytes w" using True buf by (simp add: w' ) (simp add: wal_bytes_def)
      have "wal_wf w'"
        using q True fr(5) wfw buf by (simp add: w') (simp add: wal_wf_def wal_buf_cap_def)
      then have "wal_grows w (batch_bytes name (take 0 records)) w'"
        using by3 fr True by (simp add: wal_grows_def wal_ok_def batch_bytes_def durable_def) (simp add: w')
      then have "\<exists>n \<le> length records. wal_grows w (batch_bytes name (take n records)) w'" by blast
      moreover have "w_failed w'" "w_seq w' = w_seq w" using True by (simp_all add: w')
      ultimately show ?thesis using w'(1) by3 by blast
    next
      case ne: False
      then have "wal_grows w (batch_bytes name (take n records)) w'"
        using conjunct1 [OF q] n(2) fr fr1(6) by (simp add: w' wal_grows_def wal_ok_def durable_def)
      then have "\<exists>n \<le> length records. wal_grows w (batch_bytes name (take n records)) w'" using n(1) by blast
      moreover have "w_failed w'" "w_off w' \<noteq> w_off w" using ne by (simp_all add: w' wal_set_failed_def)
      ultimately show ?thesis using w'(1) by blast
    qed
  next
    case nonneg: False
    then have w': "rc = 0" "w' = w2" and rc2: "rc2 = 0"
      using ap ne False s f q by (auto simp: append_batch_records_def Let_def)
    have seq: "w_seq w2 = w_seq w + length records" and by2: "wal_bytes w2 = wal_bytes w @ batch_bytes name records"
      and nf: "\<not> w_failed w2" using all1 q rc2 fr False by auto
    then have "w_synced w2 \<noteq> w_seq w2" using ne wfw fr(5) by (auto simp: wal_wf_def)
    then have "wal_grows w (batch_bytes name records) w2"
      using conjunct1 [OF q] fr fr1(6) False by2 by (simp add: wal_grows_def wal_ok_def durable_def)
    then show ?thesis using w' seq nf by simp
  qed
qed

subsection \<open>Crashes\<close>

text \<open>
  What a crash may leave in the file: every byte inside the durable size is the durable
  byte or the one written since, everything behind it is arbitrary (a hole or a write
  that happened to reach the disk), and the file is at least as long as its durable size.
\<close>

definition crash_image :: "wal \<Rightarrow> bytes \<Rightarrow> bool" where
  "crash_image w f \<longleftrightarrow>
     length (w_disk w) \<le> length f \<and>
     (\<forall>i < length (w_disk w). f ! i = w_disk w ! i \<or> (i < length (w_file w) \<and> f ! i = w_file w ! i))"

lemma crash_keeps_durable:
  assumes "wal_wf w" and d: "durable w b" and c: "crash_image w f"
  shows "prefix b f"
proof -
  have nb: "length b \<le> w_off w" using d by (simp add: durable_def)
  have le: "length b \<le> length (w_disk w)" using d by (auto simp: durable_def dest: prefix_length_le)
  have "f ! i = b ! i" if i: "i < length b" for i
  proof -
    have "b ! i = w_disk w ! i" using d i by (auto simp: durable_def prefix_def nth_append)
    moreover have "b ! i = w_file w ! i"
    proof -
      have "b ! i = wal_bytes w ! i" using d i by (auto simp: durable_def prefix_def nth_append)
      also have "\<dots> = w_file w ! i"
        using i nb assms(1) by (simp add: wal_bytes_def nth_append wal_wf_def)
      finally show ?thesis .
    qed
    ultimately show ?thesis using c i le unfolding crash_image_def by (metis less_le_trans)
  qed
  then have "take (length b) f = b"
    using c le by (intro nth_equalityI) (auto simp: crash_image_def)
  then show ?thesis by (metis take_is_prefix)
qed

subsection \<open>The interface the engine relies on\<close>

text \<open>
  The engine logs a record and then passes an acknowledgement point: \<open>sync_log\<close> where the
  record must be durable before memory changes, the durability wait where the change is
  already applied.  Both keep one contract, stated here over an abstract log.
\<close>

locale ack_log =
  fixes log_ok :: "'w \<Rightarrow> bool" and log_bytes :: "'w \<Rightarrow> bytes" and on_disk :: "'w \<Rightarrow> bytes \<Rightarrow> bool"
    and append_rec :: "'w \<Rightarrow> log_record \<Rightarrow> int \<times> 'w" and ack_point :: "'w \<Rightarrow> int \<times> 'w"
    and pending :: "'w \<Rightarrow> bool"
  assumes append_law: "log_ok w \<Longrightarrow> append_rec w r = (0, w') \<Longrightarrow> r_durable r \<Longrightarrow>
      log_ok w' \<and> pending w' \<and> log_bytes w' = log_bytes w @ encode_record r"
    and append_keeps: "log_ok w \<Longrightarrow> append_rec w r = (rc, w') \<Longrightarrow> on_disk w b \<Longrightarrow> on_disk w' b"
    and ack_law: "log_ok w \<Longrightarrow> pending w \<Longrightarrow> ack_point w = (0, w') \<Longrightarrow>
      log_ok w' \<and> log_bytes w' = log_bytes w \<and> on_disk w' (log_bytes w')"
    and ack_keeps: "log_ok w \<Longrightarrow> pending w \<Longrightarrow> ack_point w = (rc, w') \<Longrightarrow> on_disk w b \<Longrightarrow> on_disk w' b"
begin

lemma logged_and_acked:
  assumes "log_ok w" and "append_rec w r = (0, w1)" and "r_durable r" and "ack_point w1 = (0, w2)"
  shows "log_ok w2" "on_disk w2 (log_bytes w @ encode_record r)"
    "log_bytes w2 = log_bytes w @ encode_record r"
proof -
  note a = append_law [OF assms(1,2,3)]
  note k = ack_law [OF _ _ assms(4)]
  from a k show "log_ok w2" "on_disk w2 (log_bytes w @ encode_record r)"
    "log_bytes w2 = log_bytes w @ encode_record r" by auto
qed

lemma kept_by_pair:
  assumes "log_ok w" and "append_rec w r = (0, w1)" and "r_durable r" and "ack_point w1 = (rc, w2)"
    and "on_disk w b"
  shows "on_disk w2 b"
  using append_law [OF assms(1,2,3)] append_keeps [OF assms(1,2,5)] ack_keeps assms(4) by blast

end

text \<open>The states the engine runs in: the invariant holds and no other thread is syncing.\<close>

definition wal_quiet :: "wal \<Rightarrow> bool" where
  "wal_quiet w \<longleftrightarrow> wal_ok w \<and> \<not> w_syncer w"

definition wal_pending :: "wal \<Rightarrow> bool" where
  "wal_pending w \<longleftrightarrow> 0 < w_seq w \<and> \<not> w_failed w"

lemma wal_ok_synced:
  "wal_ok w \<Longrightarrow> \<not> w_failed w \<Longrightarrow> 0 < w_seq w \<Longrightarrow> w_synced w = w_seq w \<Longrightarrow> durable w (wal_bytes w)"
  by (simp add: wal_ok_def)

lemma append_record_keeps:
  assumes "wal_ok w" and "append_record w r f = (rc, w')"
  shows "\<exists>b \<in> {[], encode_record r}. wal_grows w b w'"
proof (cases "r_durable r")
  case True
  from append_record_ex_cases [OF assms(1) assms(2) [unfolded append_record_def] True] show ?thesis by auto
next
  case False
  with assms show ?thesis by (simp add: append_record_def append_record_ex_def)
qed

interpretation sync_acked: ack_log wal_quiet wal_bytes durable "\<lambda>w r. append_record w r False"
  sync_log wal_pending
proof
  fix w r w' assume "wal_quiet w" and a: "append_record w r False = (0, w')" and d: "r_durable r"
  then have ok: "wal_ok w" and ns: "\<not> w_syncer w" by (simp_all add: wal_quiet_def)
  from append_record_ex_cases [OF ok a [unfolded append_record_def] d] ns
  show "wal_quiet w' \<and> wal_pending w' \<and> wal_bytes w' = wal_bytes w @ encode_record r"
    by (auto simp: wal_grows_def wal_quiet_def wal_pending_def)
next
  fix w r rc w' b assume "wal_quiet w" and a: "append_record w r False = (rc, w')" and "durable w b"
  then show "durable w' b" using append_record_keeps [OF _ a] by (auto simp: wal_grows_def wal_quiet_def)
next
  fix w w' assume "wal_quiet w" and p: "wal_pending w" and s: "sync_log w = (0, w')"
  then have ok: "wal_ok w" and ns: "\<not> w_syncer w" by (simp_all add: wal_quiet_def)
  from sync_log_cases [OF ok s] p ns
  show "wal_quiet w' \<and> wal_bytes w' = wal_bytes w \<and> durable w' (wal_bytes w')"
    using wal_ok_synced [of w'] by (auto simp: wal_grows_def wal_quiet_def wal_pending_def)
next
  fix w rc w' b assume "wal_quiet w" and "wal_pending w" and s: "sync_log w = (rc, w')" and "durable w b"
  then show "durable w' b" using sync_log_cases [OF _ s] by (auto simp: wal_grows_def wal_quiet_def)
qed

interpretation wait_acked: ack_log wal_quiet wal_bytes durable "\<lambda>w r. append_record w r False"
  "\<lambda>w. q_wait_durable_locked w (w_seq w)" wal_pending
proof
  fix w w' assume "wal_quiet w" and p: "wal_pending w" and s: "q_wait_durable_locked w (w_seq w) = (0, w')"
  then have ok: "wal_ok w" and ns: "\<not> w_syncer w" by (simp_all add: wal_quiet_def)
  from q_wait_durable_cases [OF ok ns s] p ns
  show "wal_quiet w' \<and> wal_bytes w' = wal_bytes w \<and> durable w' (wal_bytes w')"
    using wal_ok_synced [of w'] by (auto simp: wal_grows_def wal_quiet_def wal_pending_def)
next
  fix w rc w' b
  assume "wal_quiet w" and "wal_pending w" and s: "q_wait_durable_locked w (w_seq w) = (rc, w')" and "durable w b"
  then show "durable w' b"
    using q_wait_durable_cases [OF _ _ s] by (auto simp: wal_grows_def wal_quiet_def)
qed (use sync_acked.append_law sync_acked.append_keeps in blast)+

subsection \<open>Histories of the log\<close>

text \<open>
  The calls the engine makes on the log, in any order; a history is a list of them.  Every
  call is made with no other thread syncing.
\<close>

datatype wal_call =
    Call_Append log_record bool bool
  | Call_Batch bytes "batch_record list"
  | Call_Sync
  | Call_Wait

definition wal_do :: "wal_call \<Rightarrow> wal \<Rightarrow> int \<times> wal" where
  "wal_do c w =
     (case c of Call_Append r do_fsync defer_write \<Rightarrow> append_record_ex w r do_fsync defer_write
      | Call_Batch name records \<Rightarrow> append_batch_records w name records
      | Call_Sync \<Rightarrow> sync_log w
      | Call_Wait \<Rightarrow> q_wait_durable_locked w (w_seq w))"

definition wal_run :: "wal_call list \<Rightarrow> wal \<Rightarrow> wal" where
  "wal_run cs w = foldl (\<lambda>w c. snd (wal_do c w)) w cs"

text \<open>The records a call adds to the log when it succeeds.\<close>

definition call_records :: "wal_call \<Rightarrow> log_record list" where
  "call_records c =
     (case c of Call_Append r _ _ \<Rightarrow> if r_durable r then [r] else []
      | Call_Batch name records \<Rightarrow> map (batch_log name) records
      | _ \<Rightarrow> [])"

lemma concat_batch: "concat (map encode_record (map (batch_log name) records)) = batch_bytes name records"
  by (simp add: batch_bytes_def o_def)

lemma wal_do_grows:
  assumes q: "wal_quiet w" and d: "wal_do c w = (rc, w')"
  shows "wal_quiet w'" "\<exists>n \<le> length (call_records c). wal_grows w (concat (map encode_record (take n (call_records c)))) w'"
    "rc = 0 \<Longrightarrow> wal_grows w (concat (map encode_record (call_records c))) w'" "rc = 0 \<or> rc = -1"
    "rc = -1 \<Longrightarrow> w_fd w \<Longrightarrow> w_failed w'"
proof -
  have ok: "wal_ok w" and ns: "\<not> w_syncer w" using q by (simp_all add: wal_quiet_def)
  have "(\<exists>n \<le> length (call_records c). wal_grows w (concat (map encode_record (take n (call_records c)))) w') \<and>
    (rc = 0 \<longrightarrow> wal_grows w (concat (map encode_record (call_records c))) w') \<and> (rc = 0 \<or> rc = -1) \<and>
    (rc = -1 \<and> w_fd w \<longrightarrow> w_failed w')"
  proof (cases c)
    case (Call_Append r do_fsync defer_write)
    show ?thesis
    proof (cases "r_durable r")
      case True
      have "wal_grows w [] w' \<Longrightarrow> wal_grows w (concat (map encode_record (take 0 (call_records c)))) w'"
        "wal_grows w (encode_record r) w' \<Longrightarrow> wal_grows w (concat (map encode_record (take 1 (call_records c)))) w'"
        "length (call_records c) = 1" "concat (map encode_record (call_records c)) = encode_record r"
        using True Call_Append by (simp_all add: call_records_def)
      then show ?thesis
        using append_record_ex_cases [OF ok _ True, of do_fsync defer_write rc w'] d Call_Append
        by (auto simp: wal_do_def)
    next
      case False
      then show ?thesis using d Call_Append ok by (simp add: wal_do_def append_record_ex_def call_records_def)
    qed
  next
    case (Call_Batch name records)
    show ?thesis
    proof (cases "records = []")
      case True
      then show ?thesis using d Call_Batch ok by (simp add: wal_do_def append_batch_records_def call_records_def)
    next
      case False
      have ap: "append_batch_records w name records = (rc, w')" using d Call_Batch by (simp add: wal_do_def)
      have cr: "concat (map encode_record (take n (call_records c))) = batch_bytes name (take n records)"
        "concat (map encode_record (call_records c)) = batch_bytes name records"
        "length (call_records c) = length records" for n
        by (simp_all only: Call_Batch call_records_def wal_call.case take_map concat_batch length_map)
      have all: "take (length records) records = records" by simp
      from append_batch_cases [OF ok ap False] show ?thesis
      proof (elim disjE conjE)
        assume "rc = 0" "wal_grows w (batch_bytes name records) w'"
        then show ?thesis unfolding cr by (intro conjI exI [of _ "length records"]) (simp_all add: all)
      next
        assume "rc = - 1" "\<exists>n \<le> length records. wal_grows w (batch_bytes name (take n records)) w'"
          "w_fd w \<longrightarrow> w_failed w'"
        then show ?thesis unfolding cr by simp
      qed
    qed
  next
    case Call_Sync
    then show ?thesis using sync_log_cases [OF ok, of rc w'] d by (auto simp: wal_do_def call_records_def)
  next
    case Call_Wait
    then show ?thesis using q_wait_durable_cases [OF ok ns, of rc w'] d by (auto simp: wal_do_def call_records_def)
  qed
  then show "\<exists>n \<le> length (call_records c). wal_grows w (concat (map encode_record (take n (call_records c)))) w'"
    "rc = 0 \<Longrightarrow> wal_grows w (concat (map encode_record (call_records c))) w'" "rc = 0 \<or> rc = -1"
    "rc = -1 \<Longrightarrow> w_fd w \<Longrightarrow> w_failed w'" by auto
  then show "wal_quiet w'" using ns by (auto simp: wal_quiet_def wal_grows_def)
qed

lemma wal_run_keeps:
  assumes "wal_quiet w"
  shows "wal_quiet (wal_run cs w)" "durable w b \<Longrightarrow> durable (wal_run cs w) b"
    "prefix (wal_bytes w) (wal_bytes (wal_run cs w))" "w_failed w \<Longrightarrow> w_failed (wal_run cs w)"
proof -
  have "wal_quiet (wal_run cs w) \<and> (durable w b \<longrightarrow> durable (wal_run cs w) b) \<and>
      prefix (wal_bytes w) (wal_bytes (wal_run cs w)) \<and> (w_failed w \<longrightarrow> w_failed (wal_run cs w))"
    using assms
  proof (induction cs arbitrary: w)
    case (Cons c cs)
    obtain rc w1 where d: "wal_do c w = (rc, w1)" by fastforce
    note g = wal_do_grows [OF Cons.prems d]
    from g(2) have "durable w b \<longrightarrow> durable w1 b" "prefix (wal_bytes w) (wal_bytes w1)" "w_failed w \<longrightarrow> w_failed w1"
      by (auto simp: wal_grows_def)
    moreover have "wal_run (c # cs) w = wal_run cs w1" by (simp add: wal_run_def d)
    ultimately show ?case using Cons.IH [OF g(1)] by (auto intro: prefix_order.trans)
  qed (simp add: wal_run_def)
  then show "wal_quiet (wal_run cs w)" "durable w b \<Longrightarrow> durable (wal_run cs w) b"
    "prefix (wal_bytes w) (wal_bytes (wal_run cs w))" "w_failed w \<Longrightarrow> w_failed (wal_run cs w)" by auto
qed

text \<open>A log and a kernel on which every call succeeds, for the instances below.\<close>

definition calm_env :: wal_env where
  "calm_env = \<lparr>env_malloc = (\<lambda>_. True), env_pwrite = (\<lambda>_. []), env_fallocate = (\<lambda>_. False),
               env_sync = (\<lambda>_. True)\<rparr>"

definition calm_wal :: wal where
  "calm_wal = \<lparr>w_fd = True, w_file = [], w_disk = [], w_buf_alloc = False, w_buf = [], w_off = 0,
     w_alloc_end = 0, w_size_synced = False, w_seq = 0, w_synced = 0, w_syncer = False,
     w_failed = False, w_env = calm_env, w_calls = 0\<rparr>"

definition hello :: log_record where
  "hello = \<lparr>r_op = LOG_PUBLISH, r_durable = True, r_name = [113], r_id = 7, r_aux = 0, r_data = [104, 105]\<rparr>"

lemma calm_quiet: "wal_quiet calm_wal"
  by (simp add: wal_quiet_def wal_ok_def wal_wf_def calm_wal_def)

lemma calm_append:
  "append_record calm_wal hello False =
     (0, calm_wal\<lparr>w_buf_alloc := True, w_file := encode_record hello, w_off := length (encode_record hello),
           w_seq := 1, w_calls := 3\<rparr>)"
proof -
  have ne: "log_header hello \<noteq> []" by (metis length_0_conv length_log_header LOG_HEADER_def zero_neq_numeral)
  have pw: "pwrite_all [] [] (encode_record hello) 0 = (0, encode_record hello)"
    using ne by (cases "encode_record hello") (simp_all add: file_write_def encode_record_def)
  show ?thesis
    using ne pw
    by (simp add: append_record_def append_record_ex_def calm_wal_def calm_env_def wal_stage_locked_def
        wal_buf_get_def wal_buf_cap_def WAL_BUF_CAP_def wal_flush_locked_def wal_reserve_locked_def
        wal_pwrite_def Let_def LOG_HEADER_def encode_record_def hello_def QUEUE_WAL_PREALLOC_def)
qed

lemma calm_acked:
  "append_record calm_wal hello False = (0, snd (append_record calm_wal hello False))"
  "fst (sync_log (snd (append_record calm_wal hello False))) = 0"
  unfolding calm_append
  by (simp_all add: sync_log_def calm_wal_def calm_env_def wal_flush_locked_def wal_sync_datasync_locked_def
      wal_sync_run_def Let_def wal_sync_done_locked_def)

lemma q_wait_fuel:
  "q_wait_loop n w target = Some r \<Longrightarrow> n \<le> m \<Longrightarrow> q_wait_loop m w target = Some r"
proof (induction n arbitrary: w m)
  case (Suc n)
  then obtain k where "m = Suc k" "n \<le> k" by (cases m) auto
  with Suc show ?case by (auto split: wait_turn.splits)
qed simp

lemma subseq_take: "subseq (take n xs) xs"
  by (metis append_take_drop_id list_emb_append2 subseq_order.order_refl subseq_rev_drop_many)

subsection \<open>Properties of the log\<close>



text \<open>
  C2: the log only ever holds whole records, in the order of the calls.  Whatever fails on
  the way, the log after a history is the log before it followed by the encodings of a
  subsequence of the records the calls asked for.\<close>
theorem log_holds_whole_records:
  assumes "wal_quiet w"
  shows "\<exists>rs. wal_bytes (wal_run cs w) = wal_bytes w @ concat (map encode_record rs) \<and>
    subseq rs (concat (map call_records cs))"
  using assms
proof (induction cs arbitrary: w)
  case Nil
  then show ?case by (auto simp: wal_run_def intro: exI [of _ "[]"])
next
  case (Cons c cs)
  obtain rc w1 where d: "wal_do c w = (rc, w1)" by fastforce
  note g = wal_do_grows [OF Cons.prems d]
  obtain n where n: "wal_bytes w1 = wal_bytes w @ concat (map encode_record (take n (call_records c)))"
    using g(2) by (auto simp: wal_grows_def)
  obtain rs where rs: "wal_bytes (wal_run cs w1) = wal_bytes w1 @ concat (map encode_record rs)"
    "subseq rs (concat (map call_records cs))" using Cons.IH [OF g(1)] by blast
  have "wal_run (c # cs) w = wal_run cs w1" by (simp add: wal_run_def d)
  with n rs show ?case
    by (intro exI [of _ "take n (call_records c) @ rs"]) (simp add: list_emb_append_mono subseq_take)
qed

theorem log_holds_whole_records_witness:
  "wal_quiet calm_wal \<and>
   (\<exists>rs. wal_bytes (wal_run [Call_Append hello False False, Call_Sync] calm_wal) =
         wal_bytes calm_wal @ concat (map encode_record rs) \<and> subseq rs [hello])"
  using log_holds_whole_records [OF calm_quiet, of "[Call_Append hello False False, Call_Sync]"] calm_quiet
  by (simp add: call_records_def hello_def)

text \<open>
  C3: a failure latches.  Once a call on an open log has failed, every later append of a
  durable record fails, whatever calls come in between.\<close>
theorem log_failure_latches:
  assumes "wal_quiet w" and "w_fd w" and "wal_do c w = (-1, w')" and "r_durable r"
  shows "fst (append_record_ex (wal_run cs w') r do_fsync defer_write) = -1"
proof -
  have "wal_quiet w'" "w_failed w'" using wal_do_grows(1,5) [OF assms(1,3)] assms(2) by simp_all
  then have "w_failed (wal_run cs w')" by (rule wal_run_keeps(4))
  then show ?thesis using assms(4) by (simp add: append_record_ex_def)
qed

theorem log_failure_latches_witness:
  "wal_do Call_Sync (calm_wal\<lparr>w_seq := 1, w_env := calm_env\<lparr>env_sync := (\<lambda>_. False)\<rparr>\<rparr>) =
     (-1, calm_wal\<lparr>w_seq := 1, w_failed := True, w_calls := 1, w_env := calm_env\<lparr>env_sync := (\<lambda>_. False)\<rparr>\<rparr>) \<and>
   fst (append_record_ex (wal_run [Call_Wait] (calm_wal\<lparr>w_seq := 1, w_failed := True, w_calls := 1,
     w_env := calm_env\<lparr>env_sync := (\<lambda>_. False)\<rparr>\<rparr>)) hello False False) = -1"
proof -
  let ?w = "calm_wal\<lparr>w_seq := 1, w_env := calm_env\<lparr>env_sync := (\<lambda>_. False)\<rparr>\<rparr>"
  let ?w' = "calm_wal\<lparr>w_seq := 1, w_failed := True, w_calls := 1, w_env := calm_env\<lparr>env_sync := (\<lambda>_. False)\<rparr>\<rparr>"
  have q: "wal_quiet ?w" by (simp add: wal_quiet_def wal_ok_def wal_wf_def calm_wal_def)
  have d: "wal_do Call_Sync ?w = (-1, ?w')"
    by (simp add: wal_do_def sync_log_def calm_wal_def wal_flush_locked_def wal_sync_run_def
        wal_sync_datasync_locked_def wal_set_failed_def Let_def)
  show ?thesis
    using d log_failure_latches [OF q _ d, of hello "[Call_Wait]" False False]
    by (simp add: calm_wal_def hello_def)
qed

text \<open>
  C4: the durability wait ends.  With no other thread syncing, the loop of the durability
  wait returns within two turns, and its answer does not depend on how many more turns it
  would be allowed.\<close>
theorem durability_wait_returns:
  assumes "wal_quiet w" and "target \<le> w_seq w"
  shows "\<exists>rc w'. (\<forall>fuel. fuel \<ge> 2 \<longrightarrow> q_wait_loop fuel w target = Some (rc, w')) \<and>
    (rc = 0 \<and> target \<le> w_synced w' \<or> rc = -1 \<and> w_failed w')"
proof -
  have "wal_ok w" "\<not> w_syncer w" using assms(1) by (simp_all add: wal_quiet_def)
  then show ?thesis using assms(2)
  proof (cases rule: q_wait_loop_cases)
    case (ok w')
    then show ?thesis using q_wait_fuel [OF ok(1)] by blast
  next
    case (failed w')
    then show ?thesis using q_wait_fuel [OF failed(1)] by blast
  qed
qed

theorem durability_wait_returns_witness:
  "\<exists>rc w'. (\<forall>fuel. fuel \<ge> 2 \<longrightarrow> q_wait_loop fuel calm_wal 0 = Some (rc, w')) \<and>
    (rc = 0 \<and> 0 \<le> w_synced w' \<or> rc = -1 \<and> w_failed w')"
  by (rule durability_wait_returns [OF calm_quiet]) (simp add: calm_wal_def)

end
