(* ===== verification/Queue_Types.thy ===== *)
theory Queue_Types
  imports Queue_Wal
begin

unbundle bit_operations_syntax

text \<open>
  The data of the queue engine (\<open>queue.c\<close>, the structs at the top of the file) and the
  operations on the message list of one queue: the delivery-tag index, the scan hint,
  linking and removing messages, purging.

  A message list is a list in list order; a pointer to a message is its \<open>m_ref\<close>, a number
  no other message ever has.  \<open>not_before_ms\<close> and \<open>visibility_deadline_ms\<close> share their
  storage in the code and are the one field \<open>m_sched\<close> here.  A bucket of the tag index is
  the list of the references on its chain; the empty list of buckets is the null pointer
  before the first insertion.  A pointer to a queue is its \<open>q_lock_id\<close>, unique by
  construction.  Counters of live objects are natural numbers.

  The invariant \<open>queue_ok\<close> says that every counter counts what it is documented to count,
  that the hint and the index hold no dangling pointer, that an index entry sits in the
  bucket its tag hashes to, and that the earliest deadline bounds the leases it guards.
\<close>

subsection \<open>Messages and queues\<close>

datatype msg_state = MESSAGE_READY | MESSAGE_INFLIGHT

record message =
  m_ref :: nat
  m_id :: u64
  m_tag :: u64
  m_owner :: u64
  m_expires :: u64
  m_sched :: u64
  m_deliveries :: u32
  m_footprint :: u32
  m_state :: msg_state
  m_data :: bytes

record queue =
  q_lock_id :: nat
  q_incarnation :: u64
  q_name :: bytes
  q_max_depth :: u64
  q_depth :: nat
  q_inflight :: nat
  q_revision :: u64
  q_durable :: bool
  q_deleted :: bool
  q_dlq_name :: bytes
  q_max_deliveries :: u32
  q_msgs :: "message list"
  q_tag_buckets :: "nat list list"
  q_tag_mask :: nat
  q_tag_count :: nat
  q_live_bytes :: u64
  q_ttl_count :: nat
  q_earliest_visibility :: u64
  q_ready_hint :: "nat option"

definition find_msg :: "queue \<Rightarrow> nat \<Rightarrow> message option" where
  "find_msg q r = find (\<lambda>m. m_ref m = r) (q_msgs q)"

definition upd_msg :: "queue \<Rightarrow> nat \<Rightarrow> (message \<Rightarrow> message) \<Rightarrow> queue" where
  "upd_msg q r f = q\<lparr>q_msgs := map (\<lambda>m. if m_ref m = r then f m else m) (q_msgs q)\<rparr>"

text \<open>The message behind a pointer, and the pointer in its \<open>next\<close> field.\<close>

fun next_of :: "message list \<Rightarrow> nat \<Rightarrow> nat option" where
  "next_of [] r = None"
| "next_of (m # ms) r = (if m_ref m = r then map_option m_ref (find (\<lambda>_. True) ms) else next_of ms r)"

definition head_ref :: "queue \<Rightarrow> nat option" where
  "head_ref q = map_option m_ref (find (\<lambda>_. True) (q_msgs q))"

subsection \<open>The delivery-tag index\<close>

definition tag_hash :: "u64 \<Rightarrow> u32" where
  "tag_hash tag = ucast (drop_bit 32 (tag * 0x9E3779B97F4A7C15))"

definition tag_slot :: "nat \<Rightarrow> u64 \<Rightarrow> nat" where
  "tag_slot msk tag = unat (tag_hash tag) AND msk"

definition tag_find :: "queue \<Rightarrow> u64 \<Rightarrow> message option" where
  "tag_find q tag =
     (if q_tag_buckets q = [] \<or> tag = 0 then None
      else
        case find (\<lambda>r. case find_msg q r of None \<Rightarrow> False | Some m \<Rightarrow> m_tag m = tag)
               (q_tag_buckets q ! tag_slot (q_tag_mask q) tag) of
          None \<Rightarrow> None
        | Some r \<Rightarrow> find_msg q r)"

definition tag_index_remove :: "queue \<Rightarrow> nat \<Rightarrow> queue" where
  "tag_index_remove q r =
     (case find_msg q r of None \<Rightarrow> q
      | Some m \<Rightarrow>
        if q_tag_buckets q = [] \<or> m_tag m = 0 then q
        else
          let slot = tag_slot (q_tag_mask q) (m_tag m); chain = q_tag_buckets q ! slot;
              q' = (if r \<in> set chain
                    then q\<lparr>q_tag_buckets := (q_tag_buckets q)[slot := remove1 r chain],
                           q_tag_count := q_tag_count q - 1\<rparr>
                    else q)
          in upd_msg q' r (\<lambda>m. m\<lparr>m_tag := 0\<rparr>))"

fun tag_rebuild :: "nat \<Rightarrow> message list \<Rightarrow> nat list list \<times> nat \<Rightarrow> nat list list \<times> nat" where
  "tag_rebuild msk [] acc = acc"
| "tag_rebuild msk (m # ms) (buckets, cnt) =
     (if m_tag m = 0 then tag_rebuild msk ms (buckets, cnt)
      else
        let slot = tag_slot msk (m_tag m)
        in tag_rebuild msk ms (buckets[slot := m_ref m # buckets ! slot], Suc cnt))"

text \<open>\<open>mem\<close> is the answer to the allocation of a larger bucket array.\<close>

definition tag_index_insert :: "bool \<Rightarrow> queue \<Rightarrow> nat \<Rightarrow> queue" where
  "tag_index_insert mem q r =
     (case find_msg q r of None \<Rightarrow> q
      | Some m \<Rightarrow>
        if m_tag m = 0 then q
        else if q_tag_buckets q = [] \<or> q_tag_count q > q_tag_mask q
        then
          let size = (if q_tag_buckets q \<noteq> [] then (q_tag_mask q + 1) * 2 else 64)
          in if \<not> mem then q
             else (case tag_rebuild (size - 1) (q_msgs q) (replicate size [], 0) of
               (buckets, cnt) \<Rightarrow>
                 q\<lparr>q_tag_buckets := buckets, q_tag_mask := size - 1, q_tag_count := cnt\<rparr>)
        else
          let slot = tag_slot (q_tag_mask q) (m_tag m)
          in q\<lparr>q_tag_buckets := (q_tag_buckets q)[slot := r # q_tag_buckets q ! slot],
               q_tag_count := Suc (q_tag_count q)\<rparr>)"

subsection \<open>The message list\<close>

definition ready_hint_advance :: "message list \<Rightarrow> nat option" where
  "ready_hint_advance ms = map_option m_ref (find (\<lambda>m. m_state m \<noteq> MESSAGE_INFLIGHT) ms)"

text \<open>The messages from a pointer on, as the scans of the code follow \<open>next\<close>.\<close>

definition msgs_from :: "queue \<Rightarrow> nat option \<Rightarrow> message list" where
  "msgs_from q h = (case h of None \<Rightarrow> [] | Some r \<Rightarrow> dropWhile (\<lambda>m. m_ref m \<noteq> r) (q_msgs q))"

definition remove_message :: "queue \<Rightarrow> nat \<Rightarrow> queue" where
  "remove_message q r =
     (case find_msg q r of None \<Rightarrow> q
      | Some m \<Rightarrow>
        let q1 = (if m_tag m \<noteq> 0 then tag_index_remove q r else q)
        in q1\<lparr>q_ready_hint := (if q_ready_hint q1 = Some r then next_of (q_msgs q1) r
                                else q_ready_hint q1),
              q_msgs := filter (\<lambda>x. m_ref x \<noteq> r) (q_msgs q1),
              q_inflight := (if m_state m = MESSAGE_INFLIGHT then q_inflight q1 - 1 else q_inflight q1),
              q_ttl_count := (if m_expires m \<noteq> 0 then q_ttl_count q1 - 1 else q_ttl_count q1),
              q_depth := q_depth q1 - 1,
              q_live_bytes := (if q_durable q1 then q_live_bytes q1 - ucast (m_footprint m)
                               else q_live_bytes q1),
              q_revision := q_revision q1 + 1\<rparr>)"

text \<open>The loop of \<open>purge_queue_locked\<close>; its bound is the length of the list.\<close>

fun purge_loop :: "nat \<Rightarrow> queue \<Rightarrow> queue" where
  "purge_loop 0 q = q"
| "purge_loop (Suc n) q =
     (case q_msgs q of [] \<Rightarrow> q | m # _ \<Rightarrow> purge_loop n (remove_message q (m_ref m)))"

definition purge_queue_locked :: "queue \<Rightarrow> nat \<times> queue" where
  "purge_queue_locked q =
     (q_depth q, (purge_loop (length (q_msgs q)) q)\<lparr>q_ready_hint := None,
        q_earliest_visibility := - 1\<rparr>)"

definition message_create :: "nat \<Rightarrow> u64 \<Rightarrow> u64 \<Rightarrow> bytes \<Rightarrow> message" where
  "message_create r mid expires_ms data =
     \<lparr>m_ref = r, m_id = mid, m_tag = 0, m_owner = 0, m_expires = expires_ms, m_sched = 0,
      m_deliveries = 0, m_footprint = 0, m_state = MESSAGE_READY, m_data = data\<rparr>"

definition message_link :: "queue \<Rightarrow> message \<Rightarrow> queue" where
  "message_link q m =
     (let m' = (if q_durable q
                then m\<lparr>m_footprint := word_of_nat (LOG_HEADER + length (q_name q) + length (m_data m))\<rparr>
                else m)
      in q\<lparr>q_msgs := q_msgs q @ [m'],
           q_depth := Suc (q_depth q),
           q_revision := q_revision q + 1,
           q_ttl_count := (if m_expires m \<noteq> 0 then Suc (q_ttl_count q) else q_ttl_count q),
           q_ready_hint := (if q_ready_hint q = None then Some (m_ref m) else q_ready_hint q),
           q_live_bytes := (if q_durable q then q_live_bytes q + ucast (m_footprint m')
                            else q_live_bytes q)\<rparr>)"

text \<open>
  The field updates that several operations write out in the same way: the log bytes a
  delivery or a requeue adds to a durable queue, a message going back to ready (lease
  expiry, negative acknowledgement, the owner's disconnect), and a delivery.  \<open>mem\<close> is the
  answer to the allocation inside \<open>tag_index_insert\<close>.
\<close>

definition charge_message :: "queue \<Rightarrow> nat \<Rightarrow> queue" where
  "charge_message q r =
     (if q_durable q
      then (upd_msg q r (\<lambda>m. m\<lparr>m_footprint := m_footprint m + word_of_nat (LOG_HEADER + length (q_name q))\<rparr>))
             \<lparr>q_live_bytes := q_live_bytes q + word_of_nat (LOG_HEADER + length (q_name q))\<rparr>
      else q)"

definition requeue_message :: "queue \<Rightarrow> nat \<Rightarrow> u64 \<Rightarrow> queue" where
  "requeue_message q r not_before_ms =
     (let q1 = tag_index_remove q r
      in (upd_msg q1 r (\<lambda>m. m\<lparr>m_state := MESSAGE_READY, m_sched := not_before_ms, m_owner := 0\<rparr>))
           \<lparr>q_inflight := q_inflight q1 - 1, q_ready_hint := head_ref q1\<rparr>)"

definition deliver_message :: "bool \<Rightarrow> queue \<Rightarrow> nat \<Rightarrow> u64 \<Rightarrow> u64 \<Rightarrow> u64 \<Rightarrow> queue" where
  "deliver_message mem q r deadline owner tag =
     (let q1 = (upd_msg q r (\<lambda>m. m\<lparr>m_state := MESSAGE_INFLIGHT, m_sched := deadline,
                   m_deliveries := m_deliveries m + 1, m_owner := owner, m_tag := tag\<rparr>))
                 \<lparr>q_revision := q_revision q + 1,
                  q_earliest_visibility := (if deadline < q_earliest_visibility q then deadline
                                            else q_earliest_visibility q)\<rparr>;
          q2 = tag_index_insert mem q1 r
      in charge_message (q2\<lparr>q_inflight := Suc (q_inflight q2)\<rparr>) r)"

end
