(* ===== verification/Queue_Messages.thy ===== *)
theory Queue_Messages
  imports Queue_Types
begin

unbundle bit_operations_syntax

text \<open>
  The invariant of one queue and the lemmas that the primitives of \<open>Queue_Types\<close> preserve
  it.  The delivery-tag index gets an interface of its own (\<open>tag_lookup\<close>), which says that
  looking a tag up in the index is the same as searching the message list for it.
\<close>

subsection \<open>The invariant\<close>

abbreviation refs :: "message list \<Rightarrow> nat list" where
  "refs ms \<equiv> map m_ref ms"

definition inflight_total :: "message list \<Rightarrow> nat" where
  "inflight_total ms = length (filter (\<lambda>m. m_state m = MESSAGE_INFLIGHT) ms)"

definition ttl_total :: "message list \<Rightarrow> nat" where
  "ttl_total ms = length (filter (\<lambda>m. m_expires m \<noteq> 0) ms)"

definition entry_ok :: "nat \<Rightarrow> message list \<Rightarrow> nat \<Rightarrow> nat \<Rightarrow> bool" where
  "entry_ok msk ms i r \<longleftrightarrow> (\<exists>m \<in> set ms. m_ref m = r \<and> m_tag m \<noteq> 0 \<and> tag_slot msk (m_tag m) = i)"

definition index_sound :: "nat \<Rightarrow> message list \<Rightarrow> nat list list \<Rightarrow> bool" where
  "index_sound msk ms buckets \<longleftrightarrow>
     (buckets \<noteq> [] \<longrightarrow> length buckets = Suc msk) \<and>
     (\<forall>i < length buckets. distinct (buckets ! i) \<and> (\<forall>r \<in> set (buckets ! i). entry_ok msk ms i r))"

definition index_full :: "nat \<Rightarrow> message list \<Rightarrow> nat list list \<Rightarrow> bool" where
  "index_full msk ms buckets \<longleftrightarrow>
     (\<forall>m \<in> set ms. m_tag m \<noteq> 0 \<longrightarrow>
        buckets \<noteq> [] \<and> m_ref m \<in> set (buckets ! tag_slot msk (m_tag m)))"

text \<open>In-flight messages carry a tag, ready ones do not, and no two carry the same.\<close>

definition tags_ok :: "message list \<Rightarrow> bool" where
  "tags_ok ms \<longleftrightarrow>
     (\<forall>m \<in> set ms. m_tag m \<noteq> 0 \<longleftrightarrow> m_state m = MESSAGE_INFLIGHT) \<and>
     (\<forall>m \<in> set ms. \<forall>m' \<in> set ms. m_tag m = m_tag m' \<and> m_tag m \<noteq> 0 \<longrightarrow> m = m')"

definition leases_ok :: "queue \<Rightarrow> bool" where
  "leases_ok q \<longleftrightarrow>
     (\<forall>m \<in> set (q_msgs q). m_state m = MESSAGE_INFLIGHT \<and> m_expires m = 0 \<longrightarrow>
        q_earliest_visibility q \<le> m_sched m)"

definition queue_ok :: "queue \<Rightarrow> bool" where
  "queue_ok q \<longleftrightarrow>
     distinct (refs (q_msgs q)) \<and>
     q_depth q = length (q_msgs q) \<and>
     q_inflight q = inflight_total (q_msgs q) \<and>
     q_ttl_count q = ttl_total (q_msgs q) \<and>
     (\<forall>r. q_ready_hint q = Some r \<longrightarrow> r \<in> set (refs (q_msgs q))) \<and>
     index_sound (q_tag_mask q) (q_msgs q) (q_tag_buckets q) \<and>
     index_full (q_tag_mask q) (q_msgs q) (q_tag_buckets q) \<and>
     q_tag_count q = length (concat (q_tag_buckets q)) \<and>
     tags_ok (q_msgs q) \<and>
     leases_ok q"

text \<open>
  The stronger reading of the hint that the comment in the source gives, every message
  before the hint being in flight.  It holds for every queue without a delivery limit; a
  dead-letter routing that fails in the consume scan leaves a ready message behind.
\<close>

fun all_before :: "(message \<Rightarrow> bool) \<Rightarrow> message list \<Rightarrow> nat option \<Rightarrow> bool" where
  "all_before P [] h = True"
| "all_before P (m # ms) h = (h = Some (m_ref m) \<or> (P m \<and> all_before P ms h))"

definition hint_tight :: "queue \<Rightarrow> bool" where
  "hint_tight q \<longleftrightarrow> all_before (\<lambda>m. m_state m = MESSAGE_INFLIGHT) (q_msgs q) (q_ready_hint q)"

subsection \<open>Finding and updating a message\<close>

lemma find_msg_Some: "find_msg q r = Some m \<Longrightarrow> m \<in> set (q_msgs q) \<and> m_ref m = r"
  by (auto simp: find_msg_def dest: find_Some_mem)

lemma find_msg_mem: "distinct (refs (q_msgs q)) \<Longrightarrow> m \<in> set (q_msgs q) \<Longrightarrow> find_msg q (m_ref m) = Some m"
proof -
  have "distinct (refs ms) \<Longrightarrow> m \<in> set ms \<Longrightarrow> find (\<lambda>x. m_ref x = m_ref m) ms = Some m" for ms
    by (induction ms) (auto simp: image_iff)
  then show "distinct (refs (q_msgs q)) \<Longrightarrow> m \<in> set (q_msgs q) \<Longrightarrow> find_msg q (m_ref m) = Some m"
    by (simp add: find_msg_def)
qed

lemma find_msg_None: "find_msg q r = None \<longleftrightarrow> r \<notin> set (refs (q_msgs q))"
  by (auto simp: find_msg_def find_None_all)

lemma find_msg_iff:
  "distinct (refs (q_msgs q)) \<Longrightarrow> find_msg q r = Some m \<longleftrightarrow> m \<in> set (q_msgs q) \<and> m_ref m = r"
  using find_msg_Some find_msg_mem by blast

lemma refs_inj:
  "distinct (refs ms) \<Longrightarrow> x \<in> set ms \<Longrightarrow> y \<in> set ms \<Longrightarrow> m_ref x = m_ref y \<Longrightarrow> x = y"
  by (meson distinct_map inj_onD)

lemma refs_upd_msg [simp]:
  "(\<And>m. m_ref (f m) = m_ref m) \<Longrightarrow> refs (q_msgs (upd_msg q r f)) = refs (q_msgs q)"
  by (simp add: upd_msg_def)

lemma upd_msg_simps [simp]:
  "q_lock_id (upd_msg q r f) = q_lock_id q" "q_incarnation (upd_msg q r f) = q_incarnation q"
  "q_name (upd_msg q r f) = q_name q" "q_max_depth (upd_msg q r f) = q_max_depth q"
  "q_depth (upd_msg q r f) = q_depth q" "q_inflight (upd_msg q r f) = q_inflight q"
  "q_revision (upd_msg q r f) = q_revision q" "q_durable (upd_msg q r f) = q_durable q"
  "q_deleted (upd_msg q r f) = q_deleted q" "q_dlq_name (upd_msg q r f) = q_dlq_name q"
  "q_max_deliveries (upd_msg q r f) = q_max_deliveries q"
  "q_tag_buckets (upd_msg q r f) = q_tag_buckets q" "q_tag_mask (upd_msg q r f) = q_tag_mask q"
  "q_tag_count (upd_msg q r f) = q_tag_count q" "q_live_bytes (upd_msg q r f) = q_live_bytes q"
  "q_ttl_count (upd_msg q r f) = q_ttl_count q"
  "q_earliest_visibility (upd_msg q r f) = q_earliest_visibility q"
  "q_ready_hint (upd_msg q r f) = q_ready_hint q"
  "q_msgs (upd_msg q r f) = map (\<lambda>m. if m_ref m = r then f m else m) (q_msgs q)"
  by (simp_all add: upd_msg_def)

lemma length_filter_upd:
  assumes "distinct (refs ms)" and "m \<in> set ms"
  shows "length (filter P (map (\<lambda>x. if m_ref x = m_ref m then f x else x) ms)) + (if P m then 1 else 0) =
    length (filter P ms) + (if P (f m) then 1 else 0)"
  using assms
proof (induction ms)
  case (Cons x ms)
  show ?case
  proof (cases "x = m")
    case True
    then have "map (\<lambda>x. if m_ref x = m_ref m then f x else x) ms = ms"
      using Cons.prems(1) by (intro map_idI) (force simp: image_iff)
    with True show ?thesis by simp
  next
    case False
    then have "m \<in> set ms" and "m_ref x \<noteq> m_ref m" using Cons.prems by auto
    with Cons show ?thesis by simp
  qed
qed simp

lemma length_filter_remove:
  assumes "distinct (refs ms)" and "m \<in> set ms"
  shows "length (filter P (filter (\<lambda>x. m_ref x \<noteq> m_ref m) ms)) + (if P m then 1 else 0) =
    length (filter P ms)"
  using assms
proof (induction ms)
  case (Cons x ms)
  show ?case
  proof (cases "x = m")
    case True
    then have "filter (\<lambda>x. m_ref x \<noteq> m_ref m) ms = ms"
      using Cons.prems(1) by (intro filter_True) (force simp: image_iff)
    with True show ?thesis by simp
  next
    case False
    then have "m \<in> set ms" and "m_ref x \<noteq> m_ref m" using Cons.prems by auto
    with Cons show ?thesis by simp
  qed
qed simp

lemma filter_upd_same:
  assumes "\<And>m. m_ref (f m) = m_ref m"
  shows "filter (\<lambda>m. m_ref m \<noteq> r) (map (\<lambda>m. if m_ref m = r \<and> C then f m else m) ms) =
    filter (\<lambda>m. m_ref m \<noteq> r) ms"
  by (induction ms) (auto simp: assms)

lemma length_remove:
  "distinct (refs ms) \<Longrightarrow> m \<in> set ms \<Longrightarrow> Suc (length (filter (\<lambda>x. m_ref x \<noteq> m_ref m) ms)) = length ms"
  using length_filter_remove [of ms m "\<lambda>_. True"] by simp

subsection \<open>The tag index\<close>

lemma tags_ok_subset: "tags_ok ms \<Longrightarrow> set ms' \<subseteq> set ms \<Longrightarrow> tags_ok ms'"
  unfolding tags_ok_def by blast

lemma tag_slot_le: "tag_slot msk tag \<le> msk"
proof -
  have "x AND y \<le> (y :: nat)" for x y
    by (metis of_nat_and_eq AND_upper2 of_nat_0_le_iff of_nat_le_iff)
  then show ?thesis by (simp add: tag_slot_def)
qed

lemma index_slot:
  "index_sound msk ms buckets \<Longrightarrow> buckets \<noteq> [] \<Longrightarrow> tag_slot msk tag < length buckets"
  using tag_slot_le [of msk tag] by (simp add: index_sound_def)

lemma index_sound_other:
  assumes "index_sound msk ms buckets" and "i < length buckets" and "j < length buckets"
    and "r \<in> set (buckets ! i)" and "r \<in> set (buckets ! j)" and "distinct (refs ms)"
  shows "i = j"
proof -
  have "entry_ok msk ms i r" "entry_ok msk ms j r" using assms by (auto simp: index_sound_def)
  then obtain m m' where "m \<in> set ms" "m_ref m = r" "tag_slot msk (m_tag m) = i"
    and "m' \<in> set ms" "m_ref m' = r" "tag_slot msk (m_tag m') = j" by (auto simp: entry_ok_def)
  moreover from this have "m = m'" using refs_inj [OF assms(6)] by simp
  ultimately show ?thesis by simp
qed

lemma length_concat_update:
  assumes "i < length xss"
  shows "length (concat (xss[i := ys])) + length (xss ! i) = length (concat xss) + length ys"
  using assms
proof (induction xss arbitrary: i)
  case (Cons xs xss)
  then show ?case by (cases i) auto
qed simp

lemma index_sound_insert:
  assumes s: "index_sound msk ms buckets" and ne: "buckets \<noteq> []" and m: "m \<in> set ms" "m_tag m \<noteq> 0"
    and slot: "slot = tag_slot msk (m_tag m)" and new: "m_ref m \<notin> set (buckets ! slot)"
  shows "index_sound msk ms (buckets[slot := m_ref m # buckets ! slot])"
proof -
  have "entry_ok msk ms slot (m_ref m)" using m slot by (auto simp: entry_ok_def)
  moreover have "slot < length buckets" using index_slot [OF s ne] slot by simp
  ultimately show ?thesis using s new by (simp add: index_sound_def nth_list_update)
qed

lemma tag_rebuild_spec:
  assumes "length buckets = Suc msk" and "index_sound msk (ps @ ms) buckets"
    and "\<forall>i < length buckets. set (buckets ! i) \<subseteq> m_ref ` set ps"
    and "index_full msk ps buckets" and "cnt = length (concat buckets)"
    and "distinct (refs (ps @ ms))" and "tag_rebuild msk ms (buckets, cnt) = (buckets', cnt')"
  shows "length buckets' = Suc msk \<and> index_sound msk (ps @ ms) buckets' \<and>
    index_full msk (ps @ ms) buckets' \<and> cnt' = length (concat buckets')"
  using assms
proof (induction ms arbitrary: ps buckets cnt)
  case (Cons m ms)
  let ?slot = "tag_slot msk (m_tag m)"
  let ?b = "if m_tag m = 0 then buckets else buckets[?slot := m_ref m # buckets ! ?slot]"
  have slot: "?slot < length buckets" using Cons.prems(1) tag_slot_le [of msk "m_tag m"] by simp
  have ne: "buckets \<noteq> []" using Cons.prems(1) by auto
  have new: "m_ref m \<notin> set (buckets ! ?slot)"
    using Cons.prems(3,6) slot by (auto simp: image_iff)
  have full: "index_full msk (ps @ [m]) ?b"
    using Cons.prems(4) slot by (auto simp: index_full_def nth_list_update)
  have sub: "\<forall>i < length ?b. set (?b ! i) \<subseteq> m_ref ` set (ps @ [m])"
    using Cons.prems(3) slot by (auto simp: nth_list_update)
  have sound: "index_sound msk ((ps @ [m]) @ ms) ?b"
    using Cons.prems(2) index_sound_insert [OF Cons.prems(2) ne _ _ refl new] by auto
  have cnt: "(if m_tag m = 0 then cnt else Suc cnt) = length (concat ?b)"
    using Cons.prems(5) length_concat_update [OF slot, of "m_ref m # buckets ! ?slot"] by auto
  have rec: "tag_rebuild msk ms (?b, if m_tag m = 0 then cnt else Suc cnt) = (buckets', cnt')"
    using Cons.prems(7) by (auto simp: Let_def split: if_splits)
  show ?case
    using Cons.IH [OF _ sound sub full cnt _ rec] Cons.prems(1,6) by simp
qed (simp_all)

lemma tag_index_insert_spec:
  assumes s: "index_sound (q_tag_mask q) (q_msgs q) (q_tag_buckets q)"
    and c: "q_tag_count q = length (concat (q_tag_buckets q))"
    and d: "distinct (refs (q_msgs q))" and m: "m \<in> set (q_msgs q)" and t: "m_tag m \<noteq> 0"
    and new: "\<forall>b \<in> set (q_tag_buckets q). m_ref m \<notin> set b"
  obtains b k where
    "tag_index_insert mem q (m_ref m) = q\<lparr>q_tag_buckets := b, q_tag_mask := k, q_tag_count := length (concat b)\<rparr>"
    "index_sound k (q_msgs q) b"
    "mem \<and> (\<forall>x \<in> set (q_msgs q). x \<noteq> m \<and> m_tag x \<noteq> 0 \<longrightarrow> q_tag_buckets q \<noteq> [] \<and>
        m_ref x \<in> set (q_tag_buckets q ! tag_slot (q_tag_mask q) (m_tag x))) \<longrightarrow>
      index_full k (q_msgs q) b"
proof -
  have f: "find_msg q (m_ref m) = Some m" using find_msg_mem [OF d m] .
  let ?grow = "q_tag_buckets q = [] \<or> q_tag_count q > q_tag_mask q"
  let ?size = "if q_tag_buckets q \<noteq> [] then (q_tag_mask q + 1) * 2 else 64"
  let ?slot = "tag_slot (q_tag_mask q) (m_tag m)"
  let ?b = "(q_tag_buckets q)[?slot := m_ref m # q_tag_buckets q ! ?slot]"
  consider (nomem) "?grow" "\<not> mem" | (grown) "?grow" mem | (added) "\<not> ?grow" by blast
  then show thesis
  proof cases
    case nomem
    then have "tag_index_insert mem q (m_ref m) = q" using f by (auto simp: tag_index_insert_def Let_def)
    then show thesis using s c nomem by (intro that [of "q_tag_buckets q" "q_tag_mask q"]) simp_all
  next
    case grown
    obtain b n where rb: "tag_rebuild (?size - 1) (q_msgs q) (replicate ?size [], 0) = (b, n)" by fastforce
    have pos: "Suc (?size - 1) = ?size" by simp
    have r: "length b = Suc (?size - 1) \<and> index_sound (?size - 1) ([] @ q_msgs q) b \<and>
      index_full (?size - 1) ([] @ q_msgs q) b \<and> n = length (concat b)"
    proof (rule tag_rebuild_spec [OF _ _ _ _ _ _ rb])
      show "length (replicate ?size []) = Suc (?size - 1)" by (simp only: pos length_replicate)
      show "index_sound (?size - 1) ([] @ q_msgs q) (replicate ?size [])"
        unfolding index_sound_def using pos by (simp add: nth_replicate del: replicate.simps)
    qed (use d in \<open>simp_all add: index_full_def\<close>)
    have "tag_index_insert mem q (m_ref m) =
        q\<lparr>q_tag_buckets := b, q_tag_mask := ?size - 1, q_tag_count := n\<rparr>"
      using f t grown rb by (simp add: tag_index_insert_def Let_def)
    then show thesis using r by (intro that [of b "?size - 1"]) simp_all
  next
    case added
    have slot: "?slot < length (q_tag_buckets q)" using index_slot [OF s] added(1) by simp
    then have nw: "m_ref m \<notin> set (q_tag_buckets q ! ?slot)" using new by simp
    have sound: "index_sound (q_tag_mask q) (q_msgs q) ?b"
      using index_sound_insert [OF s _ m t refl nw] added(1) by blast
    have full: "index_full (q_tag_mask q) (q_msgs q) ?b"
      if "\<forall>x \<in> set (q_msgs q). x \<noteq> m \<and> m_tag x \<noteq> 0 \<longrightarrow> q_tag_buckets q \<noteq> [] \<and>
        m_ref x \<in> set (q_tag_buckets q ! tag_slot (q_tag_mask q) (m_tag x))"
      using that slot added(1) by (auto simp: index_full_def nth_list_update)
    have "Suc (q_tag_count q) = length (concat ?b)"
      using c length_concat_update [OF slot, of "m_ref m # q_tag_buckets q ! ?slot"] by simp
    then have "tag_index_insert mem q (m_ref m) =
        q\<lparr>q_tag_buckets := ?b, q_tag_mask := q_tag_mask q, q_tag_count := length (concat ?b)\<rparr>"
      using f t added by (simp add: tag_index_insert_def Let_def)
    then show thesis using sound full by (intro that [of ?b "q_tag_mask q"]) blast+
  qed
qed

text \<open>Which references the index holds; removal takes one of them out and clears its tag.\<close>

definition indexed :: "nat list list \<Rightarrow> nat set" where
  "indexed buckets = \<Union> (set ` set buckets)"

lemma indexed_mem: "r \<in> indexed buckets \<longleftrightarrow> (\<exists>i < length buckets. r \<in> set (buckets ! i))"
  by (auto simp: indexed_def set_conv_nth)

lemma index_sound_drop:
  assumes s: "index_sound msk ms buckets" and d: "distinct (refs ms)"
    and slot: "slot < length buckets" and r: "r \<in> set (buckets ! slot)"
  shows "index_sound msk ms (buckets[slot := remove1 r (buckets ! slot)])"
    "indexed (buckets[slot := remove1 r (buckets ! slot)]) = indexed buckets - {r}"
    "Suc (length (concat (buckets[slot := remove1 r (buckets ! slot)]))) = length (concat buckets)"
proof -
  have dist: "distinct (buckets ! slot)" using s slot by (simp add: index_sound_def)
  have set_b: "set (buckets[slot := remove1 r (buckets ! slot)] ! j) =
      (if j = slot then set (buckets ! slot) - {r} else set (buckets ! j))" if "j < length buckets" for j
    using slot that dist by (simp add: nth_list_update set_remove1_eq)
  have "distinct (buckets[slot := remove1 r (buckets ! slot)] ! j)" if "j < length buckets" for j
    using s slot that by (simp add: nth_list_update index_sound_def)
  then show "index_sound msk ms (buckets[slot := remove1 r (buckets ! slot)])"
    using s set_b by (simp add: index_sound_def)
  have other: "r \<notin> set (buckets ! j)" if "j < length buckets" "j \<noteq> slot" for j
    using index_sound_other [OF s that(1) slot _ r d] that(2) by blast
  show "indexed (buckets[slot := remove1 r (buckets ! slot)]) = indexed buckets - {r}"
  proof (rule set_eqI)
    fix x
    have "x \<in> indexed (buckets[slot := remove1 r (buckets ! slot)]) \<longleftrightarrow>
      (\<exists>j < length buckets. x \<in> (if j = slot then set (buckets ! slot) - {r} else set (buckets ! j)))"
      unfolding indexed_mem length_list_update using set_b by (intro ex_cong1 conj_cong refl) (simp only:)
    also have "\<dots> \<longleftrightarrow> (\<exists>j < length buckets. x \<in> set (buckets ! j) \<and> x \<noteq> r)"
      using other by (metis Diff_iff singletonD singletonI)
    finally show "x \<in> indexed (buckets[slot := remove1 r (buckets ! slot)]) \<longleftrightarrow> x \<in> indexed buckets - {r}"
      by (auto simp: indexed_mem)
  qed
  show "Suc (length (concat (buckets[slot := remove1 r (buckets ! slot)]))) = length (concat buckets)"
    using length_concat_update [OF slot, of "remove1 r (buckets ! slot)"] r
    by (cases "length (buckets ! slot)") (auto simp: length_remove1)
qed

lemma index_sound_clear:
  assumes s: "index_sound msk ms buckets" and r: "r \<notin> indexed buckets"
    and f: "\<And>m. m_ref (f m) = m_ref m"
  shows "index_sound msk (map (\<lambda>m. if m_ref m = r then f m else m) ms) buckets"
proof -
  have "entry_ok msk (map (\<lambda>m. if m_ref m = r then f m else m) ms) i x"
    if "i < length buckets" "x \<in> set (buckets ! i)" for i x
  proof -
    have "x \<noteq> r" using r that by (auto simp: indexed_mem)
    moreover have "entry_ok msk ms i x" using s that by (auto simp: index_sound_def)
    ultimately show ?thesis by (force simp: entry_ok_def)
  qed
  then show ?thesis using s by (auto simp: index_sound_def)
qed

lemma index_sound_filter:
  assumes s: "index_sound msk ms buckets" and r: "r \<notin> indexed buckets"
  shows "index_sound msk (filter (\<lambda>m. m_ref m \<noteq> r) ms) buckets"
proof -
  have "entry_ok msk (filter (\<lambda>m. m_ref m \<noteq> r) ms) i x"
    if "i < length buckets" "x \<in> set (buckets ! i)" for i x
  proof -
    have "x \<noteq> r" using r that by (auto simp: indexed_mem)
    moreover have "entry_ok msk ms i x" using s that by (auto simp: index_sound_def)
    ultimately show ?thesis by (force simp: entry_ok_def)
  qed
  then show ?thesis using s by (auto simp: index_sound_def)
qed

text \<open>An entry of the index sits in the bucket of its tag and nowhere else.\<close>

lemma indexed_slot:
  assumes "index_sound msk ms buckets" and "distinct (refs ms)" and "m \<in> set ms"
    and "m_ref m \<in> indexed buckets"
  shows "m_tag m \<noteq> 0" "buckets \<noteq> []" "m_ref m \<in> set (buckets ! tag_slot msk (m_tag m))"
proof -
  obtain i where i: "i < length buckets" "m_ref m \<in> set (buckets ! i)" using assms(4) by (auto simp: indexed_mem)
  then have "entry_ok msk ms i (m_ref m)" using assms(1) by (auto simp: index_sound_def)
  then obtain m' where "m' \<in> set ms" "m_ref m' = m_ref m" "m_tag m' \<noteq> 0" "tag_slot msk (m_tag m') = i"
    by (auto simp: entry_ok_def)
  moreover from this have "m' = m" using refs_inj [OF assms(2) _ assms(3)] by simp
  ultimately show "m_tag m \<noteq> 0" "buckets \<noteq> []" "m_ref m \<in> set (buckets ! tag_slot msk (m_tag m))"
    using i by auto
qed

lemma index_full_iff:
  assumes "index_sound msk ms buckets" and "distinct (refs ms)"
  shows "index_full msk ms buckets \<longleftrightarrow> (\<forall>m \<in> set ms. m_tag m \<noteq> 0 \<longrightarrow> m_ref m \<in> indexed buckets)"
proof
  assume f: "index_full msk ms buckets"
  show "\<forall>m \<in> set ms. m_tag m \<noteq> 0 \<longrightarrow> m_ref m \<in> indexed buckets"
  proof (intro ballI impI)
    fix m assume "m \<in> set ms" "m_tag m \<noteq> 0"
    with f have "buckets \<noteq> []" "m_ref m \<in> set (buckets ! tag_slot msk (m_tag m))"
      by (auto simp: index_full_def)
    with index_slot [OF assms(1)] show "m_ref m \<in> indexed buckets" by (auto simp: indexed_mem)
  qed
next
  assume "\<forall>m \<in> set ms. m_tag m \<noteq> 0 \<longrightarrow> m_ref m \<in> indexed buckets"
  then show "index_full msk ms buckets"
    using indexed_slot(2,3) [OF assms] by (auto simp: index_full_def)
qed

lemma tag_index_remove_spec:
  assumes s: "index_sound (q_tag_mask q) (q_msgs q) (q_tag_buckets q)"
    and c: "q_tag_count q = length (concat (q_tag_buckets q))"
    and d: "distinct (refs (q_msgs q))" and m: "m \<in> set (q_msgs q)"
  obtains b ms where
    "tag_index_remove q (m_ref m) = q\<lparr>q_msgs := ms, q_tag_buckets := b, q_tag_count := length (concat b)\<rparr>"
    "ms = (if q_tag_buckets q = [] then q_msgs q
           else map (\<lambda>x. if m_ref x = m_ref m then x\<lparr>m_tag := 0\<rparr> else x) (q_msgs q))"
    "index_sound (q_tag_mask q) ms b" "indexed b = indexed (q_tag_buckets q) - {m_ref m}"
    "b = [] \<longleftrightarrow> q_tag_buckets q = []"
proof -
  have f: "find_msg q (m_ref m) = Some m" using find_msg_mem [OF d m] .
  let ?slot = "tag_slot (q_tag_mask q) (m_tag m)"
  let ?clear = "map (\<lambda>x. if m_ref x = m_ref m then x\<lparr>m_tag := 0\<rparr> else x) (q_msgs q)"
  let ?b = "(q_tag_buckets q)[?slot := remove1 (m_ref m) (q_tag_buckets q ! ?slot)]"
  have idx: "m_ref m \<in> indexed (q_tag_buckets q) \<Longrightarrow> m_tag m \<noteq> 0 \<and> q_tag_buckets q \<noteq> [] \<and>
      m_ref m \<in> set (q_tag_buckets q ! ?slot)"
    using indexed_slot [OF s d m] by blast
  show thesis
  proof (cases "q_tag_buckets q = [] \<or> m_tag m = 0")
    case True
    then have "tag_index_remove q (m_ref m) = q" using f by (simp add: tag_index_remove_def)
    moreover have "m_ref m \<notin> indexed (q_tag_buckets q)" using True idx by auto
    moreover have "?clear = q_msgs q" if "q_tag_buckets q \<noteq> []"
    proof (rule map_idI)
      fix x assume "x \<in> set (q_msgs q)"
      then have "m_ref x = m_ref m \<Longrightarrow> x = m" using refs_inj [OF d _ m] by blast
      then show "(if m_ref x = m_ref m then x\<lparr>m_tag := 0\<rparr> else x) = x" using True that by (cases x) auto
    qed
    ultimately show thesis using s c by (intro that [of "q_tag_buckets q" "q_msgs q"]) simp_all
  next
    case False
    have slot: "?slot < length (q_tag_buckets q)" using index_slot [OF s] False by simp
    show thesis
    proof (cases "m_ref m \<in> set (q_tag_buckets q ! ?slot)")
      case True
      note dr = index_sound_drop [OF s d slot True]
      have cnt: "q_tag_count q - 1 = length (concat ?b)" using c dr(3) by simp
      have q': "tag_index_remove q (m_ref m) =
          q\<lparr>q_msgs := ?clear, q_tag_buckets := ?b, q_tag_count := length (concat ?b)\<rparr>"
        using f False True unfolding cnt [symmetric] by (simp add: tag_index_remove_def Let_def upd_msg_def)
      have "index_sound (q_tag_mask q) ?clear ?b"
        by (rule index_sound_clear [OF dr(1)]) (simp_all add: dr(2))
      then show thesis using False dr(2) by (intro that [OF q']) simp_all
    next
      case nin: False
      then have notidx: "m_ref m \<notin> indexed (q_tag_buckets q)" using idx by auto
      have q': "tag_index_remove q (m_ref m) =
          q\<lparr>q_msgs := ?clear, q_tag_buckets := q_tag_buckets q, q_tag_count := length (concat (q_tag_buckets q))\<rparr>"
        using f False nin c by (simp add: tag_index_remove_def Let_def upd_msg_def)
      have "index_sound (q_tag_mask q) ?clear (q_tag_buckets q)"
        by (rule index_sound_clear [OF s notidx]) simp
      then show thesis using False notidx by (intro that [OF q']) simp_all
    qed
  qed
qed

subsection \<open>Looking a tag up\<close>

text \<open>
  The interface of a delivery-tag index: whatever its representation, a lookup answers
  with the message that carries the tag.
\<close>

locale tag_lookup =
  fixes index_ok :: "'q \<Rightarrow> bool" and lookup :: "'q \<Rightarrow> u64 \<Rightarrow> message option" and msgs :: "'q \<Rightarrow> message list"
  assumes lookup_sound: "index_ok q \<Longrightarrow> lookup q tag = Some m \<Longrightarrow> m \<in> set (msgs q) \<and> m_tag m = tag \<and> tag \<noteq> 0"
    and lookup_full: "index_ok q \<Longrightarrow> m \<in> set (msgs q) \<Longrightarrow> m_tag m \<noteq> 0 \<Longrightarrow> lookup q (m_tag m) \<noteq> None"
    and tags_distinct: "index_ok q \<Longrightarrow> m \<in> set (msgs q) \<Longrightarrow> m' \<in> set (msgs q) \<Longrightarrow>
      m_tag m = m_tag m' \<Longrightarrow> m_tag m \<noteq> 0 \<Longrightarrow> m = m'"
begin

lemma lookup_linear: "index_ok q \<Longrightarrow> tag \<noteq> 0 \<Longrightarrow> lookup q tag = find (\<lambda>m. m_tag m = tag) (msgs q)"
proof (cases "find (\<lambda>m. m_tag m = tag) (msgs q)")
  case None
  assume ok: "index_ok q" and "tag \<noteq> 0"
  have "lookup q tag = None"
  proof (rule ccontr)
    assume "lookup q tag \<noteq> None"
    then obtain m where "lookup q tag = Some m" by blast
    from lookup_sound [OF ok this] None show False unfolding find_None_all by blast
  qed
  with None show ?thesis by simp
next
  case (Some m)
  assume ok: "index_ok q" and t: "tag \<noteq> 0"
  from Some have m: "m \<in> set (msgs q)" "m_tag m = tag" using find_Some_mem [of _ "msgs q" m] by auto
  have "lookup q tag \<noteq> None" using lookup_full [OF ok m(1)] m(2) t by simp
  then obtain m' where m': "lookup q tag = Some m'" by blast
  have "m' = m"
    using tags_distinct [OF ok _ m(1), of m'] lookup_sound [OF ok m'] m(2) by simp
  with m' Some show ?thesis by simp
qed

lemma lookup_unique:
  assumes ok: "index_ok q" and m: "m \<in> set (msgs q)" and t: "m_tag m \<noteq> 0"
  shows "lookup q (m_tag m) = Some m"
proof -
  obtain m' where m': "lookup q (m_tag m) = Some m'" using lookup_full [OF ok m t] by blast
  have "m' = m" using tags_distinct [OF ok _ m, of m'] lookup_sound [OF ok m'] t by simp
  with m' show ?thesis by simp
qed

end

lemma tag_find_sound:
  "tag_find q tag = Some m \<Longrightarrow> m \<in> set (q_msgs q) \<and> m_tag m = tag \<and> tag \<noteq> 0"
proof -
  assume t: "tag_find q tag = Some m"
  then obtain r where r: "find (\<lambda>r. case find_msg q r of None \<Rightarrow> False | Some m \<Rightarrow> m_tag m = tag)
      (q_tag_buckets q ! tag_slot (q_tag_mask q) tag) = Some r" "find_msg q r = Some m" "tag \<noteq> 0"
    by (auto simp: tag_find_def split: if_splits option.splits)
  then show ?thesis using find_Some_mem [OF r(1)] find_msg_Some [OF r(2)] by simp
qed

interpretation ti: tag_lookup queue_ok tag_find q_msgs
proof
  fix q m assume ok: "queue_ok q" and m: "m \<in> set (q_msgs q)" and t: "m_tag m \<noteq> 0"
  then have "m_ref m \<in> set (q_tag_buckets q ! tag_slot (q_tag_mask q) (m_tag m))" "q_tag_buckets q \<noteq> []"
    by (auto simp: queue_ok_def index_full_def)
  moreover have "find_msg q (m_ref m) = Some m"
    using ok m by (intro find_msg_mem) (simp_all add: queue_ok_def)
  ultimately show "tag_find q (m_tag m) \<noteq> None"
    using t by (auto simp: tag_find_def find_None_all split: option.splits dest!: find_Some_mem)
next
  fix q m m' assume "queue_ok q" "m \<in> set (q_msgs q)" "m' \<in> set (q_msgs q)" "m_tag m = m_tag m'" "m_tag m \<noteq> 0"
  then show "m = m'" unfolding queue_ok_def tags_ok_def by blast
qed (auto dest: tag_find_sound)

subsection \<open>Linking and removing\<close>

lemma tag_index_remove_frame [simp]:
  "q_lock_id (tag_index_remove q r) = q_lock_id q" "q_incarnation (tag_index_remove q r) = q_incarnation q"
  "q_name (tag_index_remove q r) = q_name q" "q_max_depth (tag_index_remove q r) = q_max_depth q"
  "q_depth (tag_index_remove q r) = q_depth q" "q_inflight (tag_index_remove q r) = q_inflight q"
  "q_revision (tag_index_remove q r) = q_revision q" "q_durable (tag_index_remove q r) = q_durable q"
  "q_deleted (tag_index_remove q r) = q_deleted q" "q_dlq_name (tag_index_remove q r) = q_dlq_name q"
  "q_max_deliveries (tag_index_remove q r) = q_max_deliveries q"
  "q_tag_mask (tag_index_remove q r) = q_tag_mask q" "q_live_bytes (tag_index_remove q r) = q_live_bytes q"
  "q_ttl_count (tag_index_remove q r) = q_ttl_count q"
  "q_earliest_visibility (tag_index_remove q r) = q_earliest_visibility q"
  "q_ready_hint (tag_index_remove q r) = q_ready_hint q"
  by (simp_all add: tag_index_remove_def Let_def split: option.split)

lemma tag_index_remove_msgs:
  "q_msgs (tag_index_remove q r) = map (\<lambda>m. if m_ref m = r \<and> q_tag_buckets q \<noteq> [] \<and>
      (\<exists>x. find_msg q r = Some x \<and> m_tag x \<noteq> 0) then m\<lparr>m_tag := 0\<rparr> else m) (q_msgs q)"
  by (auto simp: tag_index_remove_def Let_def split: option.split)

lemma filter_tag_index_remove [simp]:
  "filter (\<lambda>m. m_ref m \<noteq> r) (q_msgs (tag_index_remove q r)) = filter (\<lambda>m. m_ref m \<noteq> r) (q_msgs q)"
  unfolding tag_index_remove_msgs by (rule filter_upd_same) simp

lemma next_of_mem: "next_of ms r = Some x \<Longrightarrow> x \<in> set (refs ms)"
  by (induction ms) (auto split: if_splits dest: find_Some_mem)

lemma next_of_other: "distinct (refs ms) \<Longrightarrow> next_of ms r = Some x \<Longrightarrow> x \<noteq> r"
proof (induction ms)
  case (Cons m ms)
  then show ?case by (cases ms) (auto split: if_splits)
qed simp

lemma next_of_upd: "(\<And>m. m_ref (f m) = m_ref m) \<Longrightarrow> next_of (map f ms) r = next_of ms r"
  by (induction ms) (auto simp: find_map o_def option.map_comp)

lemma all_before_upd:
  "(\<And>m. m_ref (f m) = m_ref m) \<Longrightarrow> (\<And>m. P m \<Longrightarrow> P (f m)) \<Longrightarrow> all_before P ms h \<Longrightarrow> all_before P (map f ms) h"
  by (induction ms) auto

lemma all_before_filter:
  "all_before P ms h \<Longrightarrow> h \<noteq> Some r \<Longrightarrow> all_before P (filter (\<lambda>m. m_ref m \<noteq> r) ms) h"
  by (induction ms) auto

lemma all_before_next:
  "distinct (refs ms) \<Longrightarrow> all_before P ms (Some r) \<Longrightarrow> all_before P (filter (\<lambda>m. m_ref m \<noteq> r) ms) (next_of ms r)"
proof (induction ms)
  case (Cons m ms)
  show ?case
  proof (cases "m_ref m = r")
    case True
    then have "filter (\<lambda>m. m_ref m \<noteq> r) ms = ms"
      using Cons.prems(1) by (intro filter_True) (force simp: image_iff)
    with True show ?thesis by (cases ms) auto
  next
    case False
    then show ?thesis using Cons by auto
  qed
qed simp

lemma all_before_append_None: "all_before P ms None \<Longrightarrow> all_before P (ms @ [m]) (Some (m_ref m))"
  by (induction ms) auto

lemma all_before_append_Some: "all_before P ms (Some r) \<Longrightarrow> r \<in> set (refs ms) \<Longrightarrow> all_before P (ms @ ns) (Some r)"
  by (induction ms) auto

text \<open>What \<open>remove_message\<close> computes, in one equation.\<close>

lemma remove_message_eq:
  assumes "find_msg q r = Some m"
  shows "remove_message q r =
    (if m_tag m \<noteq> 0 then tag_index_remove q r else q)
      \<lparr>q_ready_hint := (if q_ready_hint q = Some r then next_of (q_msgs q) r else q_ready_hint q),
       q_msgs := filter (\<lambda>x. m_ref x \<noteq> r) (q_msgs q),
       q_inflight := (if m_state m = MESSAGE_INFLIGHT then q_inflight q - 1 else q_inflight q),
       q_ttl_count := (if m_expires m \<noteq> 0 then q_ttl_count q - 1 else q_ttl_count q),
       q_depth := q_depth q - 1,
       q_live_bytes := (if q_durable q then q_live_bytes q - ucast (m_footprint m) else q_live_bytes q),
       q_revision := q_revision q + 1\<rparr>"
proof -
  have nx: "next_of (q_msgs (tag_index_remove q r)) r = next_of (q_msgs q) r"
    unfolding tag_index_remove_msgs by (rule next_of_upd) simp
  show ?thesis
    unfolding remove_message_def assms option.case Let_def
    by (cases "m_tag m = 0") (simp_all only: nx if_True if_False simp_thms not_not filter_tag_index_remove
        tag_index_remove_frame)
qed

lemma remove_message_frame [simp]:
  "q_lock_id (remove_message q r) = q_lock_id q" "q_incarnation (remove_message q r) = q_incarnation q"
  "q_name (remove_message q r) = q_name q" "q_max_depth (remove_message q r) = q_max_depth q"
  "q_durable (remove_message q r) = q_durable q" "q_deleted (remove_message q r) = q_deleted q"
  "q_dlq_name (remove_message q r) = q_dlq_name q"
  "q_max_deliveries (remove_message q r) = q_max_deliveries q"
  "q_tag_mask (remove_message q r) = q_tag_mask q"
  "q_earliest_visibility (remove_message q r) = q_earliest_visibility q"
  by (simp_all add: remove_message_def Let_def split: option.split)

lemma remove_message_msgs [simp]:
  "q_msgs (remove_message q r) = filter (\<lambda>x. m_ref x \<noteq> r) (q_msgs q)"
proof (cases "find_msg q r")
  case None
  then have "filter (\<lambda>x. m_ref x \<noteq> r) (q_msgs q) = q_msgs q"
    by (intro filter_True) (auto simp: find_msg_None)
  with None show ?thesis by (simp add: remove_message_def)
qed (simp add: remove_message_eq)

lemma remove_message_sel:
  assumes "find_msg q r = Some m"
  shows "q_depth (remove_message q r) = q_depth q - 1"
    "q_inflight (remove_message q r) = (if m_state m = MESSAGE_INFLIGHT then q_inflight q - 1 else q_inflight q)"
    "q_ttl_count (remove_message q r) = (if m_expires m \<noteq> 0 then q_ttl_count q - 1 else q_ttl_count q)"
    "q_ready_hint (remove_message q r) =
       (if q_ready_hint q = Some r then next_of (q_msgs q) r else q_ready_hint q)"
    "q_tag_buckets (remove_message q r) =
       q_tag_buckets (if m_tag m \<noteq> 0 then tag_index_remove q r else q)"
    "q_tag_count (remove_message q r) = q_tag_count (if m_tag m \<noteq> 0 then tag_index_remove q r else q)"
  by (simp_all add: remove_message_eq [OF assms])

lemma queue_ok_remove:
  assumes ok: "queue_ok q"
  shows "queue_ok (remove_message q r)"
proof (cases "find_msg q r")
  case None
  with ok show ?thesis by (simp add: remove_message_def)
next
  case (Some m)
  note mem = find_msg_Some [OF Some]
  have d: "distinct (refs (q_msgs q))" and s: "index_sound (q_tag_mask q) (q_msgs q) (q_tag_buckets q)"
    and c: "q_tag_count q = length (concat (q_tag_buckets q))"
    using ok by (simp_all add: queue_ok_def)
  let ?ms = "filter (\<lambda>x. m_ref x \<noteq> r) (q_msgs q)" and ?q1 = "if m_tag m \<noteq> 0 then tag_index_remove q r else q"
  have full: "\<forall>x \<in> set (q_msgs q). m_tag x \<noteq> 0 \<longrightarrow> m_ref x \<in> indexed (q_tag_buckets q)"
    using ok index_full_iff [OF s d] by (simp add: queue_ok_def)
  have ix: "index_sound (q_tag_mask q) ?ms (q_tag_buckets ?q1) \<and>
      q_tag_count ?q1 = length (concat (q_tag_buckets ?q1)) \<and>
      indexed (q_tag_buckets ?q1) = indexed (q_tag_buckets q) - {r}"
  proof (cases "m_tag m = 0")
    case True
    then have "r \<notin> indexed (q_tag_buckets q)" using indexed_slot(1) [OF s d] mem by blast
    with True s c show ?thesis by (simp add: index_sound_filter)
  next
    case False
    have m: "m \<in> set (q_msgs q)" using mem by simp
    obtain b ms where t: "tag_index_remove q (m_ref m) = q\<lparr>q_msgs := ms, q_tag_buckets := b, q_tag_count := length (concat b)\<rparr>"
      and "ms = (if q_tag_buckets q = [] then q_msgs q
           else map (\<lambda>x. if m_ref x = m_ref m then x\<lparr>m_tag := 0\<rparr> else x) (q_msgs q))"
      and sb: "index_sound (q_tag_mask q) ms b" and ib: "indexed b = indexed (q_tag_buckets q) - {m_ref m}"
      and "b = [] \<longleftrightarrow> q_tag_buckets q = []"
      by (rule tag_index_remove_spec [OF s c d m])
    have "q_msgs (tag_index_remove q r) = ms" using t mem by simp
    then have "filter (\<lambda>x. m_ref x \<noteq> r) ms = ?ms"
      using filter_tag_index_remove [of r q] by (simp only:)
    then show ?thesis using index_sound_filter [OF sb, of r] ib t mem False by simp
  qed
  have cnt: "inflight_total ?ms = (if m_state m = MESSAGE_INFLIGHT then q_inflight q - 1 else q_inflight q)"
    "ttl_total ?ms = (if m_expires m \<noteq> 0 then q_ttl_count q - 1 else q_ttl_count q)"
    "length ?ms = q_depth q - 1"
  proof -
    have "m \<in> set (q_msgs q)" "m_ref m = r" using mem by simp_all
    note lf = length_filter_remove [OF d this(1), unfolded this(2)] and lr = length_remove [OF d this(1), unfolded this(2)]
    have q: "q_inflight q = inflight_total (q_msgs q)" "q_ttl_count q = ttl_total (q_msgs q)"
      "q_depth q = length (q_msgs q)" using ok by (simp_all add: queue_ok_def)
    show "inflight_total ?ms = (if m_state m = MESSAGE_INFLIGHT then q_inflight q - 1 else q_inflight q)"
      using lf [of "\<lambda>m. m_state m = MESSAGE_INFLIGHT"] unfolding q inflight_total_def by (cases "m_state m = MESSAGE_INFLIGHT") simp_all
    show "ttl_total ?ms = (if m_expires m \<noteq> 0 then q_ttl_count q - 1 else q_ttl_count q)"
      using lf [of "\<lambda>m. m_expires m \<noteq> 0"] unfolding q ttl_total_def by (cases "m_expires m = 0") simp_all
    show "length ?ms = q_depth q - 1" using lr q(3) by simp
  qed
  have hint: "x \<in> set (refs ?ms)"
    if "(if q_ready_hint q = Some r then next_of (q_msgs q) r else q_ready_hint q) = Some x" for x
  proof -
    have "x \<in> set (refs (q_msgs q))" "x \<noteq> r"
      using that ok next_of_mem next_of_other [OF d] by (auto simp: queue_ok_def split: if_splits)
    then show ?thesis by auto
  qed
  have "leases_ok q" using ok by (simp add: queue_ok_def)
  then have "leases_ok (remove_message q r)" by (simp add: leases_ok_def)
  moreover have dms: "distinct (refs ?ms)" using d by (rule distinct_map_filter)
  moreover have "index_full (q_tag_mask q) ?ms (q_tag_buckets ?q1)"
  proof -
    have "\<forall>x \<in> set ?ms. m_tag x \<noteq> 0 \<longrightarrow> m_ref x \<in> indexed (q_tag_buckets q) - {r}" using full by simp
    then show ?thesis using ix index_full_iff [OF conjunct1 [OF ix] dms] by (simp only:)
  qed
  moreover have "tags_ok (q_msgs q)" using ok by (simp add: queue_ok_def)
  then have "tags_ok ?ms" by (rule tags_ok_subset) simp
  ultimately show ?thesis
    using ix cnt hint by (simp only: queue_ok_def remove_message_msgs remove_message_frame
        remove_message_sel [OF Some]) simp
qed

lemma hint_tight_remove:
  assumes "queue_ok q" and t: "hint_tight q"
  shows "hint_tight (remove_message q r)"
proof (cases "find_msg q r")
  case None
  with t show ?thesis by (simp add: remove_message_def)
next
  case (Some m)
  have d: "distinct (refs (q_msgs q))" using assms(1) by (simp add: queue_ok_def)
  show ?thesis
  proof (cases "q_ready_hint q = Some r")
    case True
    then show ?thesis using t Some all_before_next [OF d] by (simp add: hint_tight_def remove_message_eq)
  next
    case False
    then show ?thesis using t Some all_before_filter by (simp add: hint_tight_def remove_message_eq)
  qed
qed

lemma message_link_frame [simp]:
  "q_lock_id (message_link q m) = q_lock_id q" "q_incarnation (message_link q m) = q_incarnation q"
  "q_name (message_link q m) = q_name q" "q_max_depth (message_link q m) = q_max_depth q"
  "q_inflight (message_link q m) = q_inflight q"
  "q_durable (message_link q m) = q_durable q" "q_deleted (message_link q m) = q_deleted q"
  "q_dlq_name (message_link q m) = q_dlq_name q"
  "q_max_deliveries (message_link q m) = q_max_deliveries q"
  "q_tag_mask (message_link q m) = q_tag_mask q" "q_tag_buckets (message_link q m) = q_tag_buckets q"
  "q_tag_count (message_link q m) = q_tag_count q"
  "q_earliest_visibility (message_link q m) = q_earliest_visibility q"
  "q_depth (message_link q m) = Suc (q_depth q)"
  by (simp_all add: message_link_def Let_def)

definition linked_message :: "queue \<Rightarrow> message \<Rightarrow> message" where
  "linked_message q m =
     (if q_durable q
      then m\<lparr>m_footprint := word_of_nat (LOG_HEADER + length (q_name q) + length (m_data m))\<rparr> else m)"

lemma linked_message_simps [simp]:
  "m_ref (linked_message q m) = m_ref m" "m_id (linked_message q m) = m_id m"
  "m_tag (linked_message q m) = m_tag m" "m_owner (linked_message q m) = m_owner m"
  "m_expires (linked_message q m) = m_expires m" "m_sched (linked_message q m) = m_sched m"
  "m_deliveries (linked_message q m) = m_deliveries m" "m_state (linked_message q m) = m_state m"
  "m_data (linked_message q m) = m_data m"
  by (simp_all add: linked_message_def)

lemma message_link_msgs [simp]: "q_msgs (message_link q m) = q_msgs q @ [linked_message q m]"
  by (simp add: message_link_def linked_message_def Let_def)

lemma index_sound_append: "index_sound msk ms buckets \<Longrightarrow> index_sound msk (ms @ ns) buckets"
  by (fastforce simp: index_sound_def entry_ok_def)

lemma queue_ok_link:
  assumes ok: "queue_ok q" and new: "m_ref m \<notin> set (refs (q_msgs q))"
    and fresh: "m_state m = MESSAGE_READY" "m_tag m = 0"
  shows "queue_ok (message_link q m)"
proof -
  let ?m = "linked_message q m"
  have "leases_ok q" using ok by (simp add: queue_ok_def)
  then have "leases_ok (message_link q m)" using fresh by (auto simp: leases_ok_def)
  moreover have "index_sound (q_tag_mask q) (q_msgs q @ [?m]) (q_tag_buckets q)"
    "index_full (q_tag_mask q) (q_msgs q @ [?m]) (q_tag_buckets q)" "tags_ok (q_msgs q @ [?m])"
    using ok fresh by (auto simp: queue_ok_def index_sound_append index_full_def tags_ok_def)
  moreover have "inflight_total (q_msgs q @ [?m]) = q_inflight q"
    "ttl_total (q_msgs q @ [?m]) = q_ttl_count (message_link q m)"
    using ok fresh by (simp_all add: queue_ok_def inflight_total_def ttl_total_def message_link_def)
  moreover have "x \<in> set (refs (q_msgs q @ [?m]))" if "q_ready_hint (message_link q m) = Some x" for x
    using ok that by (auto simp: queue_ok_def message_link_def split: if_splits)
  moreover have "distinct (refs (q_msgs q @ [?m]))" "q_depth q = length (q_msgs q)"
    "q_tag_count q = length (concat (q_tag_buckets q))"
    using ok new by (simp_all add: queue_ok_def)
  ultimately show ?thesis by (simp add: queue_ok_def)
qed

lemma hint_tight_link:
  assumes "queue_ok q" and "hint_tight q" and "m_state m = MESSAGE_READY"
  shows "hint_tight (message_link q m)"
proof (cases "q_ready_hint q")
  case None
  then show ?thesis using assms(2) all_before_append_None [of _ "q_msgs q" "linked_message q m"]
    by (simp add: hint_tight_def) (simp add: message_link_def Let_def)
next
  case (Some r)
  then have "r \<in> set (refs (q_msgs q))" using assms(1) by (simp add: queue_ok_def)
  then show ?thesis using Some assms(2) all_before_append_Some [of _ "q_msgs q" r "[linked_message q m]"]
    by (simp add: hint_tight_def) (simp add: message_link_def Let_def)
qed

subsection \<open>Requeueing and delivering\<close>

lemma queue_ok_mem:
  "queue_ok q \<Longrightarrow> r \<in> set (refs (q_msgs q)) \<Longrightarrow> \<exists>m \<in> set (q_msgs q). m_ref m = r \<and> find_msg q r = Some m"
  using find_msg_mem [of q] by (auto simp: queue_ok_def)

lemma head_ref_mem: "head_ref q = Some r \<Longrightarrow> r \<in> set (refs (q_msgs q))"
  by (cases "q_msgs q") (auto simp: head_ref_def)

lemma head_ref_all_before: "all_before P (q_msgs q) (head_ref q)"
  by (cases "q_msgs q") (auto simp: head_ref_def)

lemma charge_frame [simp]:
  "q_lock_id (charge_message q r) = q_lock_id q" "q_incarnation (charge_message q r) = q_incarnation q"
  "q_name (charge_message q r) = q_name q" "q_max_depth (charge_message q r) = q_max_depth q"
  "q_depth (charge_message q r) = q_depth q" "q_inflight (charge_message q r) = q_inflight q"
  "q_revision (charge_message q r) = q_revision q" "q_durable (charge_message q r) = q_durable q"
  "q_deleted (charge_message q r) = q_deleted q" "q_dlq_name (charge_message q r) = q_dlq_name q"
  "q_max_deliveries (charge_message q r) = q_max_deliveries q"
  "q_tag_buckets (charge_message q r) = q_tag_buckets q" "q_tag_mask (charge_message q r) = q_tag_mask q"
  "q_tag_count (charge_message q r) = q_tag_count q" "q_ttl_count (charge_message q r) = q_ttl_count q"
  "q_earliest_visibility (charge_message q r) = q_earliest_visibility q"
  "q_ready_hint (charge_message q r) = q_ready_hint q"
  by (simp_all add: charge_message_def)

text \<open>
  A change of one message that keeps its identity, tag and timing keeps the invariant;
  charging is of that kind.
\<close>

definition charged :: "queue \<Rightarrow> nat \<Rightarrow> message \<Rightarrow> message" where
  "charged q r m = (if m_ref m = r \<and> q_durable q
     then m\<lparr>m_footprint := m_footprint m + word_of_nat (LOG_HEADER + length (q_name q))\<rparr> else m)"

lemma charged_simps [simp]:
  "m_ref (charged q r m) = m_ref m" "m_id (charged q r m) = m_id m" "m_tag (charged q r m) = m_tag m"
  "m_owner (charged q r m) = m_owner m" "m_expires (charged q r m) = m_expires m"
  "m_sched (charged q r m) = m_sched m" "m_deliveries (charged q r m) = m_deliveries m"
  "m_state (charged q r m) = m_state m" "m_data (charged q r m) = m_data m"
  by (simp_all add: charged_def)

lemma charge_msgs [simp]: "q_msgs (charge_message q r) = map (charged q r) (q_msgs q)"
  by (cases "q_durable q") (simp_all add: charge_message_def charged_def cong: map_cong)

lemma refs_map_same [simp]: "(\<And>m. m_ref (f m) = m_ref m) \<Longrightarrow> refs (map f ms) = refs ms"
  by simp

lemma index_sound_map:
  "(\<And>m. m_ref (f m) = m_ref m) \<Longrightarrow> (\<And>m. m_tag (f m) = m_tag m) \<Longrightarrow>
   index_sound msk ms b \<Longrightarrow> index_sound msk (map f ms) b"
  by (fastforce simp: index_sound_def entry_ok_def)

lemma queue_ok_charge:
  assumes ok: "queue_ok q"
  shows "queue_ok (charge_message q r)"
proof -
  have d: "distinct (refs (q_msgs q))" using ok by (simp add: queue_ok_def)
  have "tags_ok (map (charged q r) (q_msgs q))"
    using ok unfolding queue_ok_def tags_ok_def by auto
  moreover have "index_full (q_tag_mask q) (map (charged q r) (q_msgs q)) (q_tag_buckets q)"
    using ok by (simp add: queue_ok_def index_full_def)
  moreover have "inflight_total (map (charged q r) (q_msgs q)) = inflight_total (q_msgs q)"
    "ttl_total (map (charged q r) (q_msgs q)) = ttl_total (q_msgs q)"
    by (simp_all add: inflight_total_def ttl_total_def filter_map o_def)
  moreover have "leases_ok (charge_message q r)"
    using ok by (simp add: queue_ok_def leases_ok_def)
  moreover have "refs (map (charged q r) (q_msgs q)) = refs (q_msgs q)" by simp
  ultimately show ?thesis
    using ok by (simp only: queue_ok_def charge_frame charge_msgs) (simp add: index_sound_map)
qed

lemma all_before_charge: "all_before (\<lambda>m. m_state m = s) (map (charged q r) ms) h = all_before (\<lambda>m. m_state m = s) ms h"
  by (induction ms) auto

lemma hint_tight_charge: "hint_tight (charge_message q r) = hint_tight q"
  by (simp add: hint_tight_def all_before_charge)

text \<open>Requeueing, in one equation.\<close>

definition readied :: "nat \<Rightarrow> u64 \<Rightarrow> message \<Rightarrow> message" where
  "readied r nb m = (if m_ref m = r
     then m\<lparr>m_state := MESSAGE_READY, m_sched := nb, m_owner := 0, m_tag := 0\<rparr> else m)"

lemma readied_simps [simp]:
  "m_ref (readied r nb m) = m_ref m" "m_id (readied r nb m) = m_id m"
  "m_expires (readied r nb m) = m_expires m" "m_deliveries (readied r nb m) = m_deliveries m"
  "m_data (readied r nb m) = m_data m" "m_footprint (readied r nb m) = m_footprint m"
  by (simp_all add: readied_def)

lemma requeue_frame [simp]:
  "q_lock_id (requeue_message q r nb) = q_lock_id q" "q_incarnation (requeue_message q r nb) = q_incarnation q"
  "q_name (requeue_message q r nb) = q_name q" "q_max_depth (requeue_message q r nb) = q_max_depth q"
  "q_depth (requeue_message q r nb) = q_depth q" "q_revision (requeue_message q r nb) = q_revision q"
  "q_durable (requeue_message q r nb) = q_durable q" "q_deleted (requeue_message q r nb) = q_deleted q"
  "q_dlq_name (requeue_message q r nb) = q_dlq_name q"
  "q_max_deliveries (requeue_message q r nb) = q_max_deliveries q"
  "q_tag_mask (requeue_message q r nb) = q_tag_mask q" "q_ttl_count (requeue_message q r nb) = q_ttl_count q"
  "q_live_bytes (requeue_message q r nb) = q_live_bytes q"
  "q_earliest_visibility (requeue_message q r nb) = q_earliest_visibility q"
  "q_inflight (requeue_message q r nb) = q_inflight q - 1"
  "q_tag_buckets (requeue_message q r nb) = q_tag_buckets (tag_index_remove q r)"
  "q_tag_count (requeue_message q r nb) = q_tag_count (tag_index_remove q r)"
  "q_ready_hint (requeue_message q r nb) = head_ref (tag_index_remove q r)"
  by (simp_all add: requeue_message_def Let_def)

lemma queue_ok_tagged:
  "queue_ok q \<Longrightarrow> m \<in> set (q_msgs q) \<Longrightarrow> m_state m = MESSAGE_INFLIGHT \<Longrightarrow>
     m_tag m \<noteq> 0 \<and> q_tag_buckets q \<noteq> []"
  by (auto simp: queue_ok_def tags_ok_def index_full_def)

lemma requeue_msgs:
  assumes "queue_ok q" and f: "find_msg q r = Some m" and "m_state m = MESSAGE_INFLIGHT"
  shows "q_msgs (requeue_message q r nb) = map (readied r nb) (q_msgs q)"
proof -
  have "m_tag m \<noteq> 0" "q_tag_buckets q \<noteq> []"
    using queue_ok_tagged [OF assms(1) _ assms(3)] find_msg_Some [OF f] by simp_all
  then show ?thesis
    using f by (simp add: requeue_message_def Let_def tag_index_remove_msgs readied_def)
qed

lemma head_ref_map: "(\<And>m. m_ref (f m) = m_ref m) \<Longrightarrow> head_ref (q\<lparr>q_msgs := map f (q_msgs q)\<rparr>) = head_ref q"
  by (simp add: head_ref_def find_map o_def option.map_comp)

lemma head_ref_tag_index_remove [simp]: "head_ref (tag_index_remove q r) = head_ref q"
  by (cases "q_msgs q") (simp_all add: head_ref_def tag_index_remove_msgs)

lemma queue_ok_requeue:
  assumes ok: "queue_ok q" and f: "find_msg q r = Some m" and st: "m_state m = MESSAGE_INFLIGHT"
  shows "queue_ok (requeue_message q r nb)"
proof -
  let ?ms = "map (readied r nb) (q_msgs q)" and ?q = "requeue_message q r nb"
  have m: "m \<in> set (q_msgs q)" "m_ref m = r" using find_msg_Some [OF f] by simp_all
  have d: "distinct (refs (q_msgs q))" and s: "index_sound (q_tag_mask q) (q_msgs q) (q_tag_buckets q)"
    and c: "q_tag_count q = length (concat (q_tag_buckets q))"
    and fl: "index_full (q_tag_mask q) (q_msgs q) (q_tag_buckets q)"
    and tg: "tags_ok (q_msgs q)"
    using ok by (simp_all add: queue_ok_def)
  have bk: "m_tag m \<noteq> 0" "q_tag_buckets q \<noteq> []" using queue_ok_tagged [OF ok m(1) st] by simp_all
  note msgs = requeue_msgs [OF ok f st, of nb]
  obtain b ms where t: "tag_index_remove q (m_ref m) = q\<lparr>q_msgs := ms, q_tag_buckets := b, q_tag_count := length (concat b)\<rparr>"
    and ms: "ms = (if q_tag_buckets q = [] then q_msgs q
         else map (\<lambda>x. if m_ref x = m_ref m then x\<lparr>m_tag := 0\<rparr> else x) (q_msgs q))"
    and sb: "index_sound (q_tag_mask q) ms b" and ib: "indexed b = indexed (q_tag_buckets q) - {m_ref m}"
    and "b = [] \<longleftrightarrow> q_tag_buckets q = []"
    by (rule tag_index_remove_spec [OF s c d m(1)])
  have q: "q_tag_buckets ?q = b" "q_tag_count ?q = length (concat b)" using t m(2) by simp_all
  have eq: "?ms = map (\<lambda>x. if m_ref x = r then readied r nb x else x) ms"
    using bk m(2) by (simp add: ms readied_def)
  have sound: "index_sound (q_tag_mask q) ?ms b"
    unfolding eq by (rule index_sound_clear [OF sb]) (simp_all add: ib m(2))
  have dms: "distinct (refs ?ms)" using d by (simp add: o_def)
  have full: "index_full (q_tag_mask q) ?ms b"
  proof -
    have "\<forall>x \<in> set (q_msgs q). m_tag x \<noteq> 0 \<longrightarrow> m_ref x \<in> indexed (q_tag_buckets q)"
      using fl index_full_iff [OF s d] by simp
    then have "\<forall>x \<in> set ?ms. m_tag x \<noteq> 0 \<longrightarrow> m_ref x \<in> indexed b"
      unfolding ib m(2) by (auto simp: readied_def)
    then show ?thesis using index_full_iff [OF sound dms] by simp
  qed
  have upd: "?ms = map (\<lambda>x. if m_ref x = m_ref m then readied r nb x else x) (q_msgs q)"
    using m(2) by (simp add: readied_def)
  have "Suc (inflight_total ?ms) = inflight_total (q_msgs q)"
    using length_filter_upd [OF d m(1), of "\<lambda>m. m_state m = MESSAGE_INFLIGHT" "readied r nb"] st m(2)
    unfolding upd inflight_total_def by (simp add: readied_def)
  then have infl: "q_inflight q - 1 = inflight_total ?ms" using ok by (simp add: queue_ok_def)
  have ttl: "q_ttl_count q = ttl_total ?ms"
    using ok by (simp add: queue_ok_def ttl_total_def filter_map o_def)
  have tags: "tags_ok ?ms"
    using tg unfolding tags_ok_def by (auto simp: readied_def)
  have leases: "leases_ok ?q"
    using ok unfolding leases_ok_def msgs by (auto simp: queue_ok_def leases_ok_def readied_def)
  show ?thesis
    unfolding queue_ok_def msgs requeue_frame q [unfolded requeue_frame]
    using dms sound full infl ttl tags leases ok head_ref_mem [of q] by (simp add: queue_ok_def)
qed

lemma hint_tight_requeue: "hint_tight (requeue_message q r nb)"
proof -
  have "head_ref (tag_index_remove q r) = head_ref (requeue_message q r nb)"
    by (cases "q_msgs (tag_index_remove q r)") (simp_all add: requeue_message_def Let_def head_ref_def)
  then show ?thesis using head_ref_all_before [of _ "requeue_message q r nb"] by (simp add: hint_tight_def)
qed

text \<open>Delivery.\<close>

definition leased :: "nat \<Rightarrow> u64 \<Rightarrow> u64 \<Rightarrow> u64 \<Rightarrow> message \<Rightarrow> message" where
  "leased r deadline owner tag m = (if m_ref m = r
     then m\<lparr>m_state := MESSAGE_INFLIGHT, m_sched := deadline, m_deliveries := m_deliveries m + 1,
            m_owner := owner, m_tag := tag\<rparr> else m)"

lemma leased_simps [simp]:
  "m_ref (leased r dl ow tg m) = m_ref m" "m_id (leased r dl ow tg m) = m_id m"
  "m_expires (leased r dl ow tg m) = m_expires m" "m_data (leased r dl ow tg m) = m_data m"
  "m_footprint (leased r dl ow tg m) = m_footprint m"
  by (simp_all add: leased_def)

definition with_lease :: "queue \<Rightarrow> nat \<Rightarrow> u64 \<Rightarrow> u64 \<Rightarrow> u64 \<Rightarrow> queue" where
  "with_lease q r deadline owner tag =
     q\<lparr>q_msgs := map (leased r deadline owner tag) (q_msgs q), q_revision := q_revision q + 1,
       q_earliest_visibility := (if deadline < q_earliest_visibility q then deadline
                                 else q_earliest_visibility q)\<rparr>"

lemma deliver_message_eq:
  "deliver_message mem q r dl ow tg =
     (let q2 = tag_index_insert mem (with_lease q r dl ow tg) r
      in charge_message (q2\<lparr>q_inflight := Suc (q_inflight q2)\<rparr>) r)"
  unfolding deliver_message_def with_lease_def upd_msg_def leased_def [abs_def] Let_def by simp

lemma with_lease_sel [simp]:
  "q_msgs (with_lease q r dl ow tg) = map (leased r dl ow tg) (q_msgs q)"
  "q_tag_mask (with_lease q r dl ow tg) = q_tag_mask q"
  "q_tag_buckets (with_lease q r dl ow tg) = q_tag_buckets q"
  "q_tag_count (with_lease q r dl ow tg) = q_tag_count q"
  by (simp_all add: with_lease_def)

lemma tags_ok_leased:
  assumes tg: "tags_ok ms" and d: "distinct (refs ms)" and tag: "tg \<noteq> 0" "\<forall>x \<in> set ms. m_tag x \<noteq> tg"
  shows "tags_ok (map (leased r dl ow tg) ms)"
proof -
  let ?l = "leased r dl ow tg"
  have "?l x = ?l y" if "x \<in> set ms" "y \<in> set ms" "m_tag (?l x) = m_tag (?l y)" "m_tag (?l x) \<noteq> 0" for x y
  proof (cases "m_ref x = r")
    case True
    then have "m_tag (?l y) = tg" using that(3) by (simp add: leased_def)
    then have "m_ref y = r" using tag that(2) by (auto simp: leased_def split: if_splits)
    then have "x = y" using refs_inj [OF d that(1,2)] True by simp
    then show ?thesis by simp
  next
    case False
    then have "m_tag x = m_tag (?l y)" "m_tag x \<noteq> 0" using that(3,4) by (simp_all add: leased_def)
    moreover have "m_ref y \<noteq> r" using calculation tag(2) that(1) by (auto simp: leased_def)
    ultimately have "m_tag x = m_tag y" "m_tag x \<noteq> 0" by (simp_all add: leased_def)
    then have "x = y" using tg that(1,2) unfolding tags_ok_def by blast
    then show ?thesis by simp
  qed
  moreover have "m_tag (?l x) \<noteq> 0 \<longleftrightarrow> m_state (?l x) = MESSAGE_INFLIGHT" if "x \<in> set ms" for x
    using tg tag(1) that by (simp add: leased_def tags_ok_def)
  ultimately show ?thesis unfolding tags_ok_def set_map by blast
qed

lemma deliver_index:
  assumes ok: "queue_ok q" and m: "m \<in> set (q_msgs q)" and st: "m_state m = MESSAGE_READY" and tag: "tg \<noteq> 0"
  obtains b k where
    "tag_index_insert True (with_lease q (m_ref m) dl ow tg) (m_ref m) =
       (with_lease q (m_ref m) dl ow tg)\<lparr>q_tag_buckets := b, q_tag_mask := k, q_tag_count := length (concat b)\<rparr>"
    "index_sound k (map (leased (m_ref m) dl ow tg) (q_msgs q)) b"
    "index_full k (map (leased (m_ref m) dl ow tg) (q_msgs q)) b"
proof -
  let ?r = "m_ref m"
  let ?ms = "map (leased ?r dl ow tg) (q_msgs q)" and ?q = "with_lease q ?r dl ow tg"
  have d: "distinct (refs (q_msgs q))" and s: "index_sound (q_tag_mask q) (q_msgs q) (q_tag_buckets q)"
    and c: "q_tag_count q = length (concat (q_tag_buckets q))"
    and fl: "index_full (q_tag_mask q) (q_msgs q) (q_tag_buckets q)"
    and "tags_ok (q_msgs q)"
    using ok by (simp_all add: queue_ok_def)
  then have m0: "m_tag m = 0" using m st by (auto simp: tags_ok_def)
  have nidx: "?r \<notin> indexed (q_tag_buckets q)" using indexed_slot(1) [OF s d m] m0 by blast
  have upd: "?ms = map (\<lambda>x. if m_ref x = ?r then leased ?r dl ow tg x else x) (q_msgs q)"
    by (simp add: leased_def)
  have sound: "index_sound (q_tag_mask q) ?ms (q_tag_buckets q)"
    unfolding upd by (rule index_sound_clear [OF s nidx]) simp
  have dms: "distinct (refs ?ms)" using d by (simp add: o_def)
  let ?m = "leased ?r dl ow tg m"
  have lm: "?m \<in> set ?ms" "m_ref ?m = ?r" "m_tag ?m = tg" using m by (auto simp: leased_def)
  have fresh: "\<forall>b \<in> set (q_tag_buckets ?q). m_ref ?m \<notin> set b" using nidx lm(2) by (auto simp: indexed_def)
  have others: "\<forall>x \<in> set (q_msgs ?q). x \<noteq> ?m \<and> m_tag x \<noteq> 0 \<longrightarrow> q_tag_buckets ?q \<noteq> [] \<and>
      m_ref x \<in> set (q_tag_buckets ?q ! tag_slot (q_tag_mask ?q) (m_tag x))"
  proof (intro ballI impI)
    fix x assume x: "x \<in> set (q_msgs ?q)" "x \<noteq> ?m \<and> m_tag x \<noteq> 0"
    have "m_ref x \<noteq> ?r" using refs_inj [OF dms _ lm(1), of x] x lm(2) by auto
    then have "x \<in> set (q_msgs q)" using x(1) by (auto simp: leased_def split: if_splits)
    then show "q_tag_buckets ?q \<noteq> [] \<and> m_ref x \<in> set (q_tag_buckets ?q ! tag_slot (q_tag_mask ?q) (m_tag x))"
      using fl x(2) by (simp add: index_full_def)
  qed
  have pre: "index_sound (q_tag_mask ?q) (q_msgs ?q) (q_tag_buckets ?q)"
    "q_tag_count ?q = length (concat (q_tag_buckets ?q))" "distinct (refs (q_msgs ?q))"
    "?m \<in> set (q_msgs ?q)" "m_tag ?m \<noteq> 0"
    using sound c dms lm(1,3) tag by (simp_all only: with_lease_sel simp_thms)
  obtain b k where t: "tag_index_insert True ?q (m_ref ?m) =
        ?q\<lparr>q_tag_buckets := b, q_tag_mask := k, q_tag_count := length (concat b)\<rparr>"
    and bs: "index_sound k (q_msgs ?q) b"
    and bf: "True \<and> (\<forall>x \<in> set (q_msgs ?q). x \<noteq> ?m \<and> m_tag x \<noteq> 0 \<longrightarrow> q_tag_buckets ?q \<noteq> [] \<and>
        m_ref x \<in> set (q_tag_buckets ?q ! tag_slot (q_tag_mask ?q) (m_tag x))) \<longrightarrow>
      index_full k (q_msgs ?q) b"
    by (rule tag_index_insert_spec [of ?q ?m True, OF pre fresh])
  show thesis by (rule that [OF t [unfolded lm(2)] bs [unfolded with_lease_sel] mp [OF bf conjI [OF TrueI others], unfolded with_lease_sel]])
qed

lemma queue_ok_deliver:
  assumes ok: "queue_ok q" and f: "find_msg q r = Some m" and st: "m_state m = MESSAGE_READY"
    and tag: "tg \<noteq> 0" "\<forall>x \<in> set (q_msgs q). m_tag x \<noteq> tg"
  shows "queue_ok (deliver_message True q r dl ow tg)"
proof -
  have m: "m \<in> set (q_msgs q)" "m_ref m = r" using find_msg_Some [OF f] by simp_all
  let ?ms = "map (leased r dl ow tg) (q_msgs q)" and ?q = "with_lease q r dl ow tg"
  obtain b k where t: "tag_index_insert True ?q r =
       ?q\<lparr>q_tag_buckets := b, q_tag_mask := k, q_tag_count := length (concat b)\<rparr>"
    and bs: "index_sound k ?ms b" and bf: "index_full k ?ms b"
    by (rule deliver_index [OF ok m(1) st tag(1), unfolded m(2)])
  have d: "distinct (refs (q_msgs q))" using ok by (simp add: queue_ok_def)
  then have dms: "distinct (refs ?ms)" by (simp add: o_def)
  have upd: "?ms = map (\<lambda>x. if m_ref x = m_ref m then leased r dl ow tg x else x) (q_msgs q)"
    using m(2) by (simp add: leased_def)
  have infl: "Suc (q_inflight q) = inflight_total ?ms"
    using length_filter_upd [OF d m(1), of "\<lambda>m. m_state m = MESSAGE_INFLIGHT" "leased r dl ow tg"] st m(2) ok
    unfolding upd inflight_total_def by (simp add: leased_def queue_ok_def inflight_total_def)
  have ttl: "q_ttl_count q = ttl_total ?ms"
    using ok by (simp add: queue_ok_def ttl_total_def filter_map o_def)
  have tags: "tags_ok ?ms" using ok d tag by (intro tags_ok_leased) (simp_all add: queue_ok_def)
  have "leases_ok q" using ok by (simp add: queue_ok_def)
  then have leases: "leases_ok ?q"
    unfolding leases_ok_def with_lease_def by (auto simp: leased_def)
  let ?q' = "?q\<lparr>q_tag_buckets := b, q_tag_mask := k, q_tag_count := length (concat b), q_inflight := Suc (q_inflight q)\<rparr>"
  have "queue_ok ?q'"
    using ok dms bs bf infl ttl tags leases
    by (simp add: queue_ok_def leases_ok_def) (simp add: with_lease_def o_def)
  moreover have "deliver_message True q r dl ow tg = charge_message ?q' r"
    unfolding deliver_message_eq t Let_def by (simp add: with_lease_def)
  ultimately show ?thesis by (simp add: queue_ok_charge)
qed

lemma tag_index_insert_frame [simp]:
  "q_lock_id (tag_index_insert mem q r) = q_lock_id q" "q_incarnation (tag_index_insert mem q r) = q_incarnation q"
  "q_name (tag_index_insert mem q r) = q_name q" "q_max_depth (tag_index_insert mem q r) = q_max_depth q"
  "q_depth (tag_index_insert mem q r) = q_depth q" "q_inflight (tag_index_insert mem q r) = q_inflight q"
  "q_revision (tag_index_insert mem q r) = q_revision q" "q_durable (tag_index_insert mem q r) = q_durable q"
  "q_deleted (tag_index_insert mem q r) = q_deleted q" "q_dlq_name (tag_index_insert mem q r) = q_dlq_name q"
  "q_max_deliveries (tag_index_insert mem q r) = q_max_deliveries q"
  "q_live_bytes (tag_index_insert mem q r) = q_live_bytes q"
  "q_ttl_count (tag_index_insert mem q r) = q_ttl_count q"
  "q_earliest_visibility (tag_index_insert mem q r) = q_earliest_visibility q"
  "q_ready_hint (tag_index_insert mem q r) = q_ready_hint q"
  "q_msgs (tag_index_insert mem q r) = q_msgs q"
  by (simp_all add: tag_index_insert_def Let_def split: option.split prod.split)

lemma deliver_frame [simp]:
  "q_lock_id (deliver_message mem q r dl ow tg) = q_lock_id q"
  "q_incarnation (deliver_message mem q r dl ow tg) = q_incarnation q"
  "q_name (deliver_message mem q r dl ow tg) = q_name q"
  "q_max_depth (deliver_message mem q r dl ow tg) = q_max_depth q"
  "q_depth (deliver_message mem q r dl ow tg) = q_depth q"
  "q_durable (deliver_message mem q r dl ow tg) = q_durable q"
  "q_deleted (deliver_message mem q r dl ow tg) = q_deleted q"
  "q_dlq_name (deliver_message mem q r dl ow tg) = q_dlq_name q"
  "q_max_deliveries (deliver_message mem q r dl ow tg) = q_max_deliveries q"
  "q_inflight (deliver_message mem q r dl ow tg) = Suc (q_inflight q)"
  "q_revision (deliver_message mem q r dl ow tg) = q_revision q + 1"
  "q_ttl_count (deliver_message mem q r dl ow tg) = q_ttl_count q"
  "q_ready_hint (deliver_message mem q r dl ow tg) = q_ready_hint q"
  by (simp_all add: deliver_message_eq Let_def with_lease_def)

definition delivered :: "queue \<Rightarrow> nat \<Rightarrow> u64 \<Rightarrow> u64 \<Rightarrow> u64 \<Rightarrow> message \<Rightarrow> message" where
  "delivered q r dl ow tg m = charged q r (leased r dl ow tg m)"

lemma delivered_simps [simp]:
  "m_ref (delivered q r dl ow tg m) = m_ref m" "m_id (delivered q r dl ow tg m) = m_id m"
  "m_expires (delivered q r dl ow tg m) = m_expires m" "m_data (delivered q r dl ow tg m) = m_data m"
  by (simp_all add: delivered_def)

lemma charged_cong: "q_durable q = q_durable q' \<Longrightarrow> q_name q = q_name q' \<Longrightarrow> charged q = charged q'"
  by (intro ext) (simp add: charged_def)

lemma deliver_msgs [simp]:
  "q_msgs (deliver_message mem q r dl ow tg) = map (delivered q r dl ow tg) (q_msgs q)"
proof -
  let ?q2 = "tag_index_insert mem (with_lease q r dl ow tg) r"
  have "charged (?q2\<lparr>q_inflight := Suc (q_inflight ?q2)\<rparr>) = charged q"
    by (rule charged_cong) (simp_all add: with_lease_def)
  then show ?thesis by (simp add: deliver_message_eq Let_def delivered_def)
qed

lemma hint_tight_deliver:
  "hint_tight q \<Longrightarrow> hint_tight (deliver_message mem q r dl ow tg)"
  unfolding hint_tight_def by (simp, rule all_before_upd) (auto simp: delivered_def leased_def)

text \<open>
  The messages that a delivery or a requeue of one message leaves alone are found again
  where they were.
\<close>

lemma find_msg_map:
  "(\<And>m. m_ref (f m) = m_ref m) \<Longrightarrow> q_msgs q' = map f (q_msgs q) \<Longrightarrow> find_msg q' r = map_option f (find_msg q r)"
  by (simp add: find_msg_def find_map o_def)

text \<open>Purging empties the queue, whatever was in flight.\<close>

lemma remove_head_length:
  "distinct (refs (q_msgs q)) \<Longrightarrow> q_msgs q = m # ms \<Longrightarrow> q_msgs (remove_message q (m_ref m)) = ms"
  by simp (intro filter_True, force simp: image_iff)

lemma purge_loop_frame [simp]:
  "q_lock_id (purge_loop n q) = q_lock_id q" "q_incarnation (purge_loop n q) = q_incarnation q"
  "q_name (purge_loop n q) = q_name q" "q_max_depth (purge_loop n q) = q_max_depth q"
  "q_durable (purge_loop n q) = q_durable q" "q_deleted (purge_loop n q) = q_deleted q"
  "q_dlq_name (purge_loop n q) = q_dlq_name q" "q_max_deliveries (purge_loop n q) = q_max_deliveries q"
  by (induction n q rule: purge_loop.induct; simp split: list.split)+

lemma purge_loop_empties:
  "queue_ok q \<Longrightarrow> n = length (q_msgs q) \<Longrightarrow> queue_ok (purge_loop n q) \<and> q_msgs (purge_loop n q) = []"
proof (induction n arbitrary: q)
  case (Suc n)
  then obtain m ms where q: "q_msgs q = m # ms" by (cases "q_msgs q") auto
  have d: "distinct (refs (q_msgs q))" using Suc.prems(1) by (simp add: queue_ok_def)
  have "n = length (q_msgs (remove_message q (m_ref m)))"
    unfolding remove_head_length [OF d q] using Suc.prems(2) q by simp
  from Suc.IH [OF queue_ok_remove [OF Suc.prems(1)] this] show ?case by (simp add: q)
qed simp

lemma purge_queue_frame [simp]:
  "q_lock_id (snd (purge_queue_locked q)) = q_lock_id q"
  "q_incarnation (snd (purge_queue_locked q)) = q_incarnation q"
  "q_name (snd (purge_queue_locked q)) = q_name q" "q_max_depth (snd (purge_queue_locked q)) = q_max_depth q"
  "q_durable (snd (purge_queue_locked q)) = q_durable q" "q_deleted (snd (purge_queue_locked q)) = q_deleted q"
  "q_dlq_name (snd (purge_queue_locked q)) = q_dlq_name q"
  "q_max_deliveries (snd (purge_queue_locked q)) = q_max_deliveries q"
  by (simp_all add: purge_queue_locked_def)

lemma queue_ok_purge:
  assumes "queue_ok q"
  shows "queue_ok (snd (purge_queue_locked q))" "q_msgs (snd (purge_queue_locked q)) = []"
    "fst (purge_queue_locked q) = length (q_msgs q)" "hint_tight (snd (purge_queue_locked q))"
proof -
  note e = purge_loop_empties [OF assms refl]
  let ?q = "purge_loop (length (q_msgs q)) q"
  have "queue_ok ?q" "q_msgs ?q = []" using e by simp_all
  then show "queue_ok (snd (purge_queue_locked q))"
    unfolding purge_queue_locked_def queue_ok_def leases_ok_def by simp
  show "q_msgs (snd (purge_queue_locked q)) = []" using e by (simp add: purge_queue_locked_def)
  then show "hint_tight (snd (purge_queue_locked q))" by (simp add: hint_tight_def)
  show "fst (purge_queue_locked q) = length (q_msgs q)"
    using assms by (simp add: purge_queue_locked_def queue_ok_def)
qed

subsection \<open>Properties\<close>

text \<open>An empty queue, for the instances.\<close>

definition blank_queue :: queue where
  "blank_queue = \<lparr>q_lock_id = 1, q_incarnation = 2, q_name = [113], q_max_depth = 0, q_depth = 0,
     q_inflight = 0, q_revision = 1, q_durable = False, q_deleted = False, q_dlq_name = [],
     q_max_deliveries = 0, q_msgs = [], q_tag_buckets = [], q_tag_mask = 0, q_tag_count = 0,
     q_live_bytes = 0, q_ttl_count = 0, q_earliest_visibility = - 1, q_ready_hint = None\<rparr>"

lemma blank_queue_ok: "queue_ok blank_queue"
  by (simp add: queue_ok_def blank_queue_def inflight_total_def ttl_total_def index_sound_def index_full_def
      tags_ok_def leases_ok_def)

definition one_message :: queue where
  "one_message = message_link blank_queue (message_create 0 7 0 [104, 105])"

lemma one_message_ok: "queue_ok one_message"
  unfolding one_message_def
  by (rule queue_ok_link [OF blank_queue_ok]) (simp_all add: blank_queue_def message_create_def)

definition one_delivered :: queue where
  "one_delivered = deliver_message True one_message 0 30000 5 9"

lemma one_message_msgs: "q_msgs one_message = [message_create 0 7 0 [104, 105]]"
  by (simp add: one_message_def blank_queue_def linked_message_def)

lemma one_delivered_ok: "queue_ok one_delivered"
  unfolding one_delivered_def
  by (rule queue_ok_deliver [OF one_message_ok, where m = "message_create 0 7 0 [104, 105]"])
    (simp_all add: find_msg_def one_message_msgs message_create_def)



end
