(* ===== verification/Queue_Store.thy ===== *)
theory Queue_Store
  imports Queue_Messages
begin

text \<open>
  The store of the queue engine (\<open>queue.c\<close>: \<open>QueueConsumer\<close>, \<open>Binding\<close>, \<open>Exchange\<close>,
  \<open>QueueTx\<close>, \<open>QueueStore\<close>) and the helpers every operation uses: name lookups, creation of
  queues and exchanges, and the log calls lifted from \<open>Queue_Wal\<close> to the store.

  The lists of queues, exchanges, consumers and bindings are in list order, the newest
  element first, as the code pushes at the head.  A pointer to a queue is its lock id, a
  pointer to a message its reference number, both handed out by counters of the store.
  Locks are not part of the state: an operation is one step.  The two places where the code
  reacts to a lock somebody else holds (\<open>pthread_mutex_trylock\<close> in the dead-letter routing)
  ask the oracle \<open>se_trylock\<close>, memory allocations ask \<open>se_malloc\<close>, and the allocation inside the
  tag index asks \<open>se_calloc\<close>, which has its own oracle because its failure is silent.
\<close>

subsection \<open>State\<close>

record consumer =
  c_name :: bytes
  c_owner :: u64

record binding =
  b_queue :: bytes
  b_key :: bytes
  b_footprint :: u32

datatype ex_type = EXCHANGE_DIRECT | EXCHANGE_FANOUT | EXCHANGE_TOPIC

record exchange =
  x_name :: bytes
  x_type :: ex_type
  x_durable :: bool
  x_ae_name :: bytes
  x_bindings :: "binding list"
  x_binding_count :: nat
  x_revision :: u64
  x_publish_attempts :: u64
  x_unroutable :: u64

record tx_target =
  t_name :: bytes
  t_queue :: "nat option"
  t_msg_id :: u64

record queue_tx =
  tx_id :: u64
  tx_expires :: u64
  tx_source :: bytes
  tx_data :: bytes
  tx_targets :: "tx_target list"
  tx_footprint :: u32

record store_env =
  se_malloc :: "nat \<Rightarrow> bool"
  se_calloc :: "nat \<Rightarrow> bool"
  se_trylock :: "nat \<Rightarrow> bool"

record store =
  s_queues :: "queue list"
  s_exchanges :: "exchange list"
  s_consumers :: "consumer list"
  s_tx_pending :: "queue_tx list"
  s_next_id :: u64
  s_next_owner :: u64
  s_next_delivery_tag :: u64
  s_next_incarnation :: u64
  s_job_enabled :: bool
  s_redeliveries :: u64
  s_deadlettered :: u64
  s_unroutable :: u64
  s_meta_live :: u64
  s_next_lock_id :: nat
  s_next_ref :: nat
  s_wal :: wal
  s_env :: store_env
  s_calls :: nat

definition EXCHANGE_NAME_MAX :: nat where "EXCHANGE_NAME_MAX = 255"
definition ROUTING_KEY_MAX :: nat where "ROUTING_KEY_MAX = 255"
definition EXCHANGE_BINDINGS_MAX :: nat where "EXCHANGE_BINDINGS_MAX = 1024"

text \<open>The fields \<open>queue_store_open_ex\<close> sets before it touches the file.\<close>

definition store_init :: "bool \<Rightarrow> wal \<Rightarrow> store_env \<Rightarrow> store" where
  "store_init job_enabled w env =
     \<lparr>s_queues = [], s_exchanges = [], s_consumers = [], s_tx_pending = [], s_next_id = 1,
      s_next_owner = 1, s_next_delivery_tag = 1, s_next_incarnation = 1, s_job_enabled = job_enabled,
      s_redeliveries = 0, s_deadlettered = 0, s_unroutable = 0, s_meta_live = 0,
      s_next_lock_id = 1, s_next_ref = 0, s_wal = w, s_env = env, s_calls = 0\<rparr>"

subsection \<open>Oracles\<close>

definition alloc :: "store \<Rightarrow> bool \<times> store" where
  "alloc s = (se_malloc (s_env s) (s_calls s), s\<lparr>s_calls := Suc (s_calls s)\<rparr>)"

definition alloc_index :: "store \<Rightarrow> bool \<times> store" where
  "alloc_index s = (se_calloc (s_env s) (s_calls s), s\<lparr>s_calls := Suc (s_calls s)\<rparr>)"

definition try_lock :: "store \<Rightarrow> bool \<times> store" where
  "try_lock s = (se_trylock (s_env s) (s_calls s), s\<lparr>s_calls := Suc (s_calls s)\<rparr>)"

text \<open>Allocations one after the other, the next only when the one before succeeded.\<close>

fun allocs :: "nat \<Rightarrow> store \<Rightarrow> bool \<times> store" where
  "allocs 0 s = (True, s)"
| "allocs (Suc n) s = (case alloc s of (ok, s1) \<Rightarrow> if ok then allocs n s1 else (False, s1))"

subsection \<open>Lookups and pointers\<close>

definition get_queue :: "store \<Rightarrow> nat \<Rightarrow> queue option" where
  "get_queue s qid = find (\<lambda>q. q_lock_id q = qid) (s_queues s)"

definition upd_queue :: "store \<Rightarrow> nat \<Rightarrow> (queue \<Rightarrow> queue) \<Rightarrow> store" where
  "upd_queue s qid f = s\<lparr>s_queues := map (\<lambda>q. if q_lock_id q = qid then f q else q) (s_queues s)\<rparr>"

definition find_queue :: "store \<Rightarrow> bytes \<Rightarrow> queue option" where
  "find_queue s name = find (\<lambda>q. \<not> q_deleted q \<and> q_name q = name) (s_queues s)"

definition find_exchange :: "store \<Rightarrow> bytes \<Rightarrow> exchange option" where
  "find_exchange s name = find (\<lambda>x. x_name x = name) (s_exchanges s)"

definition find_binding :: "exchange \<Rightarrow> bytes \<Rightarrow> bytes \<Rightarrow> binding option" where
  "find_binding x queue key = find (\<lambda>b. b_queue b = queue \<and> b_key b = key) (x_bindings x)"

definition find_consumer :: "store \<Rightarrow> bytes \<Rightarrow> consumer option" where
  "find_consumer s name = find (\<lambda>c. c_name c = name) (s_consumers s)"

text \<open>Exchange names are unique, so the name stands for the pointer.\<close>

definition upd_exchange :: "store \<Rightarrow> bytes \<Rightarrow> (exchange \<Rightarrow> exchange) \<Rightarrow> store" where
  "upd_exchange s name f = s\<lparr>s_exchanges := map (\<lambda>x. if x_name x = name then f x else x) (s_exchanges s)\<rparr>"

subsection \<open>Creation\<close>

definition next_incarnation :: "u64 \<Rightarrow> u64" where
  "next_incarnation n = (if n + 1 = 0 then n + 2 else n + 1)"

definition new_queue :: "store \<Rightarrow> bytes \<Rightarrow> bool \<Rightarrow> u64 \<Rightarrow> bytes \<Rightarrow> u32 \<Rightarrow> queue" where
  "new_queue s name dur max_depth dlq_name max_deliveries =
     \<lparr>q_lock_id = s_next_lock_id s, q_incarnation = next_incarnation (s_next_incarnation s),
      q_name = name, q_max_depth = max_depth, q_depth = 0, q_inflight = 0, q_revision = 1,
      q_durable = dur, q_deleted = False, q_dlq_name = dlq_name,
      q_max_deliveries = (if dlq_name \<noteq> [] then max_deliveries else 0), q_msgs = [],
      q_tag_buckets = [], q_tag_mask = 0, q_tag_count = 0,
      q_live_bytes = (if dur
         then word_of_nat (LOG_HEADER + length name + 9 +
                (if dlq_name \<noteq> [] then 8 + length dlq_name else 0))
         else 0),
      q_ttl_count = 0, q_earliest_visibility = - 1, q_ready_hint = None\<rparr>"

definition create_queue :: "store \<Rightarrow> bytes \<Rightarrow> bool \<Rightarrow> u64 \<Rightarrow> bytes \<Rightarrow> u32 \<Rightarrow> nat option \<times> store" where
  "create_queue s name dur max_depth dlq_name max_deliveries =
     (case allocs (if dlq_name \<noteq> [] then 3 else 2) s of (ok, s1) \<Rightarrow>
        if \<not> ok then (None, s1)
        else
          (Some (s_next_lock_id s1),
           s1\<lparr>s_queues := new_queue s1 name dur max_depth dlq_name max_deliveries # s_queues s1,
              s_next_incarnation := next_incarnation (s_next_incarnation s1),
              s_next_lock_id := Suc (s_next_lock_id s1)\<rparr>))"

definition new_exchange :: "bytes \<Rightarrow> bool \<Rightarrow> ex_type \<Rightarrow> bytes \<Rightarrow> exchange" where
  "new_exchange name dur type ae_name =
     \<lparr>x_name = name, x_type = type, x_durable = dur, x_ae_name = ae_name, x_bindings = [],
      x_binding_count = 0, x_revision = 1, x_publish_attempts = 0, x_unroutable = 0\<rparr>"

definition create_exchange :: "store \<Rightarrow> bytes \<Rightarrow> bool \<Rightarrow> ex_type \<Rightarrow> bytes \<Rightarrow> bool \<times> store" where
  "create_exchange s name dur type ae_name =
     (case allocs (if ae_name \<noteq> [] then 3 else 2) s of (ok, s1) \<Rightarrow>
        if \<not> ok then (False, s1)
        else (True, s1\<lparr>s_exchanges := new_exchange name dur type ae_name # s_exchanges s1\<rparr>))"

definition append_message :: "store \<Rightarrow> nat \<Rightarrow> u64 \<Rightarrow> u64 \<Rightarrow> bytes \<Rightarrow> int \<times> store" where
  "append_message s qid mid expires_ms data =
     (case alloc s of (ok, s1) \<Rightarrow>
        if \<not> ok then (-1, s1)
        else
          let m = message_create (s_next_ref s1) mid expires_ms data
          in (0, upd_queue (s1\<lparr>s_next_ref := Suc (s_next_ref s1)\<rparr>) qid (\<lambda>q. message_link q m)))"

subsection \<open>The log, seen from the store\<close>

definition append_store :: "store \<Rightarrow> log_record \<Rightarrow> bool \<Rightarrow> bool \<Rightarrow> int \<times> store" where
  "append_store s r do_fsync defer_write =
     (case append_record_ex (s_wal s) r do_fsync defer_write of (rc, w) \<Rightarrow> (rc, s\<lparr>s_wal := w\<rparr>))"

definition queue_record :: "log_op \<Rightarrow> queue \<Rightarrow> u64 \<Rightarrow> u64 \<Rightarrow> bytes \<Rightarrow> log_record" where
  "queue_record op q rid aux data =
     \<lparr>r_op = op, r_durable = q_durable q, r_name = q_name q, r_id = rid, r_aux = aux, r_data = data\<rparr>"

definition append_log :: "store \<Rightarrow> log_op \<Rightarrow> queue \<Rightarrow> u64 \<Rightarrow> u64 \<Rightarrow> bytes \<Rightarrow> int \<times> store" where
  "append_log s op q rid expires_ms data = append_store s (queue_record op q rid expires_ms data) False False"

definition append_log_deferred :: "store \<Rightarrow> log_op \<Rightarrow> queue \<Rightarrow> u64 \<Rightarrow> int \<times> store" where
  "append_log_deferred s op q rid = append_store s (queue_record op q rid 0 []) False True"

definition sync_store :: "store \<Rightarrow> int \<times> store" where
  "sync_store s = (case sync_log (s_wal s) of (rc, w) \<Rightarrow> (rc, s\<lparr>s_wal := w\<rparr>))"

text \<open>
  The durability wait at the end of an operation: the caller loads the current sequence
  number and waits for it.
\<close>

definition wait_store :: "store \<Rightarrow> int \<times> store" where
  "wait_store s =
     (case q_wait_durable_locked (s_wal s) (w_seq (s_wal s)) of (rc, w) \<Rightarrow> (rc, s\<lparr>s_wal := w\<rparr>))"

text \<open>The stand-in queue that carries a name and a durability to the log before creation.\<close>

definition temp_queue :: "store \<Rightarrow> bytes \<Rightarrow> bool \<Rightarrow> queue" where
  "temp_queue s name dur = new_queue s name dur 0 [] 0"

end
