(* ===== verification/Topic_Match.thy ===== *)
theory Topic_Match
  imports Kutti_Prelude
begin

text \<open>
  Topic patterns of the exchange router (\<open>queue.c\<close>: \<open>topic_word_count\<close>, \<open>topic_word_at\<close>,
  \<open>topic_matches\<close>).  Keys and patterns are byte strings read as words separated by
  dots.  The matcher of the code fills one row of a table per key word, from the last
  key word to the first; a row is the list \<open>dp[0], \<dots>, dp[m]\<close>.  The specification is the
  inductive predicate \<open>topic_spec\<close> on lists of words, and \<open>topic_matches_spec\<close> shows that
  the table computes it.
\<close>

subsection \<open>The words of a string\<close>

abbreviation dot :: byte where "dot \<equiv> 0x2e"
abbreviation star_word :: bytes where "star_word \<equiv> [0x2a]"
abbreviation hash_word :: bytes where "hash_word \<equiv> [0x23]"

definition TOPIC_WORDS_MAX :: nat where
  "TOPIC_WORDS_MAX = 128"

fun topic_word_count_loop :: "bytes \<Rightarrow> nat \<Rightarrow> nat" where
  "topic_word_count_loop [] words = words"
| "topic_word_count_loop (c # s) words =
     topic_word_count_loop s (if c = dot then Suc words else words)"

definition topic_word_count :: "bytes \<Rightarrow> nat" where
  "topic_word_count s = topic_word_count_loop s 1"

text \<open>
  The scan of \<open>topic_word_at\<close> with its two locals; \<open>rest\<close> is the string from index \<open>i\<close> on
  and the string found is returned where the code returns a pointer and a length.
\<close>

fun topic_word_at_loop :: "bytes \<Rightarrow> nat \<Rightarrow> bytes \<Rightarrow> nat \<Rightarrow> nat \<Rightarrow> nat \<Rightarrow> bytes" where
  "topic_word_at_loop s idx [] i start word =
     (if word = idx then take (i - start) (drop start s) else [])"
| "topic_word_at_loop s idx (c # rest) i start word =
     (if c = dot
      then (if word = idx then take (i - start) (drop start s)
            else topic_word_at_loop s idx rest (Suc i) (Suc i) (Suc word))
      else topic_word_at_loop s idx rest (Suc i) start word)"

definition topic_word_at :: "bytes \<Rightarrow> nat \<Rightarrow> bytes" where
  "topic_word_at s idx = topic_word_at_loop s idx s 0 0 0"

subsection \<open>The table\<close>

fun topic_seed :: "bytes list \<Rightarrow> bool list" where
  "topic_seed [] = [True]"
| "topic_seed (w # pw) =
     (let dp = topic_seed pw in (if w = hash_word then hd dp else False) # dp)"

fun topic_row :: "bytes list \<Rightarrow> bool list \<Rightarrow> bytes \<Rightarrow> bool list" where
  "topic_row [] dp kw = [False]"
| "topic_row (w # pw) dp kw =
     (let cur = topic_row pw (tl dp) kw in
      (if w = hash_word then hd cur \<or> hd dp
       else if w = star_word then hd (tl dp)
       else w = kw \<and> hd (tl dp)) # cur)"

fun topic_rows :: "bytes list \<Rightarrow> bytes \<Rightarrow> nat \<Rightarrow> bool list \<Rightarrow> bool list" where
  "topic_rows pw key 0 dp = dp"
| "topic_rows pw key (Suc j) dp = topic_rows pw key j (topic_row pw dp (topic_word_at key j))"

definition topic_matches :: "bytes \<Rightarrow> bytes \<Rightarrow> bool" where
  "topic_matches pattern key =
     (let m = topic_word_count pattern in
      if m > TOPIC_WORDS_MAX then False
      else (let pw = map (topic_word_at pattern) [0..<m];
                n = topic_word_count key
            in hd (topic_rows pw key n (topic_seed pw))))"

subsection \<open>The specification\<close>

fun words_of :: "bytes \<Rightarrow> bytes list" where
  "words_of [] = [[]]"
| "words_of (c # s) =
     (if c = dot then [] # words_of s
      else (c # hd (words_of s)) # tl (words_of s))"

fun join_words :: "bytes list \<Rightarrow> bytes" where
  "join_words [] = []"
| "join_words [w] = w"
| "join_words (w # ws) = w @ dot # join_words ws"

inductive topic_spec :: "bytes list \<Rightarrow> bytes list \<Rightarrow> bool" where
  spec_end: "topic_spec [] []"
| spec_hash: "topic_spec ps ks \<Longrightarrow> topic_spec (hash_word # ps) (skipped @ ks)"
| spec_star: "topic_spec ps ks \<Longrightarrow> topic_spec (star_word # ps) (k # ks)"
| spec_word: "topic_spec ps ks \<Longrightarrow> w \<noteq> hash_word \<Longrightarrow> w \<noteq> star_word \<Longrightarrow> topic_spec (w # ps) (w # ks)"

inductive_cases topic_spec_ConsE: "topic_spec (w # ps) ks"
inductive_simps topic_spec_Nil [simp]: "topic_spec [] ks"

lemma topic_spec_hash:
  "topic_spec (hash_word # ps) ks \<longleftrightarrow>
     topic_spec ps ks \<or> (ks \<noteq> [] \<and> topic_spec (hash_word # ps) (tl ks))"
proof
  assume "topic_spec (hash_word # ps) ks"
  then obtain sk ks' where ks: "ks = sk @ ks'" and t: "topic_spec ps ks'"
    by (auto elim: topic_spec_ConsE)
  show "topic_spec ps ks \<or> (ks \<noteq> [] \<and> topic_spec (hash_word # ps) (tl ks))"
  proof (cases sk)
    case Nil
    with ks t show ?thesis by simp
  next
    case (Cons k sk')
    with ks t show ?thesis by (auto intro: spec_hash)
  qed
next
  assume r: "topic_spec ps ks \<or> (ks \<noteq> [] \<and> topic_spec (hash_word # ps) (tl ks))"
  show "topic_spec (hash_word # ps) ks"
  proof (cases "topic_spec ps ks")
    case True
    then show ?thesis using spec_hash [of ps ks "[]"] by simp
  next
    case False
    with r obtain k ks1 where ks: "ks = k # ks1" and t: "topic_spec (hash_word # ps) ks1"
      by (cases ks) auto
    from t obtain sk ks' where "ks1 = sk @ ks'" and "topic_spec ps ks'"
      by (auto elim: topic_spec_ConsE)
    then show ?thesis using spec_hash [of ps ks' "k # sk"] ks by simp
  qed
qed

lemma topic_spec_star:
  "topic_spec (star_word # ps) ks \<longleftrightarrow> ks \<noteq> [] \<and> topic_spec ps (tl ks)"
proof
  assume "topic_spec (star_word # ps) ks"
  then show "ks \<noteq> [] \<and> topic_spec ps (tl ks)" by (auto elim: topic_spec_ConsE)
next
  assume "ks \<noteq> [] \<and> topic_spec ps (tl ks)"
  then show "topic_spec (star_word # ps) ks" by (cases ks) (auto intro: spec_star)
qed

lemma topic_spec_word:
  assumes "w \<noteq> hash_word" and "w \<noteq> star_word"
  shows "topic_spec (w # ps) ks \<longleftrightarrow> ks \<noteq> [] \<and> hd ks = w \<and> topic_spec ps (tl ks)"
proof
  assume "topic_spec (w # ps) ks"
  then show "ks \<noteq> [] \<and> hd ks = w \<and> topic_spec ps (tl ks)"
    using assms by (auto elim: topic_spec_ConsE)
next
  assume "ks \<noteq> [] \<and> hd ks = w \<and> topic_spec ps (tl ks)"
  then show "topic_spec (w # ps) ks" using assms by (cases ks) (auto intro: spec_word)
qed

subsection \<open>Splitting\<close>

lemma words_of_not_Nil [simp]: "words_of s \<noteq> []"
  by (cases s) auto

lemma topic_word_count_loop_eq: "topic_word_count_loop s words + 1 = words + length (words_of s)"
  by (induction s arbitrary: words) (auto simp: Suc_diff_1 neq_Nil_conv)

lemma topic_word_count_eq: "topic_word_count s = length (words_of s)"
  using topic_word_count_loop_eq [of s 1] by (simp add: topic_word_count_def)

lemma topic_word_at_loop_eq:
  assumes "s = take start s @ pre @ rest" and "start \<le> length s" and "i = start + length pre"
    and "word \<le> idx"
  shows "topic_word_at_loop s idx rest i start word =
     (if idx = word then pre @ hd (words_of rest)
      else if idx - word < length (words_of rest) then words_of rest ! (idx - word) else [])"
  using assms
proof (induction rest arbitrary: i start word pre)
  case Nil
  have "drop start s = pre" using Nil.prems(1,2) by (metis append_Nil2 append_take_drop_id same_append_eq)
  then show ?case using Nil.prems by auto
next
  case (Cons c rest)
  have d: "drop start s = pre @ c # rest"
    using Cons.prems(1,2) by (metis append_take_drop_id same_append_eq)
  show ?case
  proof (cases "c = dot")
    case True
    show ?thesis
    proof (cases "word = idx")
      case True
      with \<open>c = dot\<close> d Cons.prems(3) show ?thesis by simp
    next
      case False
      have s: "s = take (Suc i) s @ [] @ rest"
      proof -
        have "drop (Suc i) s = rest"
          using arg_cong [OF d, of "drop (Suc (length pre))"] Cons.prems(3)
          by (simp add: drop_drop add.commute)
        then show ?thesis by (metis append_Nil append_take_drop_id)
      qed
      have "Suc i \<le> length s"
        using arg_cong [OF d, of length] Cons.prems(2,3) by simp
      note IH = Cons.IH [OF s this, of "Suc i" "Suc word"]
      have w: "idx - word = Suc (idx - Suc word)" using False Cons.prems(4) by simp
      show ?thesis using False \<open>c = dot\<close> Cons.prems(4) IH w
        by (auto simp: hd_conv_nth)
    qed
  next
    case False
    have s: "s = take start s @ (pre @ [c]) @ rest" using Cons.prems(1) by simp
    note IH = Cons.IH [OF s Cons.prems(2), of "Suc i" word]
    obtain h t where wr: "words_of rest = h # t" by (cases "words_of rest") auto
    show ?thesis using False Cons.prems(3,4) IH wr by (auto simp: nth_Cons')
  qed
qed

lemma topic_word_at_eq:
  "idx < length (words_of s) \<Longrightarrow> topic_word_at s idx = words_of s ! idx"
  using topic_word_at_loop_eq [of s 0 "[]" s 0 0 idx]
  by (auto simp: topic_word_at_def hd_conv_nth)

lemma topic_words_eq: "map (topic_word_at s) [0..<topic_word_count s] = words_of s"
  by (rule nth_equalityI) (simp_all add: topic_word_count_eq topic_word_at_eq)

lemma join_words_words_of: "join_words (words_of s) = s"
proof (induction s)
  case (Cons c s)
  obtain h t where "words_of s = h # t" by (cases "words_of s") auto
  with Cons show ?case by (cases t) auto
qed simp

lemma words_of_no_dot: "w \<in> set (words_of s) \<Longrightarrow> dot \<notin> set w"
proof (induction s arbitrary: w)
  case (Cons c s)
  obtain h t where ht: "words_of s = h # t" by (cases "words_of s") auto
  then show ?case using Cons.prems Cons.IH [of h] Cons.IH [of w] by (auto split: if_splits)
qed simp

lemma words_of_append_dot: "dot \<notin> set w \<Longrightarrow> words_of (w @ dot # s) = w # words_of s"
  by (induction w) auto

lemma words_of_single: "dot \<notin> set w \<Longrightarrow> words_of w = [w]"
  by (induction w) auto

lemma words_of_join_words:
  "ws \<noteq> [] \<Longrightarrow> \<forall>w \<in> set ws. dot \<notin> set w \<Longrightarrow> words_of (join_words ws) = ws"
  by (induction ws rule: join_words.induct) (auto simp: words_of_append_dot words_of_single)

subsection \<open>The table computes the specification\<close>

definition topic_dp :: "bytes list \<Rightarrow> bytes list \<Rightarrow> bool list" where
  "topic_dp pw ks = map (\<lambda>i. topic_spec (drop i pw) ks) [0..<Suc (length pw)]"

lemma topic_dp_Cons: "topic_dp (w # pw) ks = topic_spec (w # pw) ks # topic_dp pw ks"
  unfolding topic_dp_def length_Cons
  by (subst upt_conv_Cons) (simp_all add: map_Suc_upt [symmetric] del: upt_Suc)

lemma topic_dp_Nil: "topic_dp [] ks = [ks = []]"
  by (simp add: topic_dp_def)

lemma topic_dp_hd [simp]: "hd (topic_dp pw ks) = topic_spec pw ks"
  by (cases pw) (simp_all add: topic_dp_Cons topic_dp_Nil)

lemma topic_seed_dp: "topic_seed pw = topic_dp pw []"
proof (induction pw)
  case (Cons w pw)
  have "topic_spec (w # pw) [] = (w = hash_word \<and> topic_spec pw [])"
    using topic_spec_hash [of pw "[]"] topic_spec_star [of pw "[]"] topic_spec_word [of w pw "[]"]
    by auto
  with Cons show ?case by (simp add: topic_dp_Cons Let_def)
qed (simp add: topic_dp_Nil)

lemma topic_row_dp: "topic_row pw (topic_dp pw ks) kw = topic_dp pw (kw # ks)"
proof (induction pw)
  case (Cons w pw)
  have "topic_spec (w # pw) (kw # ks) =
    (if w = hash_word then topic_spec pw (kw # ks) \<or> topic_spec (w # pw) ks
     else if w = star_word then topic_spec pw ks else w = kw \<and> topic_spec pw ks)"
    using topic_spec_hash [of pw "kw # ks"] topic_spec_star [of pw "kw # ks"]
      topic_spec_word [of w pw "kw # ks"] by auto
  with Cons show ?case by (simp add: topic_dp_Cons Let_def)
qed (simp add: topic_dp_Nil)

lemma topic_rows_dp:
  "n \<le> length (words_of key) \<Longrightarrow>
   topic_rows pw key n (topic_dp pw (drop n (words_of key))) = topic_dp pw (words_of key)"
proof (induction n)
  case (Suc j)
  then have "drop j (words_of key) = topic_word_at key j # drop (Suc j) (words_of key)"
    by (simp add: topic_word_at_eq Cons_nth_drop_Suc)
  with Suc show ?case by (simp add: topic_row_dp)
qed simp

lemma topic_matches_words:
  "topic_matches pattern key \<longleftrightarrow>
     length (words_of pattern) \<le> TOPIC_WORDS_MAX \<and> topic_spec (words_of pattern) (words_of key)"
  using topic_rows_dp [of "length (words_of key)" key "words_of pattern"]
  by (simp add: topic_matches_def topic_words_eq topic_seed_dp Let_def
      topic_word_count_eq [of key] not_less topic_word_count_eq [symmetric, of pattern])

subsection \<open>Property\<close>

text \<open>
  C10: A topic pattern matches a routing key exactly when the pattern has at most 128 words
  and its words match the words of the key under the specification: a hash stands for any
  run of words, a star for one word, any other word for itself.
\<close>

theorem topic_matches_correct:
  "topic_matches pattern key \<longleftrightarrow>
     length (words_of pattern) \<le> TOPIC_WORDS_MAX \<and> topic_spec (words_of pattern) (words_of key)"
  by (rule topic_matches_words)

end
