(* ===== verification/Queue_Engine.thy ===== *)
theory Queue_Engine
  imports Queue_Store Topic_Match
begin

text \<open>
  The operations of the queue engine on single messages (\<open>queue.c\<close>): dead-letter routing, the
  retention walk, declaration, publication, purge, deletion, consumption, acknowledgement,
  rejection, and the durable consumer registrations.  Every operation is a function from
  the store to a return code and the new store, with the early returns in the order of the
  code.  The clocks are arguments: \<open>now\<close> is an answer of \<open>now_ms()\<close> and \<open>mono_now\<close> one of
  \<open>monotonic_ms()\<close>.  A name of length zero stands for the null pointer of the C interface.
\<close>

definition name_valid :: "bytes \<Rightarrow> bool" where
  "name_valid name \<longleftrightarrow> name \<noteq> [] \<and> length name \<le> QUEUE_NAME_MAX"

definition get_msg :: "store \<Rightarrow> nat \<Rightarrow> nat \<Rightarrow> message option" where
  "get_msg s qid r = (case get_queue s qid of None \<Rightarrow> None | Some q \<Rightarrow> find_msg q r)"

subsection \<open>Dead-letter routing\<close>

text \<open>Resolving the dead-letter queue, which is created when it does not exist.\<close>

definition dead_letter_queue :: "store \<Rightarrow> queue \<Rightarrow> nat option \<times> store" where
  "dead_letter_queue s q =
     (case find_queue s (q_dlq_name q) of
        Some dlq \<Rightarrow> (Some (q_lock_id dlq), s)
      | None \<Rightarrow>
        case (if q_durable q
              then append_log s LOG_DECLARE (temp_queue s (q_dlq_name q) (q_durable q)) 0 0 []
              else (0, s)) of (rc, s1) \<Rightarrow>
          if rc < 0 then (None, s1)
          else create_queue s1 (q_dlq_name q) (q_durable q) 0 [] 0)"

text \<open>
  The copy into the dead-letter queue under its lock: capacity, the two log records, the
  barrier that covers both, and the copy in memory.
\<close>

definition dead_letter_copy :: "store \<Rightarrow> queue \<Rightarrow> queue \<Rightarrow> message \<Rightarrow> bool \<Rightarrow> int \<times> store" where
  "dead_letter_copy s q dlq m clear_expiry =
     (if q_max_depth dlq \<noteq> 0 \<and> q_max_depth dlq \<le> word_of_nat (q_depth dlq) then (-1, s)
      else
        let mid = s_next_id s; s1 = s\<lparr>s_next_id := mid + 1\<rparr>;
            expires_ms = (if clear_expiry then 0 else m_expires m)
        in case (if q_durable dlq
                 then (case append_log s1 LOG_PUBLISH dlq mid expires_ms (m_data m) of (rc, s2) \<Rightarrow>
                         if rc < 0 then (-1, s2)
                         else case append_log s2 LOG_ACK q (m_id m) 0 [] of (rc, s3) \<Rightarrow>
                           if rc < 0 then (-1, s3) else sync_store s3)
                 else (0, s1)) of (rc, s4) \<Rightarrow>
             if rc < 0 then (-1, s4)
             else append_message s4 (q_lock_id dlq) mid expires_ms (m_data m))"

text \<open>
  \<open>locks\<close> are the queue locks the calling thread holds itself, on which its own
  \<open>pthread_mutex_trylock\<close> fails.
\<close>

definition dead_letter_locked :: "store \<Rightarrow> nat \<Rightarrow> nat \<Rightarrow> bool \<Rightarrow> bool \<Rightarrow> nat list \<Rightarrow> int \<times> store" where
  "dead_letter_locked s qid r clear_expiry metadata_held locks =
     (case get_queue s qid of None \<Rightarrow> (0, s) | Some q \<Rightarrow>
      case find_msg q r of None \<Rightarrow> (0, s) | Some m \<Rightarrow>
      if q_dlq_name q = [] then (0, s)
      else case (if metadata_held then (True, s) else try_lock s) of (held, s1) \<Rightarrow>
        if \<not> held then (-1, s1)
        else case dead_letter_queue s1 q of (did, s2) \<Rightarrow>
          case did of None \<Rightarrow> (-1, s2) | Some d \<Rightarrow>
          case try_lock s2 of (locked, s3) \<Rightarrow>
            if \<not> locked \<or> d \<in> set locks then (-1, s3)
            else case get_queue s3 d of None \<Rightarrow> (-1, s3) | Some dlq \<Rightarrow>
              case dead_letter_copy s3 q dlq m clear_expiry of (rc, s4) \<Rightarrow>
                if rc < 0 then (-1, s4)
                else (1, (upd_queue s4 qid (\<lambda>q. remove_message q r))
                           \<lparr>s_deadlettered := s_deadlettered s4 + 1\<rparr>))"

subsection \<open>The retention walk\<close>

text \<open>One message of the walk; \<open>nd\<close> is the earliest deadline seen so far.\<close>

definition reap_message :: "store \<Rightarrow> nat \<Rightarrow> nat \<Rightarrow> u64 \<Rightarrow> u64 \<Rightarrow> bool \<Rightarrow> nat list \<Rightarrow> u64 \<Rightarrow> u64 \<times> store" where
  "reap_message s qid r now mono_now metadata_held locks nd =
     (case get_msg s qid r of None \<Rightarrow> (nd, s) | Some m \<Rightarrow>
      if m_expires m \<noteq> 0 \<and> m_expires m \<le> now
      then (case dead_letter_locked s qid r True metadata_held locks of (routed, s1) \<Rightarrow>
              (nd, if routed = 0 then upd_queue s1 qid (\<lambda>q. remove_message q r) else s1))
      else if m_state m = MESSAGE_INFLIGHT
      then (if m_sched m \<le> mono_now
            then (nd, (upd_queue s qid (\<lambda>q. requeue_message q r 0))
                        \<lparr>s_redeliveries := s_redeliveries s + 1\<rparr>)
            else (if m_sched m < nd then m_sched m else nd, s))
      else (nd, s))"

fun reap_loop :: "nat list \<Rightarrow> store \<Rightarrow> nat \<Rightarrow> u64 \<Rightarrow> u64 \<Rightarrow> bool \<Rightarrow> nat list \<Rightarrow> u64 \<Rightarrow> u64 \<times> store" where
  "reap_loop [] s qid now mono_now metadata_held locks nd = (nd, s)"
| "reap_loop (r # rs) s qid now mono_now metadata_held locks nd =
     (case reap_message s qid r now mono_now metadata_held locks nd of (nd1, s1) \<Rightarrow>
        reap_loop rs s1 qid now mono_now metadata_held locks nd1)"

definition reap_queue_locked :: "store \<Rightarrow> nat \<Rightarrow> u64 \<Rightarrow> u64 \<Rightarrow> bool \<Rightarrow> nat list \<Rightarrow> store" where
  "reap_queue_locked s qid now mono_now metadata_held locks =
     (case get_queue s qid of None \<Rightarrow> s | Some q \<Rightarrow>
      if q_ttl_count q = 0 \<and> (q_inflight q = 0 \<or> mono_now < q_earliest_visibility q) then s
      else case reap_loop (refs (q_msgs q)) s qid now mono_now metadata_held locks (- 1) of (nd, s1) \<Rightarrow>
        upd_queue s1 qid (\<lambda>q. q\<lparr>q_earliest_visibility := nd\<rparr>))"

text \<open>The maintenance pass over all queues.  The pointers of the walk are the ids at its start.\<close>

fun reap_all :: "nat list \<Rightarrow> store \<Rightarrow> u64 \<Rightarrow> u64 \<Rightarrow> store" where
  "reap_all [] s now mono_now = s"
| "reap_all (qid # qids) s now mono_now =
     (case get_queue s qid of None \<Rightarrow> reap_all qids s now mono_now | Some q \<Rightarrow>
      reap_all qids (if q_deleted q then s else reap_queue_locked s qid now mono_now True [qid]) now mono_now)"

definition queue_reap :: "store \<Rightarrow> u64 \<Rightarrow> u64 \<Rightarrow> store" where
  "queue_reap s now mono_now = reap_all (map q_lock_id (s_queues s)) s now mono_now"

subsection \<open>Declaration and publication\<close>

text \<open>The durability wait of an operation that has logged something since \<open>before\<close>.\<close>

definition finish_durable :: "store \<Rightarrow> nat \<Rightarrow> int \<times> store" where
  "finish_durable s before = (if w_seq (s_wal s) \<noteq> before then wait_store s else (0, s))"

definition declare_ext :: "bytes \<Rightarrow> u32 \<Rightarrow> bytes" where
  "declare_ext dlq_name max_deliveries =
     (if dlq_name = [] then [] else put16 (word_of_nat (length dlq_name)) @ dlq_name @ put32 max_deliveries)"

definition same_policy :: "queue \<Rightarrow> bool \<Rightarrow> bytes \<Rightarrow> u32 \<Rightarrow> bool" where
  "same_policy q dur dlq_name max_deliveries \<longleftrightarrow>
     q_durable q = dur \<and> length (q_dlq_name q) = length dlq_name \<and>
     (dlq_name = [] \<or> (q_max_deliveries q = max_deliveries \<and> q_dlq_name q = dlq_name))"

definition queue_declare_ex :: "store \<Rightarrow> bytes \<Rightarrow> bool \<Rightarrow> u64 \<Rightarrow> bytes \<Rightarrow> u32 \<Rightarrow> int \<times> store" where
  "queue_declare_ex s name dur max_depth dlq_name max_deliveries =
     (if \<not> name_valid name then (-1, s)
      else if dlq_name \<noteq> [] \<and> (length dlq_name > QUEUE_NAME_MAX \<or> dlq_name = name) then (-1, s)
      else if dlq_name = [] \<and> max_deliveries \<noteq> 0 then (-1, s)
      else case find_queue s name of
        Some existing \<Rightarrow> (if same_policy existing dur dlq_name max_deliveries then 0 else -1, s)
      | None \<Rightarrow>
        let before = w_seq (s_wal s)
        in case (if dur then append_log s LOG_DECLARE (temp_queue s name dur) 0 max_depth
                          (declare_ext dlq_name max_deliveries)
                 else (0, s)) of (rc, s1) \<Rightarrow>
          if rc < 0 then (-1, s1)
          else case create_queue s1 name dur max_depth dlq_name max_deliveries of (qid, s2) \<Rightarrow>
            if qid = None then (-1, s2) else finish_durable s2 before)"

definition queue_declare :: "store \<Rightarrow> bytes \<Rightarrow> bool \<Rightarrow> u64 \<Rightarrow> int \<times> store" where
  "queue_declare s name dur max_depth = queue_declare_ex s name dur max_depth [] 0"

definition queue_full :: "queue \<Rightarrow> bool" where
  "queue_full q \<longleftrightarrow> q_max_depth q \<noteq> 0 \<and> q_max_depth q \<le> word_of_nat (q_depth q)"

definition publish_one_locked :: "store \<Rightarrow> nat \<Rightarrow> bytes \<Rightarrow> u64 \<Rightarrow> u64 \<Rightarrow> u64 \<Rightarrow> int \<times> u64 \<times> store" where
  "publish_one_locked s qid data ttl_ms now mono_now =
     (let s1 = reap_queue_locked s qid now mono_now False [qid]
      in case get_queue s1 qid of None \<Rightarrow> (-1, 0, s1) | Some q \<Rightarrow>
         if queue_full q then (-1, 0, s1)
         else
           let mid = s_next_id s1; s2 = s1\<lparr>s_next_id := mid + 1\<rparr>;
               expires_ms = (if ttl_ms \<noteq> 0 then now + ttl_ms else 0)
           in case (if q_durable q then append_log s2 LOG_PUBLISH q mid expires_ms data else (0, s2)) of
                (rc, s3) \<Rightarrow>
                if rc < 0 then (-1, 0, s3)
                else case append_message s3 qid mid expires_ms data of (rc, s4) \<Rightarrow>
                  if rc < 0 then (-1, 0, s4) else (0, mid, s4))"

definition queue_publish :: "store \<Rightarrow> bytes \<Rightarrow> bytes \<Rightarrow> u64 \<Rightarrow> u64 \<Rightarrow> u64 \<Rightarrow> int \<times> u64 \<times> store" where
  "queue_publish s name data ttl_ms now mono_now =
     (if \<not> name_valid name \<or> length data > QUEUE_MESSAGE_MAX then (-1, 0, s)
      else case find_queue s name of None \<Rightarrow> (-1, 0, s) | Some q \<Rightarrow>
        let before = w_seq (s_wal s)
        in case publish_one_locked s (q_lock_id q) data ttl_ms now mono_now of (rc, mid, s1) \<Rightarrow>
          if rc \<noteq> 0 then (rc, mid, s1)
          else case finish_durable s1 before of (rc, s2) \<Rightarrow> (rc, mid, s2))"

subsection \<open>Purge and deletion\<close>

definition queue_purge_checked :: "store \<Rightarrow> bytes \<Rightarrow> u64 \<Rightarrow> bool \<Rightarrow> int \<times> nat \<times> store" where
  "queue_purge_checked s name expected_revision conditional =
     (if \<not> name_valid name then (-1, 0, s)
      else case find_queue s name of None \<Rightarrow> (0, 0, s) | Some q \<Rightarrow>
        if conditional \<and> q_revision q \<noteq> expected_revision then (2, 0, s)
        else
          let removed = q_depth q; before = w_seq (s_wal s)
          in case (if q_durable q then append_log s LOG_PURGE q (word_of_nat removed) 0 [] else (0, s)) of
               (rc, s1) \<Rightarrow>
               if rc < 0 then (-1, 0, s1)
               else
                 let s2 = upd_queue s1 (q_lock_id q) (\<lambda>q. snd (purge_queue_locked q))
                 in case (if q_durable q then finish_durable s2 before else (0, s2)) of (rc, s3) \<Rightarrow>
                      if rc < 0 then (-1, 0, s3) else (1, removed, s3))"

definition queue_purge :: "store \<Rightarrow> bytes \<Rightarrow> int \<times> nat \<times> store" where
  "queue_purge s name = queue_purge_checked s name 0 False"

definition queue_purge_if_revision :: "store \<Rightarrow> bytes \<Rightarrow> u64 \<Rightarrow> int \<times> nat \<times> store" where
  "queue_purge_if_revision s name expected_revision = queue_purge_checked s name expected_revision True"

definition tombstone :: "queue \<Rightarrow> queue" where
  "tombstone q = (let q1 = snd (purge_queue_locked q)
                  in q1\<lparr>q_live_bytes := 0, q_deleted := True, q_revision := q_revision q1 + 1\<rparr>)"

definition bound_anywhere :: "store \<Rightarrow> bytes \<Rightarrow> bool" where
  "bound_anywhere s name \<longleftrightarrow> (\<exists>x \<in> set (s_exchanges s). \<exists>b \<in> set (x_bindings x). b_queue b = name)"

definition queue_delete_if_revision :: "store \<Rightarrow> bytes \<Rightarrow> u64 \<Rightarrow> int \<times> nat \<times> store" where
  "queue_delete_if_revision s name expected_revision =
     (if \<not> name_valid name then (-1, 0, s)
      else case find_queue s name of None \<Rightarrow> (0, 0, s) | Some q \<Rightarrow>
        if q_revision q \<noteq> expected_revision then (2, 0, s)
        else if bound_anywhere s name then (3, 0, s)
        else
          let removed = q_depth q; before = w_seq (s_wal s)
          in case (if q_durable q then append_log s LOG_DELETE q (word_of_nat removed) 0 [] else (0, s)) of
               (rc, s1) \<Rightarrow>
               if rc < 0 then (-1, 0, s1)
               else
                 let s2 = upd_queue s1 (q_lock_id q) tombstone
                 in case (if q_durable q then finish_durable s2 before else (0, s2)) of (rc, s3) \<Rightarrow>
                      if rc < 0 then (-1, 0, s3) else (1, removed, s3))"

subsection \<open>Consumption\<close>

record queue_message =
  o_id :: u64
  o_tag :: u64
  o_owner :: u64
  o_data :: bytes
  o_count :: u32
  o_redelivered :: bool
  o_deadline :: u64

definition no_message :: queue_message where
  "no_message = \<lparr>o_id = 0, o_tag = 0, o_owner = 0, o_data = [], o_count = 0, o_redelivered = False,
                 o_deadline = 0\<rparr>"

definition next_tag :: "store \<Rightarrow> u64 \<times> store" where
  "next_tag s =
     (let t = s_next_delivery_tag s
      in if t \<noteq> 0 then (t, s\<lparr>s_next_delivery_tag := t + 1\<rparr>)
         else (t + 1, s\<lparr>s_next_delivery_tag := t + 2\<rparr>))"

text \<open>
  The scan from the hint: messages over their delivery limit are routed away or skipped, the
  first delayed message is remembered, and the first message that can be delivered ends it.
\<close>

definition over_limit :: "queue \<Rightarrow> message \<Rightarrow> bool" where
  "over_limit q m \<longleftrightarrow> q_max_deliveries q \<noteq> 0 \<and> q_dlq_name q \<noteq> [] \<and> q_max_deliveries q \<le> m_deliveries m"

fun consume_scan :: "nat list \<Rightarrow> store \<Rightarrow> nat \<Rightarrow> u64 \<Rightarrow> nat option \<Rightarrow> nat option \<times> nat option \<times> store" where
  "consume_scan [] s qid now delayed = (None, delayed, s)"
| "consume_scan (r # rs) s qid now delayed =
     (case get_queue s qid of None \<Rightarrow> (None, delayed, s) | Some q \<Rightarrow>
      case find_msg q r of None \<Rightarrow> consume_scan rs s qid now delayed | Some m \<Rightarrow>
      if m_state m = MESSAGE_READY \<and> m_sched m \<le> now
      then (if over_limit q m
            then (case dead_letter_locked s qid r False False [qid] of (routed, s1) \<Rightarrow>
                    if routed \<noteq> 0 then consume_scan rs s1 qid now delayed else (Some r, delayed, s1))
            else (Some r, delayed, s))
      else consume_scan rs s qid now
             (if m_state m = MESSAGE_READY \<and> delayed = None then Some r else delayed))"

definition consume_deliver ::
  "store \<Rightarrow> nat \<Rightarrow> nat \<Rightarrow> nat option \<Rightarrow> u64 \<Rightarrow> u64 \<Rightarrow> u64 \<Rightarrow> int \<times> queue_message \<times> store" where
  "consume_deliver s qid r delayed visibility_ms owner mono_now =
     (case get_queue s qid of None \<Rightarrow> (-1, no_message, s) | Some q \<Rightarrow>
      case find_msg q r of None \<Rightarrow> (-1, no_message, s) | Some m \<Rightarrow>
      case alloc s of (ok, s1) \<Rightarrow>
      if \<not> ok then (-1, no_message, s1)
      else case (if q_durable q then append_log s1 LOG_DELIVER q (m_id m) 0 [] else (0, s1)) of (rc, s2) \<Rightarrow>
        if rc < 0 then (-1, no_message, s2)
        else
          let deadline = mono_now + (if visibility_ms \<noteq> 0 then visibility_ms else 30000)
          in case next_tag s2 of (tag, s3) \<Rightarrow>
             case alloc_index s3 of (mem, s4) \<Rightarrow>
               let q1 = deliver_message mem q r deadline owner tag;
                   hint = (case delayed of Some d \<Rightarrow> Some d
                           | None \<Rightarrow> ready_hint_advance (tl (msgs_from q1 (Some r))));
                   s5 = upd_queue s4 qid
                     (\<lambda>q. (deliver_message mem q r deadline owner tag)\<lparr>q_ready_hint := hint\<rparr>);
                   out = \<lparr>o_id = m_id m, o_tag = tag, o_owner = owner, o_data = m_data m,
                          o_count = m_deliveries m + 1, o_redelivered = (m_deliveries m + 1 > 1),
                          o_deadline = deadline\<rparr>
               in case (if q_durable q then wait_store s5 else (0, s5)) of (wrc, s6) \<Rightarrow>
                    if wrc < 0 then (-1, out, s6) else (1, out, s6))"

definition queue_consume_for_owner ::
  "store \<Rightarrow> bytes \<Rightarrow> u64 \<Rightarrow> u64 \<Rightarrow> u64 \<Rightarrow> u64 \<Rightarrow> u64 \<Rightarrow> int \<times> queue_message \<times> store" where
  "queue_consume_for_owner s name visibility_ms owner now mono_now mono_later =
     (case find_queue s name of None \<Rightarrow> (-1, no_message, s) | Some q0 \<Rightarrow>
      let qid = q_lock_id q0; s1 = reap_queue_locked s qid now mono_now False [qid]
      in case get_queue s1 qid of None \<Rightarrow> (-1, no_message, s1) | Some q \<Rightarrow>
         if q_ready_hint q = None then (0, no_message, s1)
         else case consume_scan (refs (msgs_from q (q_ready_hint q))) s1 qid now None of (found, delayed, s2) \<Rightarrow>
           case found of None \<Rightarrow> (0, no_message, s2)
           | Some r \<Rightarrow> consume_deliver s2 qid r delayed visibility_ms owner mono_later)"

definition queue_consume :: "store \<Rightarrow> bytes \<Rightarrow> u64 \<Rightarrow> u64 \<Rightarrow> u64 \<Rightarrow> u64 \<Rightarrow> int \<times> queue_message \<times> store" where
  "queue_consume s name visibility_ms now mono_now mono_later =
     queue_consume_for_owner s name visibility_ms 0 now mono_now mono_later"

subsection \<open>Acknowledgement and rejection\<close>

text \<open>The delivery a tag and an owner name, as every acknowledgement resolves it.\<close>

definition owned_delivery :: "queue \<Rightarrow> u64 \<Rightarrow> u64 \<Rightarrow> message option" where
  "owned_delivery q tag owner =
     (case tag_find q tag of None \<Rightarrow> None
      | Some m \<Rightarrow> if m_state m \<noteq> MESSAGE_INFLIGHT \<or> m_owner m \<noteq> owner then None else Some m)"

text \<open>A record for a durable queue, and the barrier that must precede the change.\<close>

definition log_synced :: "store \<Rightarrow> log_op \<Rightarrow> queue \<Rightarrow> u64 \<Rightarrow> u64 \<Rightarrow> int \<times> store" where
  "log_synced s op q rid aux =
     (if \<not> q_durable q then (0, s)
      else case append_log s op q rid aux [] of (rc, s1) \<Rightarrow>
        if rc < 0 then (-1, s1) else sync_store s1)"

definition queue_ack_for_owner :: "store \<Rightarrow> bytes \<Rightarrow> u64 \<Rightarrow> u64 \<Rightarrow> int \<times> store" where
  "queue_ack_for_owner s name tag owner =
     (if tag = 0 then (-1, s)
      else case find_queue s name of None \<Rightarrow> (-1, s) | Some q \<Rightarrow>
        case owned_delivery q tag owner of None \<Rightarrow> (0, s) | Some m \<Rightarrow>
        case log_synced s LOG_ACK q (m_id m) 0 of (rc, s1) \<Rightarrow>
          if rc < 0 then (-1, s1)
          else (1, upd_queue s1 (q_lock_id q) (\<lambda>q. remove_message q (m_ref m))))"

definition queue_ack :: "store \<Rightarrow> bytes \<Rightarrow> u64 \<Rightarrow> int \<times> store" where
  "queue_ack s name tag = queue_ack_for_owner s name tag 0"

definition requeue_charged :: "queue \<Rightarrow> nat \<Rightarrow> u64 \<Rightarrow> queue" where
  "requeue_charged q r not_before_ms = charge_message (requeue_message q r not_before_ms) r"

definition queue_nack_for_owner_delay ::
  "store \<Rightarrow> bytes \<Rightarrow> u64 \<Rightarrow> u64 \<Rightarrow> bool \<Rightarrow> u64 \<Rightarrow> u64 \<Rightarrow> int \<times> store" where
  "queue_nack_for_owner_delay s name tag owner requeue delay_ms now =
     (if tag = 0 then (-1, s)
      else case find_queue s name of None \<Rightarrow> (-1, s) | Some q \<Rightarrow>
        case owned_delivery q tag owner of None \<Rightarrow> (0, s) | Some m \<Rightarrow>
        if \<not> requeue \<and> q_dlq_name q \<noteq> []
        then dead_letter_locked s (q_lock_id q) (m_ref m) False False [q_lock_id q]
        else if \<not> requeue
        then (case log_synced s LOG_ACK q (m_id m) 0 of (rc, s1) \<Rightarrow>
                if rc < 0 then (-1, s1)
                else (1, upd_queue s1 (q_lock_id q) (\<lambda>q. remove_message q (m_ref m))))
        else
          let not_before_ms = (if delay_ms \<noteq> 0 then now + delay_ms else 0)
          in case log_synced s LOG_REQUEUE q (m_id m) not_before_ms of (rc, s1) \<Rightarrow>
               if rc < 0 then (-1, s1)
               else (1, (upd_queue s1 (q_lock_id q) (\<lambda>q. requeue_charged q (m_ref m) not_before_ms))
                          \<lparr>s_redeliveries := s_redeliveries s1 + 1\<rparr>))"

definition queue_nack_for_owner :: "store \<Rightarrow> bytes \<Rightarrow> u64 \<Rightarrow> u64 \<Rightarrow> bool \<Rightarrow> u64 \<Rightarrow> int \<times> store" where
  "queue_nack_for_owner s name tag owner requeue now = queue_nack_for_owner_delay s name tag owner requeue 0 now"

definition queue_nack :: "store \<Rightarrow> bytes \<Rightarrow> u64 \<Rightarrow> bool \<Rightarrow> u64 \<Rightarrow> int \<times> store" where
  "queue_nack s name tag requeue now = queue_nack_for_owner s name tag 0 requeue now"

definition queue_delivery_snapshot :: "store \<Rightarrow> bytes \<Rightarrow> u64 \<Rightarrow> u64 \<Rightarrow> int \<times> queue_message \<times> store" where
  "queue_delivery_snapshot s name tag owner =
     (if name = [] \<or> tag = 0 \<or> owner = 0 then (-1, no_message, s)
      else case find_queue s name of None \<Rightarrow> (-1, no_message, s) | Some q \<Rightarrow>
        case owned_delivery q tag owner of None \<Rightarrow> (0, no_message, s) | Some m \<Rightarrow>
        case alloc s of (ok, s1) \<Rightarrow>
          if \<not> ok then (-1, no_message, s1)
          else (1, no_message\<lparr>o_id := m_id m, o_tag := m_tag m, o_data := m_data m,
                     o_count := m_deliveries m, o_redelivered := (m_deliveries m > 1)\<rparr>, s1))"

subsection \<open>Owners and durable consumers\<close>

fun requeue_owned :: "nat list \<Rightarrow> store \<Rightarrow> nat \<Rightarrow> u64 \<Rightarrow> store" where
  "requeue_owned [] s qid owner = s"
| "requeue_owned (r # rs) s qid owner =
     (case get_msg s qid r of None \<Rightarrow> requeue_owned rs s qid owner | Some m \<Rightarrow>
      if m_state m = MESSAGE_INFLIGHT \<and> m_owner m = owner
      then requeue_owned rs ((upd_queue s qid (\<lambda>q. requeue_message q r 0))
                               \<lparr>s_redeliveries := s_redeliveries s + 1\<rparr>) qid owner
      else requeue_owned rs s qid owner)"

fun requeue_owner_queues :: "nat list \<Rightarrow> store \<Rightarrow> u64 \<Rightarrow> store" where
  "requeue_owner_queues [] s owner = s"
| "requeue_owner_queues (qid # qids) s owner =
     (case get_queue s qid of None \<Rightarrow> requeue_owner_queues qids s owner | Some q \<Rightarrow>
      requeue_owner_queues qids (requeue_owned (refs (q_msgs q)) s qid owner) owner)"

definition queue_requeue_owner :: "store \<Rightarrow> u64 \<Rightarrow> store" where
  "queue_requeue_owner s owner =
     (if owner = 0 then s else requeue_owner_queues (map q_lock_id (s_queues s)) s owner)"

definition consumer_record :: "log_op \<Rightarrow> bytes \<Rightarrow> u64 \<Rightarrow> log_record" where
  "consumer_record op name owner =
     \<lparr>r_op = op, r_durable = True, r_name = name, r_id = owner, r_aux = 0, r_data = []\<rparr>"

text \<open>
  A registration.  The code writes through the pointer of its first allocation before it
  tests it: the answer \<open>None\<close> is the process dying there.
\<close>

definition queue_consumer_register :: "store \<Rightarrow> bytes \<Rightarrow> (int \<times> u64) option \<times> store" where
  "queue_consumer_register s name =
     (if \<not> name_valid name then (Some (-1, 0), s)
      else case find_consumer s name of Some c \<Rightarrow> (Some (0, c_owner c), s)
      | None \<Rightarrow>
        if w_failed (s_wal s) then (Some (-1, 0), s)
        else
          let owner = s_next_owner s
          in case (if w_fd (s_wal s) then append_store s (consumer_record LOG_CONSUMER name owner) True False
                   else (0, s)) of (rc, s1) \<Rightarrow>
            if rc < 0 then (Some (-1, 0), s1)
            else case alloc s1 of (ok, s2) \<Rightarrow>
              if \<not> ok then (None, s2)
              else case alloc s2 of (ok, s3) \<Rightarrow>
                if \<not> ok then (Some (-1, 0), s3)
                else (Some (0, owner),
                      s3\<lparr>s_consumers := \<lparr>c_name = name, c_owner = owner\<rparr> # s_consumers s3,
                         s_next_owner := (if s_next_owner s3 + 1 = 0 then 1 else s_next_owner s3 + 1),
                         s_meta_live := s_meta_live s3 + word_of_nat (LOG_HEADER + length name)\<rparr>))"

fun drop_consumer :: "bytes \<Rightarrow> consumer list \<Rightarrow> consumer list" where
  "drop_consumer name [] = []"
| "drop_consumer name (c # cs) = (if c_name c = name then cs else c # drop_consumer name cs)"

definition queue_consumer_unregister :: "store \<Rightarrow> bytes \<Rightarrow> int \<times> store" where
  "queue_consumer_unregister s name =
     (if \<not> name_valid name then (-1, s)
      else case find_consumer s name of None \<Rightarrow> (0, s)
      | Some c \<Rightarrow>
        case (if w_fd (s_wal s) then append_store s (consumer_record LOG_CONSUMER_DEL name 0) True False
              else (0, s)) of (rc, s1) \<Rightarrow>
          if rc < 0 then (-1, s1)
          else
            let s2 = s1\<lparr>s_consumers := drop_consumer name (s_consumers s1),
                        s_meta_live := s_meta_live s1 - word_of_nat (LOG_HEADER + length name)\<rparr>
            in (1, queue_requeue_owner s2 (c_owner c)))"

definition queue_consume_for_consumer ::
  "store \<Rightarrow> bytes \<Rightarrow> bytes \<Rightarrow> u64 \<Rightarrow> u64 \<Rightarrow> u64 \<Rightarrow> u64 \<Rightarrow> int \<times> queue_message \<times> store" where
  "queue_consume_for_consumer s queue consumer visibility_ms now mono_now mono_later =
     (if \<not> name_valid consumer then (-1, no_message, s)
      else case find_consumer s consumer of None \<Rightarrow> (0, no_message, s)
      | Some c \<Rightarrow> queue_consume_for_owner s queue visibility_ms (c_owner c) now mono_now mono_later)"

definition queue_consumer_lookup :: "store \<Rightarrow> bytes \<Rightarrow> u64 option" where
  "queue_consumer_lookup s name = (if name = [] then None else map_option c_owner (find_consumer s name))"

definition queue_consumer_count :: "store \<Rightarrow> nat" where
  "queue_consumer_count s = length (s_consumers s)"

end
