(* ===== verification/Queue_Views.thy ===== *)
theory Queue_Views
  imports Queue_Engine
begin

text \<open>
  The read-only interface of the queue engine (\<open>queue.c\<close>, from \<open>queue_peek\<close> on): browsing,
  snapshots, counters and the manifest.  None of these functions returns a store except
  through the allocation oracle, which is the only thing they advance.  Callbacks are
  modelled by the list of the values they are called with, in order.
\<close>

subsection \<open>Browsing\<close>

datatype peek_state = QUEUE_PEEK_READY | QUEUE_PEEK_DELAYED | QUEUE_PEEK_INFLIGHT

record snapshot =
  p_id :: u64
  p_expires :: u64
  p_not_before :: u64
  p_deadline :: u64
  p_data :: "bytes option"
  p_len :: nat
  p_deliveries :: u32
  p_state :: peek_state
  p_redelivered :: bool
  p_omitted :: bool

definition peek_state_of :: "u64 \<Rightarrow> message \<Rightarrow> peek_state" where
  "peek_state_of wall_now m =
     (if m_state m = MESSAGE_INFLIGHT then QUEUE_PEEK_INFLIGHT
      else if m_sched m > wall_now then QUEUE_PEEK_DELAYED else QUEUE_PEEK_READY)"

definition snapshot_of :: "u64 \<Rightarrow> message \<Rightarrow> snapshot" where
  "snapshot_of wall_now m =
     \<lparr>p_id = m_id m, p_expires = m_expires m,
      p_not_before = (if m_state m = MESSAGE_READY then m_sched m else 0),
      p_deadline = (if m_state m = MESSAGE_INFLIGHT then m_sched m else 0),
      p_data = None, p_len = length (m_data m), p_deliveries = m_deliveries m,
      p_state = peek_state_of wall_now m, p_redelivered = (m_deliveries m > 1), p_omitted = False\<rparr>"

definition peek_wanted :: "u64 \<Rightarrow> u64 \<Rightarrow> peek_state set \<Rightarrow> message \<Rightarrow> bool" where
  "peek_wanted after_id wall_now mask_set m \<longleftrightarrow>
     \<not> (m_id m \<le> after_id \<or> (m_expires m \<noteq> 0 \<and> m_expires m \<le> wall_now)) \<and>
     peek_state_of wall_now m \<in> mask_set"

text \<open>The copying loop; \<open>None\<close> is a failed allocation of a body.\<close>

fun peek_loop :: "message list \<Rightarrow> store \<Rightarrow> nat \<Rightarrow> u64 \<Rightarrow> u64 \<Rightarrow> peek_state set \<Rightarrow> bool \<Rightarrow> nat \<Rightarrow>
    snapshot list option \<times> store" where
  "peek_loop [] s room after_id wall_now mask_set bodies remaining = (Some [], s)"
| "peek_loop (m # ms) s room after_id wall_now mask_set bodies remaining =
     (if room = 0 then (Some [], s)
      else if \<not> peek_wanted after_id wall_now mask_set m
      then peek_loop ms s room after_id wall_now mask_set bodies remaining
      else
        let p = snapshot_of wall_now m; len = length (m_data m)
        in case (if bodies \<and> len \<le> remaining then alloc s else (True, s)) of (ok, s1) \<Rightarrow>
           if \<not> ok then (None, s1)
           else case peek_loop ms s1 (room - 1) after_id wall_now mask_set bodies
                       (if bodies \<and> len \<le> remaining then remaining - len else remaining) of
             (None, s2) \<Rightarrow> (None, s2)
           | (Some ps, s2) \<Rightarrow>
               (Some ((if \<not> bodies then p
                       else if len > remaining then p\<lparr>p_omitted := True\<rparr>
                       else p\<lparr>p_data := Some (m_data m)\<rparr>) # ps), s2))"

definition queue_peek_after ::
  "store \<Rightarrow> bytes \<Rightarrow> u64 \<Rightarrow> peek_state set \<Rightarrow> nat \<Rightarrow> bool \<Rightarrow> nat \<Rightarrow> u64 \<Rightarrow>
     int \<times> snapshot list \<times> u64 \<times> store" where
  "queue_peek_after s name after_id mask_set max_count bodies budget wall_now =
     (if \<not> name_valid name \<or> max_count = 0 \<or> mask_set = {} then (-1, [], 0, s)
      else case find_queue s name of None \<Rightarrow> (0, [], 0, s) | Some q \<Rightarrow>
        case alloc s of (ok, s1) \<Rightarrow>
        if \<not> ok then (-1, [], 0, s1)
        else case peek_loop (q_msgs q) s1 max_count after_id wall_now mask_set bodies budget of
          (None, s2) \<Rightarrow> (-1, [], q_revision q, s2)
        | (Some ps, s2) \<Rightarrow> (1, ps, q_revision q, s2))"

definition queue_peek :: "store \<Rightarrow> bytes \<Rightarrow> peek_state set \<Rightarrow> nat \<Rightarrow> bool \<Rightarrow> nat \<Rightarrow> u64 \<Rightarrow>
    int \<times> snapshot list \<times> store" where
  "queue_peek s name mask_set max_count bodies budget wall_now =
     (case queue_peek_after s name 0 mask_set max_count bodies budget wall_now of
        (rc, ps, _, s1) \<Rightarrow> (rc, ps, s1))"

definition queue_message_snapshot ::
  "store \<Rightarrow> bytes \<Rightarrow> u64 \<Rightarrow> bool \<Rightarrow> nat \<Rightarrow> u64 \<Rightarrow> int \<times> snapshot option \<times> store" where
  "queue_message_snapshot s name message_id include_body budget wall_now =
     (if \<not> name_valid name \<or> message_id = 0 then (-1, None, s)
      else case find_queue s name of None \<Rightarrow> (0, None, s) | Some q \<Rightarrow>
        case find (\<lambda>m. m_id m = message_id) (q_msgs q) of None \<Rightarrow> (0, None, s) | Some m \<Rightarrow>
        if m_expires m \<noteq> 0 \<and> m_expires m \<le> wall_now then (0, None, s)
        else
          let p = snapshot_of wall_now m
          in if \<not> include_body then (1, Some p, s)
             else if length (m_data m) > budget then (-2, Some p, s)
             else case alloc s of (ok, s1) \<Rightarrow>
               if \<not> ok then (-1, Some p, s1) else (1, Some (p\<lparr>p_data := Some (m_data m)\<rparr>), s1))"

subsection \<open>Counters\<close>

definition queue_depth :: "store \<Rightarrow> bytes \<Rightarrow> nat" where
  "queue_depth s name = (case find_queue s name of None \<Rightarrow> 0 | Some q \<Rightarrow> q_depth q)"

definition queue_inflight :: "store \<Rightarrow> bytes \<Rightarrow> nat" where
  "queue_inflight s name = (case find_queue s name of None \<Rightarrow> 0 | Some q \<Rightarrow> q_inflight q)"

definition queue_stats :: "store \<Rightarrow> bytes \<Rightarrow> (nat \<times> nat) option" where
  "queue_stats s name = map_option (\<lambda>q. (q_depth q, q_inflight q)) (find_queue s name)"

definition queue_revision :: "store \<Rightarrow> bytes \<Rightarrow> u64 option" where
  "queue_revision s name = map_option q_revision (find_queue s name)"

definition queue_incarnation :: "store \<Rightarrow> bytes \<Rightarrow> int \<times> u64" where
  "queue_incarnation s name =
     (if \<not> name_valid name then (-1, 0)
      else case find_queue s name of None \<Rightarrow> (0, 0) | Some q \<Rightarrow> (1, q_incarnation q))"

record queue_config =
  cf_durable :: bool
  cf_max_depth :: u64
  cf_max_deliveries :: u32
  cf_dead_letter :: bytes
  cf_revision :: u64
  cf_incarnation :: u64

definition queue_config_snapshot :: "store \<Rightarrow> bytes \<Rightarrow> int \<times> queue_config option" where
  "queue_config_snapshot s name =
     (if name = [] then (-1, None)
      else case find_queue s name of None \<Rightarrow> (0, None)
      | Some q \<Rightarrow>
        (1, Some \<lparr>cf_durable = q_durable q, cf_max_depth = q_max_depth q,
                  cf_max_deliveries = q_max_deliveries q, cf_dead_letter = q_dlq_name q,
                  cf_revision = q_revision q, cf_incarnation = q_incarnation q\<rparr>))"

definition owned_by :: "u64 \<Rightarrow> message \<Rightarrow> bool" where
  "owned_by owner m \<longleftrightarrow> m_state m = MESSAGE_INFLIGHT \<and> m_owner m = owner"

text \<open>The deliveries of an owner: through the tag index when it is complete, else over the list.\<close>

definition owner_inflight_in :: "queue \<Rightarrow> u64 \<Rightarrow> nat" where
  "owner_inflight_in q owner =
     (if q_inflight q \<noteq> 0 \<and> q_tag_buckets q \<noteq> [] \<and> q_tag_count q = q_inflight q
      then length (filter (\<lambda>r. case find_msg q r of None \<Rightarrow> False | Some m \<Rightarrow> owned_by owner m)
                     (concat (q_tag_buckets q)))
      else if q_inflight q \<noteq> 0 then length (filter (owned_by owner) (q_msgs q))
      else 0)"

definition queue_owner_inflight :: "store \<Rightarrow> u64 \<Rightarrow> nat" where
  "queue_owner_inflight s owner =
     (if owner = 0 then 0 else sum_list (map (\<lambda>q. owner_inflight_in q owner) (s_queues s)))"

definition live_queues :: "store \<Rightarrow> queue list" where
  "live_queues s = filter (\<lambda>q. \<not> q_deleted q) (s_queues s)"

definition queue_count :: "store \<Rightarrow> nat" where
  "queue_count s = length (live_queues s)"

definition queue_total_depth :: "store \<Rightarrow> nat" where
  "queue_total_depth s = sum_list (map q_depth (live_queues s))"

definition queue_total_inflight :: "store \<Rightarrow> nat" where
  "queue_total_inflight s = sum_list (map q_inflight (live_queues s))"

definition queue_redeliveries :: "store \<Rightarrow> u64" where
  "queue_redeliveries s = s_redeliveries s"

definition queue_deadlettered :: "store \<Rightarrow> u64" where
  "queue_deadlettered s = s_deadlettered s"

definition queue_foreach_stats :: "store \<Rightarrow> (bytes \<times> nat \<times> nat) list" where
  "queue_foreach_stats s = map (\<lambda>q. (q_name q, q_depth q, q_inflight q)) (live_queues s)"

record manifest_entry =
  e_name :: bytes
  e_durable :: bool
  e_incarnation :: u64
  e_depth :: nat
  e_inflight :: nat
  e_max_depth :: u64
  e_revision :: u64

fun manifest_loop :: "queue list \<Rightarrow> nat \<Rightarrow> manifest_entry list" where
  "manifest_loop [] room = []"
| "manifest_loop (q # qs) room =
     (if room = 0 then []
      else if q_deleted q then manifest_loop qs room
      else \<lparr>e_name = q_name q, e_durable = q_durable q, e_incarnation = q_incarnation q,
             e_depth = q_depth q, e_inflight = q_inflight q, e_max_depth = q_max_depth q,
             e_revision = q_revision q\<rparr> # manifest_loop qs (room - 1))"

definition queue_manifest_foreach :: "store \<Rightarrow> nat \<Rightarrow> manifest_entry list" where
  "queue_manifest_foreach s max_entries = manifest_loop (s_queues s) max_entries"

definition queue_persistence_failed :: "store \<Rightarrow> bool" where
  "queue_persistence_failed s = w_failed (s_wal s)"

definition exchange_count :: "store \<Rightarrow> nat" where
  "exchange_count s = length (s_exchanges s)"

definition exchange_binding_count :: "store \<Rightarrow> nat" where
  "exchange_binding_count s = sum_list (map x_binding_count (s_exchanges s))"

definition exchange_foreach_stats ::
  "store \<Rightarrow> (bytes \<times> bool \<times> ex_type \<times> bytes \<times> nat \<times> u64 \<times> u64 \<times> u64) list" where
  "exchange_foreach_stats s =
     map (\<lambda>x. (x_name x, x_durable x, x_type x, x_ae_name x, x_binding_count x, x_revision x,
               x_publish_attempts x, x_unroutable x)) (s_exchanges s)"

definition exchange_foreach_route :: "store \<Rightarrow> bytes \<Rightarrow> int \<times> (bytes \<times> bytes) list" where
  "exchange_foreach_route s name =
     (if name = [] then (-1, [])
      else case find_exchange s name of None \<Rightarrow> (0, [])
      | Some x \<Rightarrow> (1, map (\<lambda>b. (b_queue b, b_key b)) (x_bindings x)))"

definition exchange_route_exists :: "store \<Rightarrow> bytes \<Rightarrow> bytes \<Rightarrow> bytes \<Rightarrow> int" where
  "exchange_route_exists s name queue key =
     (if name = [] \<or> queue = [] then -1
      else case find_exchange s name of None \<Rightarrow> 0
      | Some x \<Rightarrow> if find_binding x queue key \<noteq> None then 1 else 0)"

definition exchange_unroutable :: "store \<Rightarrow> u64" where
  "exchange_unroutable s = s_unroutable s"

end
