(* ===== verification/Queue_Batch.thy ===== *)
theory Queue_Batch
  imports Queue_Engine
begin

text \<open>
  The batch operations (\<open>queue.c\<close>: \<open>queue_publish_batch\<close>, \<open>queue_consume_batch\<close>,
  \<open>ack_nack_batch_locked\<close>, \<open>queue_ack_batch\<close>, \<open>queue_nack_batch\<close>), which pass one durability point
  per batch.  A batch of messages is the list of their bodies.  The loops that hand out
  monotonic deadlines ask \<open>mono_at i\<close> for the i-th delivery.
\<close>

subsection \<open>Publishing\<close>

definition fresh_ids :: "nat \<Rightarrow> store \<Rightarrow> u64 list \<times> store" where
  "fresh_ids n s = (map (\<lambda>i. s_next_id s + word_of_nat i) [0..<n],
                    s\<lparr>s_next_id := s_next_id s + word_of_nat n\<rparr>)"

definition publish_records :: "u64 list \<Rightarrow> bytes list \<Rightarrow> batch_record list" where
  "publish_records ids bodies =
     map (\<lambda>(i, d). \<lparr>b_op = LOG_PUBLISH, b_id = i, b_aux = 0, b_data = d\<rparr>) (zip ids bodies)"

definition append_batch :: "store \<Rightarrow> bytes \<Rightarrow> batch_record list \<Rightarrow> int \<times> store" where
  "append_batch s name records =
     (case append_batch_records (s_wal s) name records of (rc, w) \<Rightarrow> (rc, s\<lparr>s_wal := w\<rparr>))"

fun append_messages :: "(u64 \<times> bytes) list \<Rightarrow> store \<Rightarrow> nat \<Rightarrow> int \<times> store" where
  "append_messages [] s qid = (0, s)"
| "append_messages ((i, d) # ms) s qid =
     (case append_message s qid i 0 d of (rc, s1) \<Rightarrow>
        if rc < 0 then (-1, s1) else append_messages ms s1 qid)"

definition queue_publish_batch :: "store \<Rightarrow> bytes \<Rightarrow> bytes list \<Rightarrow> u64 \<Rightarrow> u64 \<Rightarrow> int \<times> u64 list \<times> store" where
  "queue_publish_batch s name bodies now mono_now =
     (if name = [] \<or> bodies = [] then (-1, [], s)
      else case find_queue s name of None \<Rightarrow> (-1, [], s) | Some q0 \<Rightarrow>
        let qid = q_lock_id q0; s1 = reap_queue_locked s qid now mono_now False [qid]
        in case get_queue s1 qid of None \<Rightarrow> (-1, [], s1) | Some q \<Rightarrow>
           if q_max_depth q \<noteq> 0 \<and> word_of_nat (q_depth q) + word_of_nat (length bodies) > q_max_depth q
           then (-1, [], s1)
           else if \<exists>d \<in> set bodies. d = [] \<or> length d > QUEUE_MESSAGE_MAX then (-1, [], s1)
           else
             let before = w_seq (s_wal s1)
             in case alloc s1 of (ok1, s2) \<Rightarrow>
                case (if q_durable q then alloc s2 else (True, s2)) of (ok2, s3) \<Rightarrow>
                if \<not> ok1 \<or> \<not> ok2 then (-1, [], s3)
                else case fresh_ids (length bodies) s3 of (ids, s4) \<Rightarrow>
                  case (if q_durable q then append_batch s4 (q_name q) (publish_records ids bodies)
                        else (0, s4)) of (rc, s5) \<Rightarrow>
                  if rc < 0 then (-1, [], s5)
                  else case append_messages (zip ids bodies) s5 qid of (rc, s6) \<Rightarrow>
                    if rc < 0 then (-1, [], s6)
                    else case finish_durable s6 before of (rc, s7) \<Rightarrow> (rc, ids, s7))"

subsection \<open>Consuming\<close>

text \<open>
  The scan, which marks every message it picks as in flight before anything is logged; the
  first component of the result is false when a copy could not be allocated.
\<close>

fun consume_batch_scan ::
  "nat list \<Rightarrow> store \<Rightarrow> nat \<Rightarrow> u64 \<Rightarrow> u64 \<Rightarrow> u64 \<Rightarrow> (nat \<Rightarrow> u64) \<Rightarrow> nat \<Rightarrow> nat option \<Rightarrow>
     (nat \<times> queue_message) list \<Rightarrow> bool \<times> nat option \<times> (nat \<times> queue_message) list \<times> store" where
  "consume_batch_scan [] s qid now visibility_ms owner mono_at max_count delayed picked =
     (True, delayed, picked, s)"
| "consume_batch_scan (r # rs) s qid now visibility_ms owner mono_at max_count delayed picked =
     (if length picked \<ge> max_count then (True, delayed, picked, s)
      else case get_queue s qid of None \<Rightarrow> (True, delayed, picked, s) | Some q \<Rightarrow>
      case find_msg q r of
        None \<Rightarrow> consume_batch_scan rs s qid now visibility_ms owner mono_at max_count delayed picked
      | Some m \<Rightarrow>
        if m_state m = MESSAGE_READY \<and> m_sched m \<le> now
        then (case (if over_limit q m then dead_letter_locked s qid r False False [qid] else (0, s)) of
                (routed, s1) \<Rightarrow>
                if routed \<noteq> 0
                then consume_batch_scan rs s1 qid now visibility_ms owner mono_at max_count delayed picked
                else case alloc s1 of (ok, s2) \<Rightarrow>
                  if \<not> ok then (False, delayed, picked, s2)
                  else case next_tag s2 of (tag, s3) \<Rightarrow>
                    case alloc_index s3 of (mem, s4) \<Rightarrow>
                    let deadline = mono_at (length picked) + (if visibility_ms \<noteq> 0 then visibility_ms else 30000);
                        s5 = upd_queue s4 qid (\<lambda>q. deliver_message mem q r deadline owner tag);
                        out = no_message\<lparr>o_id := m_id m, o_tag := tag, o_data := m_data m,
                                o_count := m_deliveries m + 1, o_redelivered := (m_deliveries m + 1 > 1)\<rparr>
                    in consume_batch_scan rs s5 qid now visibility_ms owner mono_at max_count delayed
                         (picked @ [(r, out)]))
        else consume_batch_scan rs s qid now visibility_ms owner mono_at max_count
               (if m_state m = MESSAGE_READY \<and> delayed = None then Some r else delayed) picked)"

definition batch_hint :: "queue \<Rightarrow> nat option \<Rightarrow> (nat \<times> queue_message) list \<Rightarrow> nat option" where
  "batch_hint q delayed picked =
     (case delayed of Some d \<Rightarrow> Some d
      | None \<Rightarrow> ready_hint_advance
          (if picked = [] then msgs_from q (q_ready_hint q)
           else tl (msgs_from q (Some (fst (last picked))))))"

definition deliver_records :: "(nat \<times> queue_message) list \<Rightarrow> batch_record list" where
  "deliver_records picked =
     map (\<lambda>(r, out). \<lparr>b_op = LOG_DELIVER, b_id = o_id out, b_aux = 0, b_data = []\<rparr>) picked"

definition log_deliveries :: "store \<Rightarrow> queue \<Rightarrow> (nat \<times> queue_message) list \<Rightarrow> int \<times> store" where
  "log_deliveries s q picked =
     (if picked = [] \<or> \<not> q_durable q then (0, s)
      else case alloc s of (ok, s1) \<Rightarrow>
        if \<not> ok then (-1, s1) else append_batch s1 (q_name q) (deliver_records picked))"

definition queue_consume_batch ::
  "store \<Rightarrow> bytes \<Rightarrow> u64 \<Rightarrow> u64 \<Rightarrow> nat \<Rightarrow> u64 \<Rightarrow> u64 \<Rightarrow> (nat \<Rightarrow> u64) \<Rightarrow> int \<times> queue_message list \<times> store" where
  "queue_consume_batch s name visibility_ms owner max_count now mono_now mono_at =
     (if name = [] \<or> max_count = 0 then (-1, [], s)
      else case find_queue s name of None \<Rightarrow> (-1, [], s) | Some q0 \<Rightarrow>
        let qid = q_lock_id q0; s1 = reap_queue_locked s qid now mono_now False [qid];
            before = w_seq (s_wal s1)
        in case get_queue s1 qid of None \<Rightarrow> (-1, [], s1) | Some q1 \<Rightarrow>
           if q_ready_hint q1 = None then (0, [], s1)
           else case alloc s1 of (ok, s2) \<Rightarrow>
             if \<not> ok then (-1, [], s2)
             else case consume_batch_scan (refs (msgs_from q1 (q_ready_hint q1))) s2 qid now visibility_ms
                         owner mono_at max_count None [] of (ok, delayed, picked, s3) \<Rightarrow>
               if \<not> ok then (-1, [], s3)
               else
                 let s4 = upd_queue s3 qid (\<lambda>q. q\<lparr>q_ready_hint := batch_hint q delayed picked\<rparr>)
                 in case log_deliveries s4 q1 picked of (rc, s5) \<Rightarrow>
                    case (if rc = 0 \<and> picked \<noteq> [] \<and> q_durable q1 then finish_durable s5 before
                          else (rc, s5)) of (rc, s6) \<Rightarrow>
                    (rc, if rc \<noteq> 0 then [] else map snd picked, s6))"

subsection \<open>Acknowledging and rejecting\<close>

definition batch_delivery :: "queue \<Rightarrow> u64 \<Rightarrow> u64 \<Rightarrow> u64 \<Rightarrow> message option" where
  "batch_delivery q tag owner owner_fallback =
     (case tag_find q tag of None \<Rightarrow> None
      | Some m \<Rightarrow>
        if m_state m \<noteq> MESSAGE_INFLIGHT \<or>
           (m_owner m \<noteq> owner \<and>
            (\<not> (owner_fallback \<noteq> 0 \<and> owner_fallback \<noteq> owner) \<or> m_owner m \<noteq> owner_fallback))
        then None else Some m)"

text \<open>
  The first pass, which logs: \<open>LOG_REQUEUE\<close> records for a requeueing rejection, else \<open>LOG_ACK\<close>
  records, or dead-letter routing where the queue has a policy.
\<close>

fun batch_log_pass :: "u64 list \<Rightarrow> store \<Rightarrow> nat \<Rightarrow> bool \<Rightarrow> u64 \<Rightarrow> u64 \<Rightarrow> nat \<Rightarrow> int \<times> nat \<times> store" where
  "batch_log_pass [] s qid requeue owner fallback acked = (0, acked, s)"
| "batch_log_pass (t # ts) s qid requeue owner fallback acked =
     (case get_queue s qid of None \<Rightarrow> (0, acked, s) | Some q \<Rightarrow>
      case batch_delivery q t owner fallback of
        None \<Rightarrow> batch_log_pass ts s qid requeue owner fallback acked
      | Some m \<Rightarrow>
        if \<not> requeue \<and> q_dlq_name q \<noteq> []
        then (case dead_letter_locked s qid (m_ref m) False False [qid] of (routed, s1) \<Rightarrow>
                if routed < 0 then (-1, acked, s1)
                else batch_log_pass ts s1 qid requeue owner fallback
                       (if routed > 0 then Suc acked else acked))
        else case (if q_durable q
                   then append_log_deferred s (if requeue then LOG_REQUEUE else LOG_ACK) q (m_id m)
                   else (0, s)) of (rc, s1) \<Rightarrow>
          if rc < 0 then (-1, acked, s1)
          else batch_log_pass ts s1 qid requeue owner fallback (Suc acked))"

text \<open>The second pass, which applies at most as many changes as the first one counted.\<close>

fun batch_apply_pass :: "u64 list \<Rightarrow> store \<Rightarrow> nat \<Rightarrow> bool \<Rightarrow> u64 \<Rightarrow> u64 \<Rightarrow> nat \<Rightarrow> store" where
  "batch_apply_pass [] s qid requeue owner fallback budget = s"
| "batch_apply_pass (t # ts) s qid requeue owner fallback budget =
     (if budget = 0 then s
      else case get_queue s qid of None \<Rightarrow> s | Some q \<Rightarrow>
      case batch_delivery q t owner fallback of
        None \<Rightarrow> batch_apply_pass ts s qid requeue owner fallback budget
      | Some m \<Rightarrow>
        batch_apply_pass ts
          (if requeue
           then (upd_queue s qid (\<lambda>q. requeue_charged q (m_ref m) 0))\<lparr>s_redeliveries := s_redeliveries s + 1\<rparr>
           else upd_queue s qid (\<lambda>q. remove_message q (m_ref m)))
          qid requeue owner fallback (budget - 1))"

definition ack_nack_batch_locked ::
  "store \<Rightarrow> nat \<Rightarrow> u64 \<Rightarrow> u64 \<Rightarrow> u64 list \<Rightarrow> bool \<Rightarrow> int \<times> nat \<times> store" where
  "ack_nack_batch_locked s qid owner fallback tags requeue =
     (case get_queue s qid of None \<Rightarrow> (-1, 0, s) | Some q \<Rightarrow>
      let before = w_seq (s_wal s)
      in case batch_log_pass tags s qid requeue owner fallback 0 of (rc, acked, s1) \<Rightarrow>
         if rc < 0 then (-1, 0, s1)
         else case (if q_durable q \<and> acked \<noteq> 0 \<and> w_seq (s_wal s1) \<noteq> before then sync_store s1
                    else (0, s1)) of (rc, s2) \<Rightarrow>
           if rc < 0 then (-1, 0, s2)
           else (0, acked, batch_apply_pass tags s2 qid requeue owner fallback acked))"

definition queue_ack_batch :: "store \<Rightarrow> bytes \<Rightarrow> u64 \<Rightarrow> u64 \<Rightarrow> u64 list \<Rightarrow> int \<times> nat \<times> store" where
  "queue_ack_batch s name owner fallback tags =
     (if name = [] \<or> tags = [] then (-1, 0, s)
      else case find_queue s name of None \<Rightarrow> (-1, 0, s) | Some q \<Rightarrow>
        ack_nack_batch_locked s (q_lock_id q) owner fallback tags False)"

definition queue_nack_batch :: "store \<Rightarrow> bytes \<Rightarrow> u64 \<Rightarrow> u64 \<Rightarrow> u64 list \<Rightarrow> bool \<Rightarrow> int \<times> nat \<times> store" where
  "queue_nack_batch s name owner fallback tags requeue =
     (if name = [] \<or> tags = [] then (-1, 0, s)
      else case find_queue s name of None \<Rightarrow> (-1, 0, s) | Some q \<Rightarrow>
        ack_nack_batch_locked s (q_lock_id q) owner fallback tags requeue)"

end
