(* ===== verification/Queue_Exchange.thy ===== *)
theory Queue_Exchange
  imports Queue_Engine
begin

text \<open>
  Exchanges and routing (\<open>queue.c\<close>: \<open>exchange_declare\<close> to \<open>exchange_publish\<close>).  An exchange
  type beyond the three of the enumeration is rejected at the interface and has no value
  here.  A fan-out publication asks the monotonic clock once per target; \<open>mono_at i\<close> is the
  answer to the question of the i-th target.
\<close>

subsection \<open>Declaration and bindings\<close>

definition exchange_payload_valid :: "bytes \<Rightarrow> bytes \<Rightarrow> bool" where
  "exchange_payload_valid name key \<longleftrightarrow>
     name \<noteq> [] \<and> length name \<le> EXCHANGE_NAME_MAX \<and> length key \<le> ROUTING_KEY_MAX"

definition ex_type_code :: "ex_type \<Rightarrow> byte" where
  "ex_type_code t = (case t of EXCHANGE_DIRECT \<Rightarrow> 0 | EXCHANGE_FANOUT \<Rightarrow> 1 | EXCHANGE_TOPIC \<Rightarrow> 2)"

definition exchange_record :: "log_op \<Rightarrow> bytes \<Rightarrow> u64 \<Rightarrow> bytes \<Rightarrow> log_record" where
  "exchange_record op name revision payload =
     \<lparr>r_op = op, r_durable = True, r_name = name, r_id = 0, r_aux = revision, r_data = payload\<rparr>"

definition exdeclare_payload :: "ex_type \<Rightarrow> bytes \<Rightarrow> bytes" where
  "exdeclare_payload type ae_name =
     ex_type_code type # (if ae_name = [] then [] else put16 (word_of_nat (length ae_name)) @ ae_name)"

definition same_exchange :: "exchange \<Rightarrow> bool \<Rightarrow> ex_type \<Rightarrow> bytes \<Rightarrow> bool" where
  "same_exchange x dur type ae_name \<longleftrightarrow> x_durable x = dur \<and> x_type x = type \<and> x_ae_name x = ae_name"

definition exchange_declare :: "store \<Rightarrow> bytes \<Rightarrow> bool \<Rightarrow> ex_type \<Rightarrow> bytes \<Rightarrow> int \<times> store" where
  "exchange_declare s name dur type ae_name =
     (if \<not> exchange_payload_valid name [] then (-1, s)
      else if ae_name \<noteq> [] \<and> (length ae_name > EXCHANGE_NAME_MAX \<or> ae_name = name) then (-1, s)
      else case find_exchange s name of
        Some existing \<Rightarrow> (if same_exchange existing dur type ae_name then 0 else -1, s)
      | None \<Rightarrow>
        case (if dur
              then append_store s (exchange_record LOG_EXDECLARE name 1 (exdeclare_payload type ae_name)) True False
              else (0, s)) of (rc, s1) \<Rightarrow>
          if rc < 0 then (-1, s1)
          else case create_exchange s1 name dur type ae_name of (ok, s2) \<Rightarrow> (if ok then 0 else -1, s2))"

definition binding_payload :: "bytes \<Rightarrow> bytes \<Rightarrow> bytes" where
  "binding_payload queue key =
     put16 (word_of_nat (length queue)) @ queue @ put16 (word_of_nat (length key)) @ key"

text \<open>
  The three allocations of a binding: the struct, then both names, the second name being
  asked for even when the first was refused.
\<close>

definition alloc_binding :: "store \<Rightarrow> bool \<times> store" where
  "alloc_binding s =
     (case alloc s of (ok0, s1) \<Rightarrow>
        if \<not> ok0 then (False, s1)
        else case alloc s1 of (ok1, s2) \<Rightarrow> case alloc s2 of (ok2, s3) \<Rightarrow> (ok1 \<and> ok2, s3))"

definition add_binding_locked :: "store \<Rightarrow> exchange \<Rightarrow> bytes \<Rightarrow> bytes \<Rightarrow> int \<times> store" where
  "add_binding_locked s x queue key =
     (if x_binding_count x \<ge> EXCHANGE_BINDINGS_MAX then (-1, s)
      else case alloc_binding s of (ok, s1) \<Rightarrow>
        if \<not> ok then (-1, s1)
        else (0, upd_exchange s1 (x_name x)
                   (\<lambda>x. x\<lparr>x_bindings := \<lparr>b_queue = queue, b_key = key, b_footprint = 0\<rparr> # x_bindings x,
                          x_binding_count := Suc (x_binding_count x)\<rparr>)))"

definition exchange_bind :: "store \<Rightarrow> bytes \<Rightarrow> bytes \<Rightarrow> bytes \<Rightarrow> int \<times> store" where
  "exchange_bind s ex_name queue key =
     (if \<not> exchange_payload_valid ex_name key \<or> \<not> name_valid queue then (-1, s)
      else case find_exchange s ex_name of None \<Rightarrow> (-1, s) | Some x \<Rightarrow>
        if find_queue s queue = None then (-1, s)
        else if find_binding x queue key \<noteq> None then (0, s)
        else if x_type x = EXCHANGE_TOPIC \<and> topic_word_count key > TOPIC_WORDS_MAX then (-1, s)
        else
          let new_revision = x_revision x + 1
          in case (if x_durable x
                   then append_store s (exchange_record LOG_EXBIND (x_name x) new_revision
                                          (binding_payload queue key)) True False
                   else (0, s)) of (rc, s1) \<Rightarrow>
            if rc < 0 then (-1, s1)
            else case add_binding_locked s1 x queue key of (rc, s2) \<Rightarrow>
              (rc, if rc = 0 then upd_exchange s2 (x_name x) (\<lambda>x. x\<lparr>x_revision := new_revision\<rparr>) else s2))"

fun drop_binding :: "bytes \<Rightarrow> bytes \<Rightarrow> binding list \<Rightarrow> binding list" where
  "drop_binding queue key [] = []"
| "drop_binding queue key (b # bs) =
     (if b_queue b = queue \<and> b_key b = key then bs else b # drop_binding queue key bs)"

definition exchange_unbind_checked :: "store \<Rightarrow> bytes \<Rightarrow> bytes \<Rightarrow> bytes \<Rightarrow> u64 \<Rightarrow> bool \<Rightarrow> int \<times> store" where
  "exchange_unbind_checked s ex_name queue key expected_revision conditional =
     (if \<not> exchange_payload_valid ex_name key \<or> \<not> name_valid queue then (-1, s)
      else case find_exchange s ex_name of None \<Rightarrow> (0, s) | Some x \<Rightarrow>
        if conditional \<and> x_revision x \<noteq> expected_revision then (2, s)
        else if find_binding x queue key = None then (0, s)
        else
          let new_revision = x_revision x + 1
          in case (if x_durable x
                   then append_store s (exchange_record LOG_EXUNBIND (x_name x) new_revision
                                          (binding_payload queue key)) True False
                   else (0, s)) of (rc, s1) \<Rightarrow>
            if rc < 0 then (-1, s1)
            else (1, upd_exchange s1 (x_name x)
                       (\<lambda>x. x\<lparr>x_bindings := drop_binding queue key (x_bindings x),
                              x_binding_count := x_binding_count x - 1, x_revision := new_revision\<rparr>)))"

definition exchange_unbind :: "store \<Rightarrow> bytes \<Rightarrow> bytes \<Rightarrow> bytes \<Rightarrow> int \<times> store" where
  "exchange_unbind s ex_name queue key = exchange_unbind_checked s ex_name queue key 0 False"

definition exchange_unbind_if_revision :: "store \<Rightarrow> bytes \<Rightarrow> bytes \<Rightarrow> bytes \<Rightarrow> u64 \<Rightarrow> int \<times> store" where
  "exchange_unbind_if_revision s ex_name queue key expected_revision =
     exchange_unbind_checked s ex_name queue key expected_revision True"

definition exchange_revision :: "store \<Rightarrow> bytes \<Rightarrow> int \<times> u64" where
  "exchange_revision s name =
     (if name = [] then (-1, 0)
      else case find_exchange s name of None \<Rightarrow> (0, 0) | Some x \<Rightarrow> (1, x_revision x))"

fun drop_exchange :: "bytes \<Rightarrow> exchange list \<Rightarrow> exchange list" where
  "drop_exchange name [] = []"
| "drop_exchange name (x # xs) = (if x_name x = name then xs else x # drop_exchange name xs)"

definition exchange_delete_if_revision :: "store \<Rightarrow> bytes \<Rightarrow> u64 \<Rightarrow> int \<times> store" where
  "exchange_delete_if_revision s name expected_revision =
     (if \<not> exchange_payload_valid name [] then (-1, s)
      else case find_exchange s name of None \<Rightarrow> (0, s) | Some x \<Rightarrow>
        if x_revision x \<noteq> expected_revision then (2, s)
        else if x_binding_count x \<noteq> 0 then (3, s)
        else if \<exists>c \<in> set (s_exchanges s). x_name c \<noteq> name \<and> x_ae_name c = name then (4, s)
        else case (if x_durable x
                   then append_store s (exchange_record LOG_EXDELETE (x_name x) 0 []) True False
                   else (0, s)) of (rc, s1) \<Rightarrow>
          if rc < 0 then (-1, s1)
          else (1, s1\<lparr>s_exchanges := drop_exchange name (s_exchanges s1)\<rparr>))"

definition exchange_set_alternate_if_revision :: "store \<Rightarrow> bytes \<Rightarrow> bytes \<Rightarrow> u64 \<Rightarrow> int \<times> store" where
  "exchange_set_alternate_if_revision s name alternate expected_revision =
     (if \<not> exchange_payload_valid name [] \<or> alternate = [] \<or> length alternate > EXCHANGE_NAME_MAX \<or>
         alternate = name then (-1, s)
      else case find_exchange s name of None \<Rightarrow> (0, s) | Some x \<Rightarrow>
        if x_revision x \<noteq> expected_revision then (2, s)
        else if x_ae_name x = alternate then (1, s)
        else
          let new_revision = x_revision x + 1
          in case alloc s of (ok, s1) \<Rightarrow>
            if \<not> ok then (-1, s1)
            else case (if x_durable x
                       then append_store s1 (exchange_record LOG_EXUPDATE (x_name x) new_revision
                              (put16 (word_of_nat (length alternate)) @ alternate)) True False
                       else (0, s1)) of (rc, s2) \<Rightarrow>
              if rc < 0 then (-1, s2)
              else (1, upd_exchange s2 name
                         (\<lambda>x. x\<lparr>x_ae_name := alternate, x_revision := new_revision\<rparr>)))"

subsection \<open>Routing\<close>

definition binding_matches :: "exchange \<Rightarrow> bytes \<Rightarrow> binding \<Rightarrow> bool" where
  "binding_matches x key b =
     (case x_type x of EXCHANGE_DIRECT \<Rightarrow> b_key b = key
      | EXCHANGE_TOPIC \<Rightarrow> topic_matches (b_key b) key
      | EXCHANGE_FANOUT \<Rightarrow> True)"

text \<open>The targets found so far, in the order of the array.\<close>

fun collect_targets :: "store \<Rightarrow> exchange \<Rightarrow> bytes \<Rightarrow> binding list \<Rightarrow> nat list \<Rightarrow> nat list" where
  "collect_targets s x key [] targets = targets"
| "collect_targets s x key (b # bs) targets =
     (if \<not> binding_matches x key b then collect_targets s x key bs targets
      else case find_queue s (b_queue b) of None \<Rightarrow> collect_targets s x key bs targets
      | Some q \<Rightarrow>
        collect_targets s x key bs
          (if q_lock_id q \<notin> set targets \<and> length targets < EXCHANGE_BINDINGS_MAX
           then targets @ [q_lock_id q] else targets))"

text \<open>
  Route resolution; the recursion of the code is at most one hop deep.  \<open>None\<close> is the
  unknown exchange.
\<close>

definition resolve_default :: "store \<Rightarrow> bytes \<Rightarrow> nat list" where
  "resolve_default s key =
     (if key = [] then [] else case find_queue s key of None \<Rightarrow> [] | Some q \<Rightarrow> [q_lock_id q])"

definition exchange_resolve_locked :: "store \<Rightarrow> bytes \<Rightarrow> bytes \<Rightarrow> nat list option" where
  "exchange_resolve_locked s ex_name key =
     (if ex_name = [] then Some (resolve_default s key)
      else case find_exchange s ex_name of None \<Rightarrow> None | Some x \<Rightarrow>
        let targets = collect_targets s x key (x_bindings x) []
        in if targets \<noteq> [] then Some targets
           else if x_ae_name x = [] then Some []
           else case find_exchange s (x_ae_name x) of None \<Rightarrow> Some []
             | Some ax \<Rightarrow> Some (collect_targets s ax key (x_bindings ax) []))"

text \<open>The insertion sort of the targets by creation order.\<close>

definition insert_target :: "nat \<Rightarrow> nat list \<Rightarrow> nat list" where
  "insert_target t ts =
     rev (dropWhile (\<lambda>u. u > t) (rev ts)) @ [t] @ rev (takeWhile (\<lambda>u. u > t) (rev ts))"

definition sort_targets :: "nat list \<Rightarrow> nat list" where
  "sort_targets ts = foldl (\<lambda>acc t. insert_target t acc) [] ts"

fun check_capacity :: "nat list \<Rightarrow> store \<Rightarrow> nat list \<Rightarrow> u64 \<Rightarrow> (nat \<Rightarrow> u64) \<Rightarrow> nat \<Rightarrow> bool \<times> store" where
  "check_capacity [] s locks now mono_at i = (True, s)"
| "check_capacity (t # ts) s locks now mono_at i =
     (let s1 = reap_queue_locked s t now (mono_at i) False locks
      in case get_queue s1 t of None \<Rightarrow> (False, s1) | Some q \<Rightarrow>
         if queue_full q then (False, s1) else check_capacity ts s1 locks now mono_at (Suc i))"

fun publish_targets :: "nat list \<Rightarrow> store \<Rightarrow> u64 \<Rightarrow> bytes \<Rightarrow> int \<times> store" where
  "publish_targets [] s expires_ms data = (0, s)"
| "publish_targets (t # ts) s expires_ms data =
     (case get_queue s t of None \<Rightarrow> (-1, s) | Some q \<Rightarrow>
      let mid = s_next_id s; s1 = s\<lparr>s_next_id := mid + 1\<rparr>
      in case (if q_durable q then append_log s1 LOG_PUBLISH q mid expires_ms data else (0, s1)) of
           (rc, s2) \<Rightarrow>
           if rc < 0 then (-1, s2)
           else case append_message s2 t mid expires_ms data of (rc, s3) \<Rightarrow>
             if rc < 0 then (-1, s3) else publish_targets ts s3 expires_ms data)"

definition count_attempt :: "store \<Rightarrow> bytes \<Rightarrow> bool \<Rightarrow> store" where
  "count_attempt s ex_name unroutable =
     (if ex_name = [] then s
      else upd_exchange s ex_name
             (\<lambda>x. x\<lparr>x_publish_attempts := x_publish_attempts x + 1,
                    x_unroutable := (if unroutable then x_unroutable x + 1 else x_unroutable x)\<rparr>))"

definition exchange_publish ::
  "store \<Rightarrow> bytes \<Rightarrow> bytes \<Rightarrow> bytes \<Rightarrow> u64 \<Rightarrow> u64 \<Rightarrow> (nat \<Rightarrow> u64) \<Rightarrow> int \<times> nat \<times> store" where
  "exchange_publish s ex_name key data ttl_ms now mono_at =
     (if length ex_name > EXCHANGE_NAME_MAX \<or> length key > ROUTING_KEY_MAX \<or>
         length data > QUEUE_MESSAGE_MAX then (-1, 0, s)
      else case exchange_resolve_locked s ex_name key of None \<Rightarrow> (-1, 0, s)
      | Some targets \<Rightarrow>
        let s1 = count_attempt s ex_name (targets = [])
        in if targets = [] then (0, 0, s1\<lparr>s_unroutable := s_unroutable s1 + 1\<rparr>)
           else
             let ts = sort_targets targets
             in case check_capacity ts s1 ts now mono_at 0 of (ok, s2) \<Rightarrow>
                if \<not> ok then (-1, 0, s2)
                else
                  let expires_ms = (if ttl_ms \<noteq> 0 then now + ttl_ms else 0); before = w_seq (s_wal s2)
                  in case publish_targets ts s2 expires_ms data of (rc, s3) \<Rightarrow>
                     if rc < 0 then (-1, 0, s3)
                     else case finish_durable s3 before of (rc, s4) \<Rightarrow>
                       (rc, if rc = 0 then length targets else 0, s4))"

end
