(* ===== verification/Queue_Tx.thy ===== *)
theory Queue_Tx
  imports Queue_Exchange
begin

text \<open>
  The queue half of the atomic cache-plus-message transactions (\<open>queue.c\<close>:
  \<open>queue_tx_prepare\<close>, \<open>queue_tx_commit\<close>, \<open>queue_tx_abort\<close>, \<open>queue_tx_resolve\<close>,
  \<open>tx_materialize_locked\<close>).  A prepared transaction is a value of type \<open>queue_tx\<close> that the
  caller holds while the metadata lock stays taken.  The message has no expiry on this
  path.
\<close>

definition tx_target_bytes :: "tx_target \<Rightarrow> bytes" where
  "tx_target_bytes t = put16 (word_of_nat (length (t_name t))) @ t_name t @ put64 (t_msg_id t)"

definition tx_payload :: "u64 \<Rightarrow> tx_target list \<Rightarrow> bytes \<Rightarrow> bytes" where
  "tx_payload tid targets data =
     put64 tid @ put32 (word_of_nat (length data)) @ put64 0 @ put16 (word_of_nat (length targets)) @
     concat (map tx_target_bytes targets) @ data"

text \<open>The targets of an exchange; \<open>None\<close> when one of them is not durable.\<close>

fun collect_tx_targets :: "store \<Rightarrow> exchange \<Rightarrow> bytes \<Rightarrow> binding list \<Rightarrow> nat list \<Rightarrow> nat list option" where
  "collect_tx_targets s x key [] targets = Some targets"
| "collect_tx_targets s x key (b # bs) targets =
     (if \<not> binding_matches x key b then collect_tx_targets s x key bs targets
      else case find_queue s (b_queue b) of None \<Rightarrow> collect_tx_targets s x key bs targets
      | Some q \<Rightarrow>
        if \<not> q_durable q then None
        else collect_tx_targets s x key bs
               (if q_lock_id q \<notin> set targets \<and> length targets < EXCHANGE_BINDINGS_MAX
                then targets @ [q_lock_id q] else targets))"

definition tx_targets_of :: "store \<Rightarrow> bytes \<Rightarrow> bytes \<Rightarrow> nat list option" where
  "tx_targets_of s ex_name key =
     (if ex_name = []
      then (if key = [] \<or> length key > QUEUE_NAME_MAX then None
            else case find_queue s key of None \<Rightarrow> None | Some q \<Rightarrow> Some [q_lock_id q])
      else case find_exchange s ex_name of None \<Rightarrow> None
        | Some x \<Rightarrow> collect_tx_targets s x key (x_bindings x) [])"

text \<open>The capacity pass: the metadata lock is held, the queue locks are not.\<close>

fun tx_capacity :: "nat list \<Rightarrow> store \<Rightarrow> u64 \<Rightarrow> (nat \<Rightarrow> u64) \<Rightarrow> nat \<Rightarrow> bool \<times> store" where
  "tx_capacity [] s now mono_at i = (True, s)"
| "tx_capacity (t # ts) s now mono_at i =
     (let s1 = reap_queue_locked s t now (mono_at i) True []
      in case get_queue s1 t of None \<Rightarrow> (False, s1) | Some q \<Rightarrow>
         if queue_full q then (False, s1) else tx_capacity ts s1 now mono_at (Suc i))"

text \<open>The reservation of one message per target; \<open>None\<close> when a name could not be allocated.\<close>

fun tx_reserve :: "nat list \<Rightarrow> store \<Rightarrow> tx_target list option \<times> store" where
  "tx_reserve [] s = (Some [], s)"
| "tx_reserve (t # ts) s =
     (case get_queue s t of None \<Rightarrow> (None, s) | Some q \<Rightarrow>
      case alloc s of (ok, s1) \<Rightarrow>
      if \<not> ok then (None, s1)
      else
        case tx_reserve ts (s1\<lparr>s_next_id := s_next_id s1 + 1\<rparr>) of
          (None, s2) \<Rightarrow> (None, s2)
        | (Some targets, s2) \<Rightarrow>
            (Some (\<lparr>t_name = q_name q, t_queue = Some t, t_msg_id = s_next_id s1\<rparr> # targets), s2))"

definition tx_record :: "log_op \<Rightarrow> bytes \<Rightarrow> bytes \<Rightarrow> log_record" where
  "tx_record op source payload =
     \<lparr>r_op = op, r_durable = True, r_name = source, r_id = 0, r_aux = 0, r_data = payload\<rparr>"

datatype tx_outcome = Tx_Error | Tx_Unroutable | Tx_Prepared queue_tx

definition queue_tx_prepare ::
  "store \<Rightarrow> bytes \<Rightarrow> bytes \<Rightarrow> bytes \<Rightarrow> u64 \<Rightarrow> u64 \<Rightarrow> (nat \<Rightarrow> u64) \<Rightarrow> tx_outcome \<times> store" where
  "queue_tx_prepare s ex_name key data tid now mono_at =
     (if length data > QUEUE_MESSAGE_MAX \<or> length ex_name > EXCHANGE_NAME_MAX \<or>
         length key > ROUTING_KEY_MAX then (Tx_Error, s)
      else if \<not> w_fd (s_wal s) \<or> w_failed (s_wal s) then (Tx_Error, s)
      else case tx_targets_of s ex_name key of None \<Rightarrow> (Tx_Error, s) | Some ts \<Rightarrow>
        if ts = [] then (Tx_Unroutable, s)
        else case tx_capacity ts s now mono_at 0 of (ok, s1) \<Rightarrow>
          if \<not> ok then (Tx_Error, s1)
          else case alloc s1 of (ok0, s2) \<Rightarrow>
            if \<not> ok0 then (Tx_Error, s2)
            else case alloc s2 of (ok1, s3) \<Rightarrow> case alloc s3 of (ok2, s4) \<Rightarrow> case alloc s4 of (ok3, s5) \<Rightarrow>
              if \<not> (ok1 \<and> ok2 \<and> ok3) then (Tx_Error, s5)
              else case tx_reserve ts s5 of (None, s6) \<Rightarrow> (Tx_Error, s6)
                | (Some targets, s6) \<Rightarrow>
                  let payload = tx_payload tid targets data;
                      source = (if ex_name \<noteq> [] then ex_name else key);
                      s7 = s6\<lparr>s_meta_live := s_meta_live s6 + word_of_nat (length payload)\<rparr>
                  in case alloc s7 of (ok4, s8) \<Rightarrow>
                     if \<not> ok4 then (Tx_Error, s8)
                     else case append_store s8 (tx_record LOG_TX_PREPARE source payload) True False of
                       (rc, s9) \<Rightarrow>
                       if rc < 0 then (Tx_Error, s9)
                       else (Tx_Prepared \<lparr>tx_id = tid, tx_expires = 0, tx_source = source, tx_data = data,
                               tx_targets = targets, tx_footprint = word_of_nat (length payload)\<rparr>, s9))"

text \<open>
  Materialization: the answer of \<open>append_message\<close> is dropped, as the code drops it.  A target
  with a queue pointer is used as it is, one without is resolved by name.
\<close>

definition materialize_target :: "store \<Rightarrow> queue_tx \<Rightarrow> tx_target \<Rightarrow> store" where
  "materialize_target s tx t =
     (case (case t_queue t of Some qid \<Rightarrow> get_queue s qid | None \<Rightarrow> find_queue s (t_name t)) of
        None \<Rightarrow> s
      | Some q \<Rightarrow> snd (append_message s (q_lock_id q) (t_msg_id t) (tx_expires tx) (tx_data tx)))"

definition tx_materialize_locked :: "store \<Rightarrow> queue_tx \<Rightarrow> store" where
  "tx_materialize_locked s tx = foldl (\<lambda>s t. materialize_target s tx t) s (tx_targets tx)"

definition commit_record :: "queue_tx \<Rightarrow> log_record" where
  "commit_record tx = tx_record LOG_TX_COMMIT (tx_source tx) (put64 (tx_id tx))"

definition queue_tx_commit :: "store \<Rightarrow> queue_tx \<Rightarrow> int \<times> nat \<times> store" where
  "queue_tx_commit s tx =
     (case append_store s (commit_record tx) True False of (rc, s1) \<Rightarrow>
        if rc < 0 then (-1, 0, s1)
        else (0, length (tx_targets tx), tx_materialize_locked s1 tx))"

definition queue_tx_abort :: "store \<Rightarrow> queue_tx \<Rightarrow> store" where
  "queue_tx_abort s tx = s"

definition queue_tx_pending_ids :: "store \<Rightarrow> u64 list \<times> store" where
  "queue_tx_pending_ids s =
     (if s_tx_pending s = [] then ([], s)
      else case alloc s of (ok, s1) \<Rightarrow> (if ok then map tx_id (s_tx_pending s1) else [], s1))"

text \<open>The first pending transaction with an id, and the list without it.\<close>

fun take_pending :: "u64 \<Rightarrow> queue_tx list \<Rightarrow> (queue_tx \<times> queue_tx list) option" where
  "take_pending tid [] = None"
| "take_pending tid (tx # txs) =
     (if tx_id tx = tid then Some (tx, txs)
      else map_option (\<lambda>(t, rest). (t, tx # rest)) (take_pending tid txs))"

definition queue_tx_resolve :: "store \<Rightarrow> u64 \<Rightarrow> bool \<Rightarrow> int \<times> store" where
  "queue_tx_resolve s tid committed =
     (case take_pending tid (s_tx_pending s) of None \<Rightarrow> (0, s)
      | Some (tx, rest) \<Rightarrow>
        let s1 = s\<lparr>s_tx_pending := rest\<rparr>
        in if \<not> committed then (1, s1)
           else case append_store s1 (commit_record tx) True False of (rc, s2) \<Rightarrow>
             if rc < 0 then (-1, s2\<lparr>s_tx_pending := tx # s_tx_pending s2\<rparr>)
             else (1, tx_materialize_locked s2 tx))"

definition queue_wal_enabled :: "store \<Rightarrow> bool" where
  "queue_wal_enabled s \<longleftrightarrow> w_fd (s_wal s) \<and> \<not> w_failed (s_wal s)"

end
