(* ===== verification/Queue_Replay.thy ===== *)
theory Queue_Replay
  imports Queue_Tx
begin

text \<open>
  Replay of the queue log (\<open>queue.c\<close>: the \<open>apply_*\<close> functions, \<open>apply_job_record\<close>, the
  dispatch and the end of \<open>replay_log\<close>, \<open>queue_store_open_ex\<close>, \<open>queue_store_close\<close>).  The job engine is behind
  a table of function pointers, \<open>QueueJobReplayHooks\<close>; here it is the record \<open>job_hooks\<close> over an
  abstract state, a missing hook being \<open>None\<close>.  The truncation at the end of a torn log is
  asked of the oracle \<open>trunc_ok\<close>, and \<open>scan_mem\<close> is the allocation inside \<open>tail_holds_record\<close>.
\<close>

subsection \<open>Queues and messages\<close>

definition apply_declare :: "store \<Rightarrow> bytes \<Rightarrow> bool \<Rightarrow> u64 \<Rightarrow> bytes \<Rightarrow> int \<times> store" where
  "apply_declare s name dur max_depth ext =
     (if ext \<noteq> [] \<and> (length ext < 6 \<or> length ext > 6 + QUEUE_NAME_MAX) then (-1, s)
      else
        let dlq_len = (if ext = [] then 0 else unat (get16 ext));
            dlq_name = take dlq_len (drop 2 ext);
            max_deliveries = (if ext = [] then 0 else get32 (drop (2 + dlq_len) ext))
        in if ext \<noteq> [] \<and> (dlq_len = 0 \<or> length ext \<noteq> 6 + dlq_len) then (-1, s)
           else case find_queue s name of
             Some q \<Rightarrow> (if same_policy q dur dlq_name max_deliveries then 0 else -1, s)
           | None \<Rightarrow>
             if dlq_len \<noteq> 0 \<and> dlq_name = name then (-1, s)
             else case create_queue s name dur max_depth dlq_name max_deliveries of (qid, s1) \<Rightarrow>
               (if qid = None then -1 else 0, s1))"

text \<open>The first message with an id, as every replay loop looks for it.\<close>

definition find_id :: "queue \<Rightarrow> u64 \<Rightarrow> message option" where
  "find_id q mid = find (\<lambda>m. m_id m = mid) (q_msgs q)"

definition on_message :: "store \<Rightarrow> bytes \<Rightarrow> u64 \<Rightarrow> (queue \<Rightarrow> nat \<Rightarrow> queue) \<Rightarrow> int \<times> store" where
  "on_message s name mid f =
     (case find_queue s name of None \<Rightarrow> (-1, s)
      | Some q \<Rightarrow> (0, case find_id q mid of None \<Rightarrow> s
                     | Some m \<Rightarrow> upd_queue s (q_lock_id q) (\<lambda>q. f q (m_ref m))))"

definition apply_ack :: "store \<Rightarrow> bytes \<Rightarrow> u64 \<Rightarrow> int \<times> store" where
  "apply_ack s name mid = on_message s name mid remove_message"

definition apply_delivery :: "store \<Rightarrow> bytes \<Rightarrow> u64 \<Rightarrow> int \<times> store" where
  "apply_delivery s name mid =
     on_message s name mid (\<lambda>q r. upd_msg q r (\<lambda>m. m\<lparr>m_deliveries := m_deliveries m + 1\<rparr>))"

definition apply_requeue :: "store \<Rightarrow> bytes \<Rightarrow> u64 \<Rightarrow> u64 \<Rightarrow> int \<times> store" where
  "apply_requeue s name mid not_before_ms =
     on_message s name mid (\<lambda>q r. upd_msg q r (\<lambda>m. m\<lparr>m_state := MESSAGE_READY, m_sched := not_before_ms,
       m_owner := 0, m_tag := 0\<rparr>))"

definition apply_purge :: "store \<Rightarrow> bytes \<Rightarrow> int \<times> store" where
  "apply_purge s name =
     (case find_queue s name of None \<Rightarrow> (-1, s)
      | Some q \<Rightarrow> (0, upd_queue s (q_lock_id q) (\<lambda>q. snd (purge_queue_locked q))))"

definition apply_delete :: "store \<Rightarrow> bytes \<Rightarrow> int \<times> store" where
  "apply_delete s name =
     (case find_queue s name of None \<Rightarrow> (0, s)
      | Some q \<Rightarrow> (0, upd_queue s (q_lock_id q) tombstone))"

definition apply_publish :: "store \<Rightarrow> bytes \<Rightarrow> u64 \<Rightarrow> u64 \<Rightarrow> bytes \<Rightarrow> int \<times> store" where
  "apply_publish s name mid expires_ms data =
     (case (case find_queue s name of None \<Rightarrow> (-1, s)
            | Some q \<Rightarrow> if q_durable q then append_message s (q_lock_id q) mid expires_ms data else (-1, s)) of
        (rc, s1) \<Rightarrow> (rc, if mid \<ge> s_next_id s1 then s1\<lparr>s_next_id := mid + 1\<rparr> else s1))"

subsection \<open>Exchanges\<close>

definition ex_type_of :: "byte \<Rightarrow> ex_type option" where
  "ex_type_of b = (if b = 0 then Some EXCHANGE_DIRECT else if b = 1 then Some EXCHANGE_FANOUT
                   else if b = 2 then Some EXCHANGE_TOPIC else None)"

definition apply_exdeclare :: "store \<Rightarrow> bytes \<Rightarrow> bool \<Rightarrow> u64 \<Rightarrow> bytes \<Rightarrow> int \<times> store" where
  "apply_exdeclare s name dur revision payload =
     (if length payload < 1 \<or> length payload > 3 + EXCHANGE_NAME_MAX then (-1, s)
      else case ex_type_of (payload ! 0) of None \<Rightarrow> (-1, s) | Some type \<Rightarrow>
        let ae_len = (if length payload \<ge> 3 then unat (get16 (drop 1 payload)) else 0);
            ae_name = take ae_len (drop 3 payload)
        in if \<not> ((length payload = 1 \<and> ae_len = 0) \<or> (length payload \<ge> 3 \<and> length payload = 3 + ae_len))
           then (-1, s)
           else case find_exchange s name of
             Some x \<Rightarrow> (if same_exchange x dur type ae_name then 0 else -1, s)
           | None \<Rightarrow>
             case create_exchange s name dur type ae_name of (ok, s1) \<Rightarrow>
               if \<not> ok then (-1, s1)
               else (0, if revision \<noteq> 0 then upd_exchange s1 name (\<lambda>x. x\<lparr>x_revision := revision\<rparr>) else s1))"

definition replay_revision :: "u64 \<Rightarrow> exchange \<Rightarrow> exchange" where
  "replay_revision revision x = x\<lparr>x_revision := (if revision \<noteq> 0 then revision else x_revision x + 1)\<rparr>"

definition apply_exbind :: "store \<Rightarrow> bytes \<Rightarrow> u64 \<Rightarrow> bytes \<Rightarrow> bool \<Rightarrow> int \<times> store" where
  "apply_exbind s name revision payload is_remove =
     (if length payload < 4 \<or> length payload > 4 + QUEUE_NAME_MAX + ROUTING_KEY_MAX then (-1, s)
      else
        let queue_len = unat (get16 payload); key_off = 2 + queue_len
        in if queue_len = 0 \<or> queue_len > QUEUE_NAME_MAX then (-1, s)
           else if length payload < key_off + 2 then (-1, s)
           else
             let key_len = unat (get16 (drop key_off payload))
             in if key_len > ROUTING_KEY_MAX \<or> length payload \<noteq> key_off + 2 + key_len then (-1, s)
                else case find_exchange s name of None \<Rightarrow> (-1, s) | Some x \<Rightarrow>
                  let queue = take queue_len (drop 2 payload); key = take key_len (drop (key_off + 2) payload)
                  in if is_remove
                     then (0, if find_binding x queue key = None then s
                              else upd_exchange s name
                                (\<lambda>x. replay_revision revision (x\<lparr>x_bindings := drop_binding queue key (x_bindings x),
                                       x_binding_count := x_binding_count x - 1\<rparr>)))
                     else if find_binding x queue key \<noteq> None then (0, s)
                     else case add_binding_locked s x queue key of (rc, s1) \<Rightarrow>
                       if rc \<noteq> 0 then (-1, s1)
                       else (0, upd_exchange s1 name (replay_revision revision)))"

definition apply_exdelete :: "store \<Rightarrow> bytes \<Rightarrow> int \<times> store" where
  "apply_exdelete s name = (0, s\<lparr>s_exchanges := drop_exchange name (s_exchanges s)\<rparr>)"

definition apply_exupdate :: "store \<Rightarrow> bytes \<Rightarrow> u64 \<Rightarrow> bytes \<Rightarrow> int \<times> store" where
  "apply_exupdate s name revision payload =
     (if length payload < 2 \<or> length payload > 2 + EXCHANGE_NAME_MAX then (-1, s)
      else
        let alternate_len = unat (get16 payload); alternate = drop 2 payload
        in if alternate_len = 0 \<or> length payload \<noteq> 2 + alternate_len \<or> alternate_len > EXCHANGE_NAME_MAX
           then (-1, s)
           else if find_exchange s name = None \<or> alternate = name then (-1, s)
           else case alloc s of (ok, s1) \<Rightarrow>
             if \<not> ok then (-1, s1)
             else (0, upd_exchange s1 name
                        (\<lambda>x. replay_revision revision (x\<lparr>x_ae_name := alternate\<rparr>))))"

subsection \<open>Transactions and consumers\<close>

text \<open>
  The target table of a prepare record.  The parser returns the targets and the rest of the
  payload; reserved ids raise the allocator as they are met, also when the record turns
  out to be malformed later.
\<close>

fun parse_tx_targets :: "nat \<Rightarrow> bytes \<Rightarrow> store \<Rightarrow> (tx_target list \<times> bytes) option \<times> store" where
  "parse_tx_targets 0 rest s = (Some ([], rest), s)"
| "parse_tx_targets (Suc n) rest s =
     (if length rest < 2 then (None, s)
      else
        let qlen = unat (get16 rest)
        in if qlen = 0 \<or> qlen > QUEUE_NAME_MAX \<or> length rest < 10 + qlen then (None, s)
           else case alloc s of (ok, s1) \<Rightarrow>
             if \<not> ok then (None, s1)
             else
               let mid = get64 (drop (2 + qlen) rest);
                   s2 = (if mid \<ge> s_next_id s1 then s1\<lparr>s_next_id := mid + 1\<rparr> else s1);
                   t = \<lparr>t_name = take qlen (drop 2 rest), t_queue = None, t_msg_id = mid\<rparr>
               in case parse_tx_targets n (drop (10 + qlen) rest) s2 of
                    (None, s3) \<Rightarrow> (None, s3)
                  | (Some (ts, rest'), s3) \<Rightarrow> (Some (t # ts, rest'), s3))"

definition apply_tx_prepare :: "store \<Rightarrow> bytes \<Rightarrow> bytes \<Rightarrow> int \<times> store" where
  "apply_tx_prepare s name payload =
     (if length payload < 22 \<or> name = [] then (-1, s)
      else
        let tid = get64 payload; msg_len = unat (get32 (drop 8 payload));
            expires_ms = get64 (drop 12 payload); n = unat (get16 (drop 20 payload))
        in if n = 0 \<or> n > EXCHANGE_BINDINGS_MAX \<or> msg_len > QUEUE_MESSAGE_MAX then (-1, s)
           else case allocs 2 s of (ok, s1) \<Rightarrow>
             if \<not> ok then (-1, s1)
             else case parse_tx_targets n (drop 22 payload) s1 of
               (None, s2) \<Rightarrow> (-1, s2)
             | (Some (targets, data), s2) \<Rightarrow>
               if length data \<noteq> msg_len then (-1, s2)
               else case alloc s2 of (ok1, s3) \<Rightarrow> case alloc s3 of (ok2, s4) \<Rightarrow>
                 if \<not> (ok1 \<and> ok2) then (-1, s4)
                 else (0, s4\<lparr>s_tx_pending :=
                        \<lparr>tx_id = tid, tx_expires = expires_ms, tx_source = name, tx_data = data,
                         tx_targets = targets, tx_footprint = 0\<rparr> # s_tx_pending s4\<rparr>))"

definition apply_tx_commit :: "store \<Rightarrow> bytes \<Rightarrow> int \<times> store" where
  "apply_tx_commit s payload =
     (if length payload \<noteq> 8 then (-1, s)
      else case take_pending (get64 payload) (s_tx_pending s) of None \<Rightarrow> (0, s)
        | Some (tx, rest) \<Rightarrow> (0, tx_materialize_locked (s\<lparr>s_tx_pending := rest\<rparr>) tx))"

definition apply_consumer :: "store \<Rightarrow> bytes \<Rightarrow> u64 \<Rightarrow> int \<times> store" where
  "apply_consumer s name owner =
     (case (if find_consumer s name \<noteq> None then (True, s)
            else case allocs 2 s of (ok, s1) \<Rightarrow>
              (ok, if ok then s1\<lparr>s_consumers := \<lparr>c_name = name, c_owner = owner\<rparr> # s_consumers s1\<rparr> else s1)) of
        (ok, s2) \<Rightarrow>
        if \<not> ok then (-1, s2)
        else (0, if owner \<ge> s_next_owner s2 then s2\<lparr>s_next_owner := owner + 1\<rparr> else s2))"

definition apply_consumer_del :: "store \<Rightarrow> bytes \<Rightarrow> int \<times> store" where
  "apply_consumer_del s name = (0, s\<lparr>s_consumers := drop_consumer name (s_consumers s)\<rparr>)"

subsection \<open>Job feature records\<close>

datatype job_kind = JOB_KIND_COMPLETION | JOB_KIND_STATE_PUT | JOB_KIND_STATE_DELETE

definition job_kind_of :: "byte \<Rightarrow> job_kind option" where
  "job_kind_of b = (if b = 1 then Some JOB_KIND_COMPLETION else if b = 2 then Some JOB_KIND_STATE_PUT
                    else if b = 3 then Some JOB_KIND_STATE_DELETE else None)"

record job_state_args =
  js_kind :: job_kind
  js_op_id :: bytes
  js_version :: u64
  js_commit_id :: u64
  js_expected :: u64
  js_key :: bytes
  js_value :: bytes
  js_completed_at :: u64
  js_expires_at :: u64

record job_completion_args =
  jc_op_id :: bytes
  jc_commit_id :: u64
  jc_version :: u64
  jc_expected :: u64
  jc_key :: bytes
  jc_value :: bytes
  jc_in_name :: bytes
  jc_in_incarnation :: u64
  jc_in_id :: u64
  jc_out :: "(bytes \<times> u64 \<times> u64 \<times> bytes) option"
  jc_completed_at :: u64
  jc_expires_at :: u64

record job_receipt_args =
  jr_kind :: job_kind
  jr_op_id :: bytes
  jr_digest :: bytes
  jr_commit_id :: u64
  jr_version :: u64
  jr_in_name :: bytes
  jr_in_id :: u64
  jr_out_name :: bytes
  jr_out_id :: u64
  jr_completed_at :: u64
  jr_expires_at :: u64

record 'j job_hooks =
  jh_state_apply :: "(job_state_args \<Rightarrow> 'j \<Rightarrow> int \<times> 'j) option"
  jh_completion_apply :: "(job_completion_args \<Rightarrow> 'j \<Rightarrow> int \<times> 'j) option"
  jh_receipt_apply :: "(job_receipt_args \<Rightarrow> 'j \<Rightarrow> int \<times> 'j) option"
  jh_meta_apply :: "(bytes \<Rightarrow> u64 \<Rightarrow> u64 \<Rightarrow> u64 \<Rightarrow> u64 \<Rightarrow> 'j \<Rightarrow> int \<times> 'j) option"
  jh_checkpoint_emit :: "('j \<Rightarrow> log_record list \<times> int) option"
  jh_live_bytes :: "('j \<Rightarrow> u64) option"
  jh_store_id :: "('j \<Rightarrow> bytes option) option"
  jh_version_hwm :: "('j \<Rightarrow> u64) option"
  jh_commit_hwm :: "('j \<Rightarrow> u64) option"

definition run_hook :: "('a \<Rightarrow> 'j \<Rightarrow> int \<times> 'j) option \<Rightarrow> 'a \<Rightarrow> 'j \<Rightarrow> int \<times> 'j" where
  "run_hook h args j = (case h of None \<Rightarrow> (0, j) | Some f \<Rightarrow> f args j)"

datatype open_error =
  QUEUE_OPEN_FAILED | QUEUE_OPEN_JOB_DISABLED | QUEUE_OPEN_JOB_FORMAT | QUEUE_OPEN_TRAILING_RECORDS

definition job_parse_state :: "bytes \<Rightarrow> u64 \<Rightarrow> u64 \<Rightarrow> job_state_args option" where
  "job_parse_state d version commit_id =
     (if length d < 48 then None
      else case job_kind_of (d ! 1) of None \<Rightarrow> None | Some kind \<Rightarrow>
        if kind = JOB_KIND_COMPLETION then None
        else
          let key_len = unat (get16 (drop 26 d))
          in if length d < 28 + key_len + 4 then None
             else
               let value_len = unat (get32 (drop (28 + key_len) d))
               in if 32 + key_len + value_len + 16 \<noteq> length d then None
                  else if kind = JOB_KIND_STATE_DELETE \<and> value_len \<noteq> 0 then None
                  else Some \<lparr>js_kind = kind, js_op_id = take 16 (drop 2 d), js_version = version,
                         js_commit_id = commit_id, js_expected = get64 (drop 18 d),
                         js_key = take key_len (drop 28 d), js_value = take value_len (drop (32 + key_len) d),
                         js_completed_at = get64 (drop (32 + key_len + value_len) d),
                         js_expires_at = get64 (drop (40 + key_len + value_len) d)\<rparr>)"

definition job_parse_receipt :: "bytes \<Rightarrow> u64 \<Rightarrow> u64 \<Rightarrow> job_receipt_args option" where
  "job_parse_receipt d commit_id version =
     (if length d < 87 then None
      else case job_kind_of (d ! 1) of None \<Rightarrow> None | Some kind \<Rightarrow>
        let oql = unat (get16 (drop 51 d))
        in if 53 + oql + 8 + 2 > length d then None
           else
             let iql = unat (get16 (drop (61 + oql) d))
             in if 87 + oql + iql \<noteq> length d then None
                else Some \<lparr>jr_kind = kind, jr_op_id = take 16 (drop 2 d), jr_digest = take 32 (drop 18 d),
                       jr_commit_id = commit_id, jr_version = version,
                       jr_in_name = take iql (drop (63 + oql) d), jr_in_id = get64 (drop (63 + oql + iql) d),
                       jr_out_name = take oql (drop 53 d), jr_out_id = get64 (drop (53 + oql) d),
                       jr_completed_at = get64 (drop (71 + oql + iql) d),
                       jr_expires_at = get64 (drop (79 + oql + iql) d)\<rparr>)"

text \<open>
  The completion record.  The last field before the length check is read before it is known
  to be inside the payload; the model reads a missing byte as whatever \<open>get64\<close> makes of a
  short list, and the check that follows rejects the record.
\<close>

definition job_parse_completion :: "log_record \<Rightarrow> job_completion_args option" where
  "job_parse_completion r =
     (let d = r_data r in
      if length d < 78 then None
      else
        let out_present = (d ! 25 \<noteq> 0); oql = unat (get16 (drop 26 d))
        in if oql > QUEUE_NAME_MAX \<or> (\<not> out_present \<and> oql \<noteq> 0) then None
           else if 28 + oql + 8 + 8 + 4 > length d then None
           else
             let ovl = unat (get32 (drop (44 + oql) d))
             in if 48 + oql + ovl + 8 + 2 > length d then None
                else
                  let kl = unat (get16 (drop (56 + oql + ovl) d)); at = oql + ovl + kl;
                      vl = unat (get32 (drop (66 + at) d))
                  in if 70 + at + vl + 16 \<noteq> length d then None
                     else Some \<lparr>jc_op_id = take 16 (drop 1 d), jc_commit_id = r_aux r,
                            jc_version = get64 (drop (48 + oql + ovl) d),
                            jc_expected = get64 (drop (58 + at) d),
                            jc_key = take kl (drop (58 + oql + ovl) d),
                            jc_value = take vl (drop (70 + at) d),
                            jc_in_name = r_name r, jc_in_incarnation = get64 (drop 17 d), jc_in_id = r_id r,
                            jc_out = (if out_present
                              then Some (take oql (drop 28 d), get64 (drop (28 + oql) d),
                                         get64 (drop (36 + oql) d), take ovl (drop (48 + oql) d))
                              else None),
                            jc_completed_at = get64 (drop (70 + at + vl) d),
                            jc_expires_at = get64 (drop (78 + at + vl) d)\<rparr>)"

definition raise_id :: "u64 \<Rightarrow> store \<Rightarrow> store" where
  "raise_id mid s = (if mid \<ge> s_next_id s then s\<lparr>s_next_id := mid + 1\<rparr> else s)"

text \<open>The queue effects of a completion, in the order of the log: output in, input out.\<close>

definition completion_effects :: "store \<Rightarrow> job_completion_args \<Rightarrow> bool \<times> store" where
  "completion_effects s c =
     (case (case jc_out c of None \<Rightarrow> (0, s)
            | Some (out_queue, out_incarnation, out_id, payload) \<Rightarrow>
              case find_queue s out_queue of None \<Rightarrow> (0, s)
              | Some q \<Rightarrow> if q_durable q then append_message s (q_lock_id q) out_id 0 payload else (0, s)) of
        (rc, s1) \<Rightarrow>
        if rc < 0 then (False, s1)
        else
          let s2 = raise_id (jc_in_id c) s1;
              s3 = (case jc_out c of None \<Rightarrow> s2 | Some (_, _, out_id, _) \<Rightarrow> raise_id out_id s2)
          in (True, snd (on_message s3 (jc_in_name c) (jc_in_id c) remove_message)))"

text \<open>\<open>Inr\<close> is success; every failure of a job record refuses the open.\<close>

definition apply_job_record ::
  "'j job_hooks \<Rightarrow> store \<Rightarrow> 'j \<Rightarrow> log_record \<Rightarrow> open_error + (store \<times> 'j)" where
  "apply_job_record h s j r =
     (let d = r_data r in
      case r_op r of
        LOG_JOB_META \<Rightarrow>
          (if length d \<noteq> 1 + 16 + 8 * 4 then Inl QUEUE_OPEN_JOB_FORMAT
           else
             let ids = get64 (drop 17 d); incs = get64 (drop 25 d);
                 s1 = s\<lparr>s_next_id := (if ids > s_next_id s then ids else s_next_id s),
                        s_next_incarnation := (if incs > s_next_incarnation s then incs
                                               else s_next_incarnation s)\<rparr>
             in case jh_meta_apply h of None \<Rightarrow> Inr (s1, j)
                | Some f \<Rightarrow>
                  case f (take 16 (drop 1 d)) ids incs (get64 (drop 33 d)) (get64 (drop 41 d)) j of (rc, j1) \<Rightarrow>
                    if rc < 0 then Inl QUEUE_OPEN_FAILED else Inr (s1, j1))
      | LOG_QUEUE_META \<Rightarrow>
          (if length d \<noteq> 0 \<or> r_id r = 0 then Inl QUEUE_OPEN_JOB_FORMAT
           else case find_queue s (r_name r) of None \<Rightarrow> Inr (s, j)
             | Some q \<Rightarrow>
               Inr ((upd_queue s (q_lock_id q) (\<lambda>q. q\<lparr>q_incarnation := r_id r\<rparr>))
                      \<lparr>s_next_incarnation := (if r_id r > s_next_incarnation s then r_id r
                                             else s_next_incarnation s)\<rparr>, j))
      | LOG_JOB_STATE \<Rightarrow>
          (case job_parse_state d (r_id r) (r_aux r) of None \<Rightarrow> Inl QUEUE_OPEN_JOB_FORMAT
           | Some args \<Rightarrow> case run_hook (jh_state_apply h) args j of (rc, j1) \<Rightarrow>
               if rc < 0 then Inl QUEUE_OPEN_FAILED else Inr (s, j1))
      | LOG_JOB_RECEIPT \<Rightarrow>
          (case job_parse_receipt d (r_id r) (r_aux r) of None \<Rightarrow> Inl QUEUE_OPEN_JOB_FORMAT
           | Some args \<Rightarrow> case run_hook (jh_receipt_apply h) args j of (rc, j1) \<Rightarrow>
               if rc < 0 then Inl QUEUE_OPEN_FAILED else Inr (s, j1))
      | _ \<Rightarrow>
          (case job_parse_completion r of None \<Rightarrow> Inl QUEUE_OPEN_JOB_FORMAT
           | Some args \<Rightarrow> case run_hook (jh_completion_apply h) args j of (rc, j1) \<Rightarrow>
               if rc < 0 then Inl QUEUE_OPEN_FAILED
               else case completion_effects s args of (ok, s1) \<Rightarrow>
                 if \<not> ok then Inl QUEUE_OPEN_FAILED else Inr (s1, j1)))"

subsection \<open>The loop\<close>

definition apply_record :: "store \<Rightarrow> log_record \<Rightarrow> int \<times> store" where
  "apply_record s r =
     (case r_op r of
        LOG_DECLARE \<Rightarrow> apply_declare s (r_name r) (r_durable r) (r_aux r) (r_data r)
      | LOG_PUBLISH \<Rightarrow> apply_publish s (r_name r) (r_id r) (r_aux r) (r_data r)
      | LOG_ACK \<Rightarrow> apply_ack s (r_name r) (r_id r)
      | LOG_DELIVER \<Rightarrow> apply_delivery s (r_name r) (r_id r)
      | LOG_REQUEUE \<Rightarrow> apply_requeue s (r_name r) (r_id r) (r_aux r)
      | LOG_PURGE \<Rightarrow> apply_purge s (r_name r)
      | LOG_DELETE \<Rightarrow> apply_delete s (r_name r)
      | LOG_EXDECLARE \<Rightarrow> apply_exdeclare s (r_name r) (r_durable r) (r_aux r) (r_data r)
      | LOG_EXBIND \<Rightarrow> apply_exbind s (r_name r) (r_aux r) (r_data r) False
      | LOG_EXUNBIND \<Rightarrow> apply_exbind s (r_name r) (r_aux r) (r_data r) True
      | LOG_EXDELETE \<Rightarrow> apply_exdelete s (r_name r)
      | LOG_EXUPDATE \<Rightarrow> apply_exupdate s (r_name r) (r_aux r) (r_data r)
      | LOG_TX_PREPARE \<Rightarrow> apply_tx_prepare s (r_name r) (r_data r)
      | LOG_CONSUMER \<Rightarrow> apply_consumer s (r_name r) (r_id r)
      | LOG_CONSUMER_DEL \<Rightarrow> apply_consumer_del s (r_name r)
      | LOG_TX_COMMIT \<Rightarrow> apply_tx_commit s (r_data r)
      | _ \<Rightarrow> (0, s))"

text \<open>
  The end of the loop at a byte that is no record: the log is cut there unless something
  behind it still parses.  The result keeps the bytes of the log before the cut.
\<close>

definition replay_stop ::
  "bool \<Rightarrow> bool \<Rightarrow> bytes \<Rightarrow> bytes \<Rightarrow> store \<Rightarrow> 'j \<Rightarrow> open_error + (bytes \<times> store \<times> 'j)" where
  "replay_stop scan_mem trunc_ok good rest s j =
     (let trailing = tail_holds_record scan_mem rest
      in if trailing \<noteq> 0 then Inl (if trailing > 0 then QUEUE_OPEN_TRAILING_RECORDS else QUEUE_OPEN_FAILED)
         else if \<not> trunc_ok then Inl QUEUE_OPEN_FAILED
         else Inr (good, s, j))"

function replay_log ::
  "'j job_hooks \<Rightarrow> bool \<Rightarrow> bool \<Rightarrow> bytes \<Rightarrow> bytes \<Rightarrow> store \<Rightarrow> 'j \<Rightarrow> open_error + (bytes \<times> store \<times> 'j)" where
  "replay_log h scan_mem trunc_ok good rest s j =
     (case alloc s of (mem, s0) \<Rightarrow>
      case parse_record (s_job_enabled s) mem rest of
        Parse_Eof \<Rightarrow> Inr (good, s, j)
      | Parse_Corrupt \<Rightarrow> replay_stop scan_mem trunc_ok good rest s j
      | Parse_Job_Disabled \<Rightarrow> Inl QUEUE_OPEN_JOB_DISABLED
      | Parse_Job_Format \<Rightarrow> Inl QUEUE_OPEN_JOB_FORMAT
      | Parsed r rest' \<Rightarrow>
          if job_record (r_op r)
          then (case apply_job_record h s0 j r of Inl e \<Rightarrow> Inl e
                | Inr (s1, j1) \<Rightarrow>
                  replay_log h scan_mem trunc_ok (good @ take (length rest - length rest') rest) rest' s1 j1)
          else (case apply_record s0 r of (rc, s1) \<Rightarrow>
                  if rc < 0 then replay_stop scan_mem trunc_ok good rest s1 j
                  else replay_log h scan_mem trunc_ok (good @ take (length rest - length rest') rest) rest' s1 j))"
  by pat_completeness auto

termination replay_log
proof (relation "measure (\<lambda>(h, scan_mem, trunc_ok, good, rest, s, j). length rest)", goal_cases)
  case 1
  show ?case by simp
qed (auto dest: parse_record_Parsed(4))

declare replay_log.simps [simp del]

definition opened_wal :: "bytes \<Rightarrow> wal_env \<Rightarrow> wal" where
  "opened_wal log_file env =
     \<lparr>w_fd = True, w_file = log_file, w_disk = log_file, w_buf_alloc = False, w_buf = [],
      w_off = length log_file, w_alloc_end = 0, w_size_synced = False, w_seq = 0, w_synced = 0,
      w_syncer = False, w_failed = False, w_env = env, w_calls = 0\<rparr>"

text \<open>
  Opening a store on the content of its log file.  The path and the descriptor are taken
  as available; the file after the open is the part of the log that was kept.
\<close>

definition queue_store_open_ex ::
  "'j job_hooks \<Rightarrow> bool \<Rightarrow> bool \<Rightarrow> bool \<Rightarrow> wal_env \<Rightarrow> store_env \<Rightarrow> bytes \<Rightarrow> 'j \<Rightarrow> open_error + (store \<times> 'j)" where
  "queue_store_open_ex h job_enabled scan_mem trunc_ok wenv env log_file j =
     (case replay_log h scan_mem trunc_ok [] log_file (store_init job_enabled (opened_wal log_file wenv) env) j of
        Inl e \<Rightarrow> Inl e
      | Inr (kept, s, j1) \<Rightarrow> Inr (s\<lparr>s_wal := opened_wal kept wenv\<rparr>, j1))"

text \<open>The file a clean close leaves: the staged records written, the reservation cut off.\<close>

definition queue_store_close :: "store \<Rightarrow> bool \<Rightarrow> wal" where
  "queue_store_close s trunc_ok =
     (let w = s_wal s in
      if \<not> w_fd w then w
      else
        let w1 = snd (wal_flush_locked w)
        in if w_alloc_end w1 > w_off w1 \<and> trunc_ok
           then w1\<lparr>w_file := take (w_off w1) (w_file w1), w_alloc_end := w_off w1, w_fd := False\<rparr>
           else w1\<lparr>w_fd := False\<rparr>)"

end
