(* ===== verification/Queue_Checkpoint.thy ===== *)
theory Queue_Checkpoint
  imports Queue_Replay
begin

text \<open>
  The crash-safe checkpoint of the queue log (\<open>queue.c\<close>: \<open>write_all\<close>, the \<open>ckpt_*\<close> functions,
  \<open>queue_checkpoint_body\<close>).  \<open>ckpt_env\<close> answers the system calls of the checkpoint itself.  The
  outcome names the bytes that the path of the log refers to afterwards, when the rename
  has happened; the log field of the store is the file its descriptor is open on.
\<close>

subsection \<open>The buffered writer\<close>

definition write_all :: "io list \<Rightarrow> bytes \<Rightarrow> bytes \<Rightarrow> int \<times> bytes" where
  "write_all rs f data = pwrite_all rs f data (length f)"

definition CKPT_BUF_CAP :: nat where "CKPT_BUF_CAP = 64 * 1024"
definition QUEUE_CHECKPOINT_FLOOR :: u64 where "QUEUE_CHECKPOINT_FLOOR = 2 ^ 20"

record ckpt_writer =
  cw_file :: bytes
  cw_has_buf :: bool
  cw_buf :: bytes
  cw_io :: "nat \<Rightarrow> io list"
  cw_calls :: nat

definition ckpt_raw :: "ckpt_writer \<Rightarrow> bytes \<Rightarrow> int \<times> ckpt_writer" where
  "ckpt_raw w data =
     (case write_all (cw_io w (cw_calls w)) (cw_file w) data of
        (rc, f) \<Rightarrow> (rc, w\<lparr>cw_file := f, cw_calls := Suc (cw_calls w)\<rparr>))"

definition ckpt_flush :: "ckpt_writer \<Rightarrow> int \<times> ckpt_writer" where
  "ckpt_flush w =
     (if cw_buf w = [] then (0, w)
      else case ckpt_raw w (cw_buf w) of (rc, w1) \<Rightarrow>
        if rc < 0 then (-1, w1) else (0, w1\<lparr>cw_buf := []\<rparr>))"

definition ckpt_write :: "ckpt_writer \<Rightarrow> bytes \<Rightarrow> int \<times> ckpt_writer" where
  "ckpt_write w data =
     (if data = [] then (0, w)
      else if \<not> cw_has_buf w \<or> length data \<ge> CKPT_BUF_CAP
      then (case ckpt_flush w of (rc, w1) \<Rightarrow> if rc < 0 then (-1, w1) else ckpt_raw w1 data)
      else case (if length (cw_buf w) + length data > CKPT_BUF_CAP then ckpt_flush w else (0, w)) of
        (rc, w1) \<Rightarrow> if rc < 0 then (-1, w1) else (0, w1\<lparr>cw_buf := cw_buf w1 @ data\<rparr>))"

definition ckpt_emit :: "ckpt_writer \<Rightarrow> log_record \<Rightarrow> int \<times> ckpt_writer" where
  "ckpt_emit w r =
     (case ckpt_write w (log_header r) of (rc, w1) \<Rightarrow>
        if rc < 0 then (-1, w1)
        else case ckpt_write w1 (r_name r) of (rc, w2) \<Rightarrow>
          if rc < 0 then (-1, w2)
          else case ckpt_write w2 (r_data r) of (rc, w3) \<Rightarrow> if rc < 0 then (-1, w3) else (0, w3))"

fun ckpt_emit_all :: "ckpt_writer \<Rightarrow> log_record list \<Rightarrow> int \<times> ckpt_writer" where
  "ckpt_emit_all w [] = (0, w)"
| "ckpt_emit_all w (r # rs) =
     (case ckpt_emit w r of (rc, w1) \<Rightarrow> if rc \<noteq> 0 then (rc, w1) else ckpt_emit_all w1 rs)"

subsection \<open>What a checkpoint contains\<close>

definition rec :: "log_op \<Rightarrow> bool \<Rightarrow> bytes \<Rightarrow> u64 \<Rightarrow> u64 \<Rightarrow> bytes \<Rightarrow> log_record" where
  "rec op dur name rid aux data =
     \<lparr>r_op = op, r_durable = dur, r_name = name, r_id = rid, r_aux = aux, r_data = data\<rparr>"

text \<open>The pseudo-name of the identity record, \<open>"*job-meta"\<close>.\<close>

definition QUEUE_WAL_JOB_META_NAME :: bytes where
  "QUEUE_WAL_JOB_META_NAME = [42, 106, 111, 98, 45, 109, 101, 116, 97]"

definition hwm :: "('j \<Rightarrow> u64) option \<Rightarrow> 'j \<Rightarrow> u64" where
  "hwm f j = (case f of None \<Rightarrow> 0 | Some g \<Rightarrow> g j)"

definition meta_records :: "'j job_hooks \<Rightarrow> 'j \<Rightarrow> store \<Rightarrow> log_record list" where
  "meta_records h j s =
     (if \<not> s_job_enabled s then []
      else case jh_store_id h of None \<Rightarrow> []
      | Some f \<Rightarrow>
        case f j of None \<Rightarrow> []
        | Some sid \<Rightarrow>
          [rec LOG_JOB_META True QUEUE_WAL_JOB_META_NAME 0 0
             (1 # sid @ put64 (s_next_id s) @ put64 (s_next_incarnation s) @
              put64 (hwm (jh_version_hwm h) j) @ put64 (hwm (jh_commit_hwm h) j))])"

definition declare_records :: "bool \<Rightarrow> queue \<Rightarrow> log_record list" where
  "declare_records job_enabled q =
     (if q_deleted q then []
      else rec LOG_DECLARE (q_durable q) (q_name q) 0 (q_max_depth q)
             (declare_ext (q_dlq_name q) (q_max_deliveries q)) #
           (if job_enabled then [rec LOG_QUEUE_META True (q_name q) (q_incarnation q) 0 []] else []))"

definition message_records :: "queue \<Rightarrow> message \<Rightarrow> log_record list" where
  "message_records q m =
     rec LOG_PUBLISH True (q_name q) (m_id m) (m_expires m) (m_data m) #
     replicate (unat (m_deliveries m)) (rec LOG_DELIVER True (q_name q) (m_id m) 0 []) @
     (if m_state m = MESSAGE_READY \<and> m_sched m \<noteq> 0
      then [rec LOG_REQUEUE True (q_name q) (m_id m) (m_sched m) []] else [])"

definition retained_records :: "queue \<Rightarrow> log_record list" where
  "retained_records q = (if q_deleted q then [] else concat (map (message_records q) (q_msgs q)))"

definition exchange_records :: "exchange \<Rightarrow> log_record list" where
  "exchange_records x =
     rec LOG_EXDECLARE (x_durable x) (x_name x) 0 (x_revision x)
       (ex_type_code (x_type x) # put16 (word_of_nat (length (x_ae_name x))) @ x_ae_name x) #
     map (\<lambda>b. rec LOG_EXBIND True (x_name x) 0 (x_revision x) (binding_payload (b_queue b) (b_key b)))
       (x_bindings x)"

definition consumer_records :: "store \<Rightarrow> log_record list" where
  "consumer_records s = map (\<lambda>c. rec LOG_CONSUMER True (c_name c) (c_owner c) 0 []) (s_consumers s)"

definition pending_payload :: "queue_tx \<Rightarrow> bytes" where
  "pending_payload tx =
     put64 (tx_id tx) @ put32 (word_of_nat (length (tx_data tx))) @ put64 (tx_expires tx) @
     put16 (word_of_nat (length (tx_targets tx))) @ concat (map tx_target_bytes (tx_targets tx)) @ tx_data tx"

definition pending_records :: "store \<Rightarrow> log_record list" where
  "pending_records s = map (\<lambda>tx. rec LOG_TX_PREPARE True (tx_source tx) 0 0 (pending_payload tx)) (s_tx_pending s)"

text \<open>
  The insertion sort of the queues into creation order, and the records in the order of the
  file.  The job engine contributes its records between the messages and the exchanges;
  the number it returns is negative when it failed.
\<close>

definition insert_queue :: "queue \<Rightarrow> queue list \<Rightarrow> queue list" where
  "insert_queue q qs =
     rev (dropWhile (\<lambda>p. q_lock_id p > q_lock_id q) (rev qs)) @ [q] @
     rev (takeWhile (\<lambda>p. q_lock_id p > q_lock_id q) (rev qs))"

definition sort_queues :: "queue list \<Rightarrow> queue list" where
  "sort_queues qs = foldl (\<lambda>acc q. insert_queue q acc) [] qs"

definition job_records :: "'j job_hooks \<Rightarrow> 'j \<Rightarrow> store \<Rightarrow> log_record list \<times> int" where
  "job_records h j s =
     (if \<not> s_job_enabled s then ([], 0)
      else case jh_checkpoint_emit h of None \<Rightarrow> ([], 0) | Some f \<Rightarrow> f j)"

definition checkpoint_head :: "'j job_hooks \<Rightarrow> 'j \<Rightarrow> store \<Rightarrow> log_record list" where
  "checkpoint_head h j s =
     (let qs = sort_queues (s_queues s)
      in meta_records h j s @ concat (map (declare_records (s_job_enabled s)) qs) @
         concat (map retained_records qs))"

definition checkpoint_tail :: "store \<Rightarrow> log_record list" where
  "checkpoint_tail s = concat (map exchange_records (s_exchanges s)) @ consumer_records s @ pending_records s"

definition checkpoint_records :: "'j job_hooks \<Rightarrow> 'j \<Rightarrow> store \<Rightarrow> log_record list" where
  "checkpoint_records h j s = checkpoint_head h j s @ fst (job_records h j s) @ checkpoint_tail s"

subsection \<open>The checkpoint\<close>

record ckpt_env =
  ce_sorted :: bool
  ce_mkstemp :: bool
  ce_buf :: bool
  ce_io :: "nat \<Rightarrow> io list"
  ce_payload :: bool
  ce_fsync :: bool
  ce_close :: bool
  ce_rename :: bool
  ce_dirsync :: bool
  ce_reopen :: bool

definition live_total :: "'j job_hooks \<Rightarrow> 'j \<Rightarrow> store \<Rightarrow> u64" where
  "live_total h j s =
     sum_list (map q_live_bytes (filter (\<lambda>q. \<not> q_deleted q) (s_queues s))) + s_meta_live s +
     (if s_job_enabled s then hwm (jh_live_bytes h) j else 0)"

text \<open>
  The body of the temporary file, up to and including its barrier and \<open>close\<close>.  The
  allocations of the pending payloads are one answer: a failed one ends the emission.
\<close>

definition checkpoint_file :: "ckpt_env \<Rightarrow> 'j job_hooks \<Rightarrow> 'j \<Rightarrow> store \<Rightarrow> bytes option" where
  "checkpoint_file e h j s =
     (let w0 = \<lparr>cw_file = [], cw_has_buf = ce_buf e, cw_buf = [], cw_io = ce_io e, cw_calls = 0\<rparr>
      in case ckpt_emit_all w0 (checkpoint_head h j s) of (rc, w1) \<Rightarrow>
         if rc \<noteq> 0 then None
         else case ckpt_emit_all w1 (fst (job_records h j s)) of (rc, w2) \<Rightarrow>
           if rc \<noteq> 0 \<or> snd (job_records h j s) \<noteq> 0 then None
           else if s_tx_pending s \<noteq> [] \<and> \<not> ce_payload e then None
           else case ckpt_emit_all w2 (checkpoint_tail s) of (rc, w3) \<Rightarrow>
             if rc \<noteq> 0 then None
             else case ckpt_flush w3 of (rc, w4) \<Rightarrow>
               if rc < 0 \<or> \<not> ce_fsync e \<or> \<not> ce_close e then None else Some (cw_file w4))"

definition checkpoint_wal :: "wal \<Rightarrow> bytes \<Rightarrow> nat \<Rightarrow> wal" where
  "checkpoint_wal w f records =
     w\<lparr>w_file := f, w_disk := f, w_buf := [], w_off := length f, w_alloc_end := 0, w_size_synced := False,
       w_seq := records, w_synced := records\<rparr>"

definition queue_checkpoint_body ::
  "ckpt_env \<Rightarrow> 'j job_hooks \<Rightarrow> 'j \<Rightarrow> store \<Rightarrow> bool \<Rightarrow> int \<times> bytes option \<times> store" where
  "queue_checkpoint_body e h j s force =
     (if \<not> w_fd (s_wal s) then (0, None, s)
      else case wal_flush_locked (s_wal s) of (staged, w1) \<Rightarrow>
        let s1 = s\<lparr>s_wal := w1\<rparr>
        in if staged < 0 then (-1, None, s1)
           else if \<not> force \<and> word_of_nat (w_off w1) \<le> live_total h j s1 * 2 + QUEUE_CHECKPOINT_FLOOR
           then (0, None, s1)
           else if \<not> ce_sorted e \<or> \<not> ce_mkstemp e then (-1, None, s1)
           else case checkpoint_file e h j s1 of None \<Rightarrow> (-1, None, s1)
             | Some f \<Rightarrow>
               if \<not> ce_rename e then (-1, None, s1)
               else if \<not> ce_dirsync e then (-1, Some f, s1)
               else if \<not> ce_reopen e
               then (-1, Some f, s1\<lparr>s_wal := (w1\<lparr>w_fd := False, w_buf := [], w_failed := True\<rparr>)\<rparr>)
               else (1, Some f, s1\<lparr>s_wal := checkpoint_wal w1 f (length (checkpoint_records h j s1))\<rparr>))"

definition queue_checkpoint_force :: "ckpt_env \<Rightarrow> 'j job_hooks \<Rightarrow> 'j \<Rightarrow> store \<Rightarrow> int \<times> bytes option \<times> store" where
  "queue_checkpoint_force e h j s = queue_checkpoint_body e h j s True"

definition queue_checkpoint_maybe :: "ckpt_env \<Rightarrow> 'j job_hooks \<Rightarrow> 'j \<Rightarrow> store \<Rightarrow> int \<times> bytes option \<times> store" where
  "queue_checkpoint_maybe e h j s = queue_checkpoint_body e h j s False"

text \<open>The order in which the checkpoint takes the queue locks: the order of the list.\<close>

definition checkpoint_lock_order :: "store \<Rightarrow> nat list" where
  "checkpoint_lock_order s = map q_lock_id (s_queues s)"

end
