(* ===== verification/Job_Commit.thy ===== *)
theory Job_Commit
  imports Queue_Replay
begin

text \<open>
  The atomic completion commit of the queue engine (\<open>queue.c\<close>: \<open>queue_job_commit\<close>,
  \<open>queue_job_record_append_sync\<close>).  The job engine takes part through the callbacks of the
  request, here the functions of the record \<open>job_commit\<close> over an abstract engine state; each
  documented obligation of a callback is a hypothesis where a lemma needs it.
\<close>

datatype job_status =
    JOB_OK | JOB_UNSUPPORTED_FEATURE | JOB_VALIDATION_FAILED | JOB_REQUEST_TOO_LARGE
  | JOB_IDEMPOTENCY_CONFLICT | JOB_STATE_VERSION_CONFLICT | JOB_DELIVERY_EXPIRED
  | JOB_DELIVERY_NOT_OWNED | JOB_RESOURCE_EXHAUSTED | JOB_OPERATION_IN_PROGRESS
  | JOB_OPERATION_IN_DOUBT | JOB_PERSISTENCE_UNAVAILABLE | JOB_NOT_FOUND

datatype recheck_result = Recheck_Continue | Recheck_Replay | Recheck_Reject job_status

record 'j job_commit =
  jq_in_queue :: bytes
  jq_in_id :: u64
  jq_in_tag :: u64
  jq_in_owner :: u64
  jq_out :: "(bytes \<times> bytes) option"
  jq_recheck :: "'j \<Rightarrow> recheck_result \<times> 'j"
  jq_prepare :: "u64 \<Rightarrow> 'j \<Rightarrow> (job_status + u64 \<times> u64) \<times> 'j"
  jq_encode :: "u64 \<Rightarrow> u64 \<Rightarrow> u64 \<Rightarrow> 'j \<Rightarrow> bytes option"
  jq_apply :: "u64 \<Rightarrow> u64 \<Rightarrow> u64 \<Rightarrow> 'j \<Rightarrow> 'j"
  jq_cancel :: "'j \<Rightarrow> 'j"

definition spec_valid :: "'j job_commit \<Rightarrow> bool" where
  "spec_valid spec \<longleftrightarrow>
     name_valid (jq_in_queue spec) \<and> jq_in_id spec \<noteq> 0 \<and> jq_in_tag spec \<noteq> 0 \<and> jq_in_owner spec \<noteq> 0 \<and>
     (case jq_out spec of None \<Rightarrow> True | Some (out_queue, _) \<Rightarrow> name_valid out_queue)"

text \<open>Resolution of both queues; the second component is the output queue when there is one.\<close>

definition resolve_pair :: "store \<Rightarrow> 'j job_commit \<Rightarrow> (queue \<times> queue option) option" where
  "resolve_pair s spec =
     (case find_queue s (jq_in_queue spec) of None \<Rightarrow> None | Some in_q \<Rightarrow>
      if \<not> q_durable in_q then None
      else case jq_out spec of None \<Rightarrow> Some (in_q, None)
        | Some (out_queue, _) \<Rightarrow>
          case find_queue s out_queue of None \<Rightarrow> None
          | Some out_q \<Rightarrow> if q_durable out_q then Some (in_q, Some out_q) else None)"

definition fenced :: "'j job_commit \<Rightarrow> u64 \<Rightarrow> message \<Rightarrow> bool" where
  "fenced spec mono_now m \<longleftrightarrow>
     m_state m = MESSAGE_INFLIGHT \<and> m_tag m = jq_in_tag spec \<and> m_owner m = jq_in_owner spec \<and>
     m_sched m > mono_now"

definition fence_status :: "u64 \<Rightarrow> message option \<Rightarrow> job_status" where
  "fence_status mono_now found =
     (case found of None \<Rightarrow> JOB_DELIVERY_NOT_OWNED
      | Some m \<Rightarrow> if m_state m = MESSAGE_INFLIGHT \<and> m_sched m \<le> mono_now then JOB_DELIVERY_EXPIRED
                  else JOB_DELIVERY_NOT_OWNED)"

definition no_room :: "queue \<Rightarrow> queue option \<Rightarrow> bool" where
  "no_room in_q out_q =
     (case out_q of None \<Rightarrow> False
      | Some q \<Rightarrow> q_max_depth q \<noteq> 0 \<and>
          (if q_lock_id q = q_lock_id in_q then word_of_nat (q_depth q) else word_of_nat (q_depth q) + 1) >
            q_max_depth q)"

text \<open>The queue effects after the record is durable: the output message in, the input out.\<close>

definition commit_apply :: "store \<Rightarrow> queue \<Rightarrow> queue option \<Rightarrow> nat \<Rightarrow> u64 \<Rightarrow> bytes \<Rightarrow> bool \<times> store" where
  "commit_apply s in_q out_q r out_id data =
     (case (case out_q of None \<Rightarrow> (0, s)
            | Some q \<Rightarrow> append_message s (q_lock_id q) out_id 0 data) of (rc, s1) \<Rightarrow>
        if rc < 0 then (False, s1\<lparr>s_wal := wal_set_failed (s_wal s1)\<rparr>)
        else (True, upd_queue s1 (q_lock_id in_q) (\<lambda>q. remove_message q r)))"

definition completion_log :: "queue \<Rightarrow> u64 \<Rightarrow> u64 \<Rightarrow> bytes \<Rightarrow> log_record" where
  "completion_log in_q mid commit_id payload =
     \<lparr>r_op = LOG_JOB_COMPLETION, r_durable = True, r_name = q_name in_q, r_id = mid, r_aux = commit_id,
      r_data = payload\<rparr>"

text \<open>
  The commit.  The result is the return code, the status, whether a receipt replayed the
  answer, the engine and the store; \<open>mono_now\<close> and \<open>mono_again\<close> are the two readings of the clock
  around the fence.
\<close>

definition queue_job_commit ::
  "store \<Rightarrow> 'j job_commit \<Rightarrow> u64 \<Rightarrow> u64 \<Rightarrow> 'j \<Rightarrow> int \<times> job_status \<times> bool \<times> 'j \<times> store" where
  "queue_job_commit s spec mono_now mono_again j =
     (if \<not> spec_valid spec then (-2, JOB_VALIDATION_FAILED, False, j, s)
      else if \<not> queue_wal_enabled s then (0, JOB_UNSUPPORTED_FEATURE, False, j, s)
      else case resolve_pair s spec of None \<Rightarrow> (0, JOB_VALIDATION_FAILED, False, j, s)
      | Some (in_q, out_q) \<Rightarrow>
        case jq_recheck spec j of
          (Recheck_Replay, j1) \<Rightarrow> (0, JOB_OK, True, j1, s)
        | (Recheck_Reject st, j1) \<Rightarrow> (0, st, False, j1, s)
        | (Recheck_Continue, j1) \<Rightarrow>
          case find_id in_q (jq_in_id spec) of
            None \<Rightarrow> (0, JOB_DELIVERY_NOT_OWNED, False, j1, s)
          | Some m \<Rightarrow>
            if \<not> fenced spec mono_now m then (0, fence_status mono_again (Some m), False, j1, s)
            else if no_room in_q out_q then (0, JOB_RESOURCE_EXHAUSTED, False, j1, s)
            else
              let out_id = (if out_q = None then 0 else s_next_id s);
                  s1 = (if out_q = None then s else s\<lparr>s_next_id := s_next_id s + 1\<rparr>)
              in case jq_prepare spec out_id j1 of
                   (Inl st, j2) \<Rightarrow> (0, st, False, j2, s1)
                 | (Inr (commit_id, version), j2) \<Rightarrow>
                   case alloc s1 of (ok, s2) \<Rightarrow>
                   if \<not> ok then (0, JOB_RESOURCE_EXHAUSTED, False, jq_cancel spec j2, s2)
                   else case jq_encode spec out_id commit_id version j2 of
                     None \<Rightarrow> (0, JOB_VALIDATION_FAILED, False, jq_cancel spec j2, s2)
                   | Some payload \<Rightarrow>
                     case append_store s2 (completion_log in_q (jq_in_id spec) commit_id payload) True False of
                       (rc, s3) \<Rightarrow>
                       if rc < 0 then (-1, JOB_OPERATION_IN_DOUBT, False, jq_cancel spec j2, s3)
                       else
                         let j3 = jq_apply spec out_id commit_id version j2;
                             data = (case jq_out spec of None \<Rightarrow> [] | Some (_, d) \<Rightarrow> d)
                         in case commit_apply s3 in_q out_q (m_ref m) out_id data of
                              (False, s4) \<Rightarrow> (-1, JOB_OPERATION_IN_DOUBT, False, j3, s4)
                            | (True, s4) \<Rightarrow> (1, JOB_VALIDATION_FAILED, False, j3, s4))"

definition queue_job_record_append_sync ::
  "store \<Rightarrow> log_op \<Rightarrow> bytes \<Rightarrow> u64 \<Rightarrow> u64 \<Rightarrow> bytes \<Rightarrow> int \<times> store" where
  "queue_job_record_append_sync s op name rid aux data =
     append_store s \<lparr>r_op = op, r_durable = True, r_name = name, r_id = rid, r_aux = aux, r_data = data\<rparr>
       True False"

end
