(* ===== verification/Store_Inv.thy ===== *)
theory Store_Inv
  imports Queue_Engine
begin

text \<open>
  The invariant of the store and its preservation by the operations on single messages.
  \<open>store_ok\<close> says that the queues are listed newest first with distinct ids, that live
  names are unique, and of every queue that it satisfies its own invariant, that its list
  is in the order of arrival, that no reference and no delivery tag is ahead of the counters
  of the store, and, without a delivery limit, that every message before the scan hint is in
  flight.  The invariant assumes that the tag index was never refused memory.
\<close>

subsection \<open>The invariant\<close>

definition queue_in :: "store \<Rightarrow> queue \<Rightarrow> bool" where
  "queue_in s q \<longleftrightarrow>
     queue_ok q \<and> sorted_wrt (<) (refs (q_msgs q)) \<and> q_lock_id q < s_next_lock_id s \<and>
     (\<forall>m \<in> set (q_msgs q). m_ref m < s_next_ref s \<and> m_tag m < s_next_delivery_tag s) \<and>
     (q_max_deliveries q = 0 \<longrightarrow> hint_tight q) \<and> q_name q \<noteq> [] \<and> q_dlq_name q \<noteq> q_name q"

definition live_names :: "queue list \<Rightarrow> bytes list" where
  "live_names qs = map q_name (filter (\<lambda>q. \<not> q_deleted q) qs)"

definition store_ok :: "store \<Rightarrow> bool" where
  "store_ok s \<longleftrightarrow>
     sorted_wrt (>) (map q_lock_id (s_queues s)) \<and> distinct (live_names (s_queues s)) \<and>
     (\<forall>q \<in> set (s_queues s). queue_in s q) \<and> 0 < s_next_delivery_tag s \<and>
     (\<forall>n. se_calloc (s_env s) n)"

text \<open>The fields of a queue that no operation on messages changes.\<close>

definition static :: "queue \<Rightarrow> nat \<times> u64 \<times> bytes \<times> u64 \<times> bool \<times> bool \<times> bytes \<times> u32" where
  "static q = (q_lock_id q, q_incarnation q, q_name q, q_max_depth q, q_durable q, q_deleted q, q_dlq_name q,
               q_max_deliveries q)"

lemma static_eq:
  "static q = static q' \<longleftrightarrow>
     q_lock_id q = q_lock_id q' \<and> q_incarnation q = q_incarnation q' \<and> q_name q = q_name q' \<and>
     q_max_depth q = q_max_depth q' \<and> q_durable q = q_durable q' \<and> q_deleted q = q_deleted q' \<and>
     q_dlq_name q = q_dlq_name q' \<and> q_max_deliveries q = q_max_deliveries q'"
  by (simp add: static_def)

lemma static_ops [simp]:
  "static (remove_message q r) = static q" "static (requeue_message q r nb) = static q"
  "static (charge_message q r) = static q" "static (message_link q m) = static q"
  "static (deliver_message mem q r dl ow tg) = static q" "static (snd (purge_queue_locked q)) = static q"
  "static (q\<lparr>q_ready_hint := h\<rparr>) = static q" "static (q\<lparr>q_earliest_visibility := nd\<rparr>) = static q"
  "static (requeue_charged q r nb) = static q" "static (upd_msg q r f) = static q"
  by (simp_all add: static_eq requeue_charged_def)

subsection \<open>Stores with the same queues\<close>

text \<open>Steps that touch only the log, the oracles and the statistics.\<close>

definition frame :: "store \<Rightarrow> store \<Rightarrow> bool" where
  "frame s s' \<longleftrightarrow>
     s_queues s' = s_queues s \<and> s_next_lock_id s' = s_next_lock_id s \<and> s_next_ref s' = s_next_ref s \<and>
     s_next_delivery_tag s' = s_next_delivery_tag s \<and> s_env s' = s_env s"

named_theorems store_frame \<open>operations that leave the queues of the store alone\<close>

lemma frame_refl [simp]: "frame s s"
  by (simp add: frame_def)

lemma frame_trans [trans]: "frame s s' \<Longrightarrow> frame s' s'' \<Longrightarrow> frame s s''"
  by (simp add: frame_def)

lemma frameD:
  assumes "frame s s'"
  shows "store_ok s' = store_ok s" "get_queue s' = get_queue s" "find_queue s' = find_queue s"
    "get_msg s' = get_msg s" "queue_in s' = queue_in s" "s_queues s' = s_queues s"
    "s_next_ref s' = s_next_ref s" "s_next_delivery_tag s' = s_next_delivery_tag s"
    "s_next_lock_id s' = s_next_lock_id s" "s_env s' = s_env s"
proof -
  show g: "get_queue s' = get_queue s" using assms by (intro ext) (simp add: frame_def get_queue_def)
  show "find_queue s' = find_queue s" using assms by (intro ext) (simp add: frame_def find_queue_def)
  show "get_msg s' = get_msg s" by (intro ext) (simp add: get_msg_def g)
  show q: "queue_in s' = queue_in s" using assms by (intro ext) (simp add: frame_def queue_in_def)
  show "store_ok s' = store_ok s" using assms by (simp add: frame_def store_ok_def q)
qed (use assms in \<open>simp_all add: frame_def\<close>)

lemma alloc_frame [store_frame]: "alloc s = (ok, s') \<Longrightarrow> frame s s'"
  by (auto simp: alloc_def frame_def)

lemma alloc_index_frame [store_frame]: "alloc_index s = (ok, s') \<Longrightarrow> frame s s'"
  by (auto simp: alloc_index_def frame_def)

lemma try_lock_frame [store_frame]: "try_lock s = (ok, s') \<Longrightarrow> frame s s'"
  by (auto simp: try_lock_def frame_def)

lemma allocs_frame [store_frame]: "allocs n s = (ok, s') \<Longrightarrow> frame s s'"
  by (induction n arbitrary: s) (auto split: prod.splits if_splits dest!: alloc_frame intro: frame_trans)

lemma append_store_frame [store_frame]: "append_store s r f d = (rc, s') \<Longrightarrow> frame s s'"
  by (auto simp: append_store_def frame_def split: prod.splits)

lemma append_log_frame [store_frame]: "append_log s op q i e d = (rc, s') \<Longrightarrow> frame s s'"
  by (auto simp: append_log_def dest: append_store_frame)

lemma append_log_deferred_frame [store_frame]: "append_log_deferred s op q i = (rc, s') \<Longrightarrow> frame s s'"
  by (auto simp: append_log_deferred_def dest: append_store_frame)

lemma sync_store_frame [store_frame]: "sync_store s = (rc, s') \<Longrightarrow> frame s s'"
  by (auto simp: sync_store_def frame_def split: prod.splits)

lemma wait_store_frame [store_frame]: "wait_store s = (rc, s') \<Longrightarrow> frame s s'"
  by (auto simp: wait_store_def frame_def split: prod.splits)

lemma finish_durable_frame [store_frame]: "finish_durable s b = (rc, s') \<Longrightarrow> frame s s'"
  by (auto simp: finish_durable_def dest: wait_store_frame split: if_splits)

lemma log_synced_frame [store_frame]: "log_synced s op q i a = (rc, s') \<Longrightarrow> frame s s'"
  by (auto simp: log_synced_def split: if_splits prod.splits dest!: append_log_frame sync_store_frame
      intro: frame_trans)

lemma frame_cond [store_frame]:
  "(if c then append_log s op q i e d else (0, s)) = (rc, s') \<Longrightarrow> frame s s'"
  "(if c then finish_durable s b else (0, s)) = (rc, s') \<Longrightarrow> frame s s'"
  "(if c then wait_store s else (0, s)) = (rc, s') \<Longrightarrow> frame s s'"
  "(if c then append_store s rr f df else (0, s)) = (rc, s') \<Longrightarrow> frame s s'"
  "(if c then append_log_deferred s op q i else (0, s)) = (rc, s') \<Longrightarrow> frame s s'"
  by (auto split: if_splits dest: append_log_frame finish_durable_frame wait_store_frame append_store_frame
      append_log_deferred_frame)

lemma frame_fields [simp]:
  "frame s (s'\<lparr>s_next_id := x1\<rparr>) = frame s s'" "frame s (s'\<lparr>s_redeliveries := x2\<rparr>) = frame s s'"
  "frame s (s'\<lparr>s_deadlettered := x2\<rparr>) = frame s s'" "frame s (s'\<lparr>s_consumers := x3\<rparr>) = frame s s'"
  "frame s (s'\<lparr>s_next_owner := x4\<rparr>) = frame s s'" "frame s (s'\<lparr>s_meta_live := x4\<rparr>) = frame s s'"
  "frame s (s'\<lparr>s_exchanges := x5\<rparr>) = frame s s'" "frame s (s'\<lparr>s_unroutable := x4\<rparr>) = frame s s'"
  "frame s (s'\<lparr>s_tx_pending := x6\<rparr>) = frame s s'" "frame s (s'\<lparr>s_wal := x7\<rparr>) = frame s s'"
  "frame s (s'\<lparr>s_next_incarnation := x4\<rparr>) = frame s s'"
  by (simp_all add: frame_def)

lemma ok_fields [simp]:
  "store_ok (s\<lparr>s_next_id := x1\<rparr>) = store_ok s" "store_ok (s\<lparr>s_redeliveries := x2\<rparr>) = store_ok s"
  "store_ok (s\<lparr>s_deadlettered := x2\<rparr>) = store_ok s" "store_ok (s\<lparr>s_consumers := x3\<rparr>) = store_ok s"
  "store_ok (s\<lparr>s_next_owner := x4\<rparr>) = store_ok s" "store_ok (s\<lparr>s_meta_live := x4\<rparr>) = store_ok s"
  "store_ok (s\<lparr>s_exchanges := x5\<rparr>) = store_ok s" "store_ok (s\<lparr>s_unroutable := x4\<rparr>) = store_ok s"
  "store_ok (s\<lparr>s_tx_pending := x6\<rparr>) = store_ok s" "store_ok (s\<lparr>s_wal := x7\<rparr>) = store_ok s"
  "store_ok (s\<lparr>s_next_incarnation := x4\<rparr>) = store_ok s"
  by (rule frameD(1), simp)+

lemma get_fields [simp]:
  "get_queue (s\<lparr>s_next_id := x1\<rparr>) = get_queue s" "get_queue (s\<lparr>s_redeliveries := x2\<rparr>) = get_queue s"
  "get_queue (s\<lparr>s_deadlettered := x2\<rparr>) = get_queue s" "get_queue (s\<lparr>s_consumers := x3\<rparr>) = get_queue s"
  "get_queue (s\<lparr>s_next_owner := x4\<rparr>) = get_queue s" "get_queue (s\<lparr>s_meta_live := x4\<rparr>) = get_queue s"
  "get_queue (s\<lparr>s_exchanges := x5\<rparr>) = get_queue s" "get_queue (s\<lparr>s_unroutable := x4\<rparr>) = get_queue s"
  "get_queue (s\<lparr>s_tx_pending := x6\<rparr>) = get_queue s" "get_queue (s\<lparr>s_wal := x7\<rparr>) = get_queue s"
  "get_queue (s\<lparr>s_next_incarnation := x4\<rparr>) = get_queue s" "get_queue (s\<lparr>s_next_ref := x8\<rparr>) = get_queue s"
  "get_queue (s\<lparr>s_next_delivery_tag := x4\<rparr>) = get_queue s"
  by (simp_all add: get_queue_def [abs_def])

subsection \<open>Pointers\<close>

lemma descending_distinct: "sorted_wrt (>) (xs :: nat list) \<Longrightarrow> distinct xs"
  by (induction xs) auto

lemma ascending_distinct: "sorted_wrt (<) (xs :: nat list) \<Longrightarrow> distinct xs"
  by (induction xs) auto

lemma find_distinct:
  "distinct (map f xs) \<Longrightarrow> find (\<lambda>x. f x = k) xs = Some x \<longleftrightarrow> x \<in> set xs \<and> f x = k"
  by (induction xs) (auto split: if_splits)

lemma get_queue_iff:
  "store_ok s \<Longrightarrow> get_queue s qid = Some q \<longleftrightarrow> q \<in> set (s_queues s) \<and> q_lock_id q = qid"
  unfolding get_queue_def by (rule find_distinct) (simp add: store_ok_def descending_distinct)

lemma get_queue_id: "get_queue s qid = Some q \<Longrightarrow> q \<in> set (s_queues s) \<and> q_lock_id q = qid"
  unfolding get_queue_def by (auto dest: find_Some_mem)

lemma get_queue_in: "store_ok s \<Longrightarrow> get_queue s qid = Some q \<Longrightarrow> queue_in s q"
  by (simp add: get_queue_iff) (simp add: store_ok_def)

lemma get_queue_ok: "store_ok s \<Longrightarrow> get_queue s qid = Some q \<Longrightarrow> queue_ok q"
  by (drule (1) get_queue_in) (simp add: queue_in_def)

lemma find_queue_Some:
  "find_queue s name = Some q \<Longrightarrow> q \<in> set (s_queues s) \<and> \<not> q_deleted q \<and> q_name q = name"
  unfolding find_queue_def by (auto dest: find_Some_mem)

lemma find_queue_get:
  "store_ok s \<Longrightarrow> find_queue s name = Some q \<Longrightarrow> get_queue s (q_lock_id q) = Some q"
  by (drule find_queue_Some) (simp add: get_queue_iff)

lemma live_names_find:
  "distinct (map q_name (filter P qs)) \<Longrightarrow> q \<in> set qs \<Longrightarrow> P q \<Longrightarrow>
     find (\<lambda>x. P x \<and> q_name x = q_name q) qs = Some q"
  by (induction qs) (auto simp: image_iff split: if_splits)

lemma get_find_queue:
  "store_ok s \<Longrightarrow> get_queue s qid = Some q \<Longrightarrow> \<not> q_deleted q \<Longrightarrow> find_queue s (q_name q) = Some q"
  unfolding find_queue_def
  by (rule live_names_find) (simp_all add: get_queue_iff, simp add: store_ok_def live_names_def)

lemma find_queue_None: "find_queue s name = None \<longleftrightarrow> name \<notin> set (live_names (s_queues s))"
  by (auto simp: find_queue_def find_None_all live_names_def)

text \<open>Updating the queue behind a pointer.\<close>

lemma upd_queue_simps [simp]:
  "s_exchanges (upd_queue s qid f) = s_exchanges s" "s_consumers (upd_queue s qid f) = s_consumers s"
  "s_tx_pending (upd_queue s qid f) = s_tx_pending s" "s_next_id (upd_queue s qid f) = s_next_id s"
  "s_next_owner (upd_queue s qid f) = s_next_owner s"
  "s_next_delivery_tag (upd_queue s qid f) = s_next_delivery_tag s"
  "s_next_incarnation (upd_queue s qid f) = s_next_incarnation s"
  "s_next_lock_id (upd_queue s qid f) = s_next_lock_id s" "s_next_ref (upd_queue s qid f) = s_next_ref s"
  "s_wal (upd_queue s qid f) = s_wal s" "s_env (upd_queue s qid f) = s_env s" "s_calls (upd_queue s qid f) = s_calls s"
  "s_job_enabled (upd_queue s qid f) = s_job_enabled s" "s_redeliveries (upd_queue s qid f) = s_redeliveries s"
  "s_deadlettered (upd_queue s qid f) = s_deadlettered s" "s_meta_live (upd_queue s qid f) = s_meta_live s"
  by (simp_all add: upd_queue_def)

lemma get_upd_queue:
  assumes "\<And>q. q_lock_id (f q) = q_lock_id q"
  shows "get_queue (upd_queue s qid f) x = (if x = qid then map_option f (get_queue s x) else get_queue s x)"
proof -
  have "find (\<lambda>q. q_lock_id q = x) (map (\<lambda>q. if q_lock_id q = qid then f q else q) qs) =
      (if x = qid then map_option f (find (\<lambda>q. q_lock_id q = x) qs) else find (\<lambda>q. q_lock_id q = x) qs)" for qs
    by (induction qs) (auto simp: assms)
  then show ?thesis by (simp add: get_queue_def upd_queue_def)
qed

lemma queue_in_upd [simp]: "queue_in (upd_queue s qid f) = queue_in s"
  by (intro ext) (simp add: queue_in_def)

lemma map_if_id: "(\<And>x. g (f x) = g x) \<Longrightarrow> map g (map (\<lambda>x. if c x then f x else x) xs) = map g xs"
  by simp

lemma live_names_upd:
  assumes "\<And>q. q \<in> set qs \<Longrightarrow> q_lock_id q = qid \<Longrightarrow> q_deleted (f q) \<or> q_name (f q) = q_name q \<and> q_deleted (f q) = q_deleted q"
    and "distinct (live_names qs)"
  shows "distinct (live_names (map (\<lambda>q. if q_lock_id q = qid then f q else q) qs))"
proof -
  let ?g = "\<lambda>q. if q_lock_id q = qid then f q else q"
  have sub: "subseq (live_names (map ?g qs)) (live_names qs)"
    using assms(1)
  proof (induction qs)
    case (Cons q qs)
    have IH: "subseq (live_names (map ?g qs)) (live_names qs)" by (rule Cons.IH) (simp add: Cons.prems)
    have "q_lock_id q = qid \<Longrightarrow> q_deleted (f q) \<or> q_name (f q) = q_name q \<and> q_deleted (f q) = q_deleted q"
      using Cons.prems by simp
    then show ?case using IH subseq_Cons' by (auto simp: live_names_def)
  qed (simp add: live_names_def)
  then show ?thesis using assms(2) by (auto simp: subseq_conv_nths)
qed

lemma store_ok_upd:
  assumes ok: "store_ok s" and id: "\<And>q. q_lock_id (f q) = q_lock_id q"
    and f: "\<And>q. get_queue s qid = Some q \<Longrightarrow> queue_in s (f q) \<and>
      (q_deleted (f q) \<or> q_name (f q) = q_name q \<and> q_deleted (f q) = q_deleted q)"
  shows "store_ok (upd_queue s qid f)"
proof -
  have g: "q \<in> set (s_queues s) \<Longrightarrow> q_lock_id q = qid \<Longrightarrow> get_queue s qid = Some q" for q
    using get_queue_iff [OF ok] by simp
  have "map q_lock_id (s_queues (upd_queue s qid f)) = map q_lock_id (s_queues s)"
    by (simp add: upd_queue_def id)
  moreover have "distinct (live_names (s_queues (upd_queue s qid f)))"
    unfolding upd_queue_def using ok f g by (simp add: live_names_upd store_ok_def)
  moreover have "\<forall>q \<in> set (s_queues (upd_queue s qid f)). queue_in s q"
    using ok f g by (auto simp: upd_queue_def store_ok_def)
  ultimately show ?thesis using ok by (simp add: store_ok_def)
qed

text \<open>The common case: an update that keeps the static fields.\<close>

lemma store_ok_upd_static:
  assumes "store_ok s" and "\<And>q. static (f q) = static q"
    and "\<And>q. get_queue s qid = Some q \<Longrightarrow> queue_in s (f q)"
  shows "store_ok (upd_queue s qid f)"
  by (rule store_ok_upd) (use assms in \<open>simp_all add: static_eq\<close>)

subsection \<open>The primitives, seen from the store\<close>

lemma queue_in_remove: "queue_in s q \<Longrightarrow> queue_in s (remove_message q r)"
  by (simp add: queue_in_def queue_ok_remove hint_tight_remove sorted_wrt_map sorted_wrt_filter)

lemma queue_in_charge: "queue_in s (charge_message q r) = queue_in s q" if "queue_ok q"
  using that by (simp add: queue_in_def queue_ok_charge hint_tight_charge o_def)

lemma queue_in_requeue:
  assumes "queue_in s q" and "find_msg q r = Some m" and "m_state m = MESSAGE_INFLIGHT"
    and "0 < s_next_delivery_tag s"
  shows "queue_in s (requeue_message q r nb)"
proof -
  have ok: "queue_ok q" using assms(1) by (simp add: queue_in_def)
  note ms = requeue_msgs [OF ok assms(2,3), of nb]
  have "m_tag (readied r nb x) < s_next_delivery_tag s" if "x \<in> set (q_msgs q)" for x
    using that assms(1,4) by (auto simp: queue_in_def readied_def)
  then show ?thesis
    using assms(1) queue_ok_requeue [OF ok assms(2,3)] hint_tight_requeue
    by (simp add: queue_in_def ms o_def)
qed

lemma queue_in_requeue_charged:
  assumes "queue_in s q" and "find_msg q r = Some m" and "m_state m = MESSAGE_INFLIGHT"
    and "0 < s_next_delivery_tag s"
  shows "queue_in s (requeue_charged q r nb)"
proof -
  have "queue_in s (requeue_message q r nb)" by (rule queue_in_requeue [OF assms])
  moreover from this have "queue_ok (requeue_message q r nb)" by (simp add: queue_in_def)
  ultimately show ?thesis unfolding requeue_charged_def by (simp add: queue_in_charge)
qed

lemma queue_in_purge: "queue_in s q \<Longrightarrow> queue_in s (snd (purge_queue_locked q))"
  by (simp add: queue_in_def queue_ok_purge)

lemma queue_in_tombstone:
  assumes "queue_in s q"
  shows "queue_in s (tombstone q)"
proof -
  have "queue_in s (snd (purge_queue_locked q))" by (rule queue_in_purge [OF assms])
  then show ?thesis
    by (simp add: tombstone_def Let_def queue_in_def queue_ok_def leases_ok_def hint_tight_def)
qed

lemma tombstone_simps [simp]: "q_lock_id (tombstone q) = q_lock_id q" "q_deleted (tombstone q)" "q_name (tombstone q) = q_name q"
  by (simp_all add: tombstone_def Let_def)

lemma queue_in_link:
  assumes "queue_in s q" and "m_ref m = s_next_ref s" and "m_state m = MESSAGE_READY" and "m_tag m = 0"
    and "0 < s_next_delivery_tag s"
  shows "queue_in (s\<lparr>s_next_ref := Suc (s_next_ref s)\<rparr>) (message_link q m)"
proof -
  have "m_ref m \<notin> set (refs (q_msgs q))" using assms(1,2) by (auto simp: queue_in_def)
  then have "queue_ok (message_link q m)" using assms by (intro queue_ok_link) (simp_all add: queue_in_def)
  then show ?thesis
    using assms hint_tight_link [of q m]
    by (auto simp: queue_in_def sorted_wrt_append less_Suc_eq)
qed

lemma queue_in_hint:
  assumes "queue_in s q" and "\<And>r. h = Some r \<Longrightarrow> r \<in> set (refs (q_msgs q))"
    and "q_max_deliveries q = 0 \<Longrightarrow> all_before (\<lambda>m. m_state m = MESSAGE_INFLIGHT) (q_msgs q) h"
  shows "queue_in s (q\<lparr>q_ready_hint := h\<rparr>)"
  using assms by (simp add: queue_in_def queue_ok_def hint_tight_def leases_ok_def)

lemma queue_in_visibility:
  assumes "queue_in s q"
    and "\<And>m. m \<in> set (q_msgs q) \<Longrightarrow> m_state m = MESSAGE_INFLIGHT \<Longrightarrow> m_expires m = 0 \<Longrightarrow> nd \<le> m_sched m"
  shows "queue_in s (q\<lparr>q_earliest_visibility := nd\<rparr>)"
  using assms by (simp add: queue_in_def queue_ok_def hint_tight_def leases_ok_def)

lemma queue_in_deliver:
  assumes "queue_in s q" and "find_msg q r = Some m" and "m_state m = MESSAGE_READY"
    and "s_next_delivery_tag s \<noteq> 0" and "s_next_delivery_tag s + 1 \<noteq> 0"
  shows "queue_in (s\<lparr>s_next_delivery_tag := s_next_delivery_tag s + 1\<rparr>)
           (deliver_message True q r dl ow (s_next_delivery_tag s))"
proof -
  let ?t = "s_next_delivery_tag s" and ?f = "delivered q r dl ow (s_next_delivery_tag s)"
  have ok: "queue_ok q" using assms(1) by (simp add: queue_in_def)
  have lt: "?t < ?t + 1" using assms(5) by (simp add: word_less_nat_alt unatSuc add.commute [of _ 1])
  have small: "m_tag x < ?t" if "x \<in> set (q_msgs q)" for x using assms(1) that by (simp add: queue_in_def)
  then have "\<forall>x \<in> set (q_msgs q). m_tag x \<noteq> ?t" by fastforce
  then have "queue_ok (deliver_message True q r dl ow ?t)"
    by (rule queue_ok_deliver [OF ok assms(2,3,4)])
  moreover have "m_tag (?f x) < ?t + 1" if "x \<in> set (q_msgs q)" for x
    using less_trans [OF small [OF that] lt] lt by (simp add: delivered_def leased_def)
  ultimately show ?thesis
    using assms(1) hint_tight_deliver [of q True r dl ow ?t] by (simp add: queue_in_def o_def)
qed

subsection \<open>Stores that grow\<close>

definition ahead :: "store \<Rightarrow> store \<Rightarrow> bool" where
  "ahead s s' \<longleftrightarrow> s_next_lock_id s \<le> s_next_lock_id s' \<and> s_next_ref s \<le> s_next_ref s' \<and>
     s_next_delivery_tag s \<le> s_next_delivery_tag s' \<and> s_env s' = s_env s"

lemma queue_in_ahead: "queue_in s q \<Longrightarrow> ahead s s' \<Longrightarrow> queue_in s' q"
  by (fastforce simp: queue_in_def ahead_def)

text \<open>
  \<open>grows\<close>: every queue of the one store is a queue of the other, with the same static fields;
  \<open>evolves\<close>: and no delivery tag was handed out.
\<close>

definition grows :: "store \<Rightarrow> store \<Rightarrow> bool" where
  "grows s s' \<longleftrightarrow> ahead s s' \<and>
     (\<forall>qid q. get_queue s qid = Some q \<longrightarrow> (\<exists>q'. get_queue s' qid = Some q' \<and> static q' = static q))"

definition evolves :: "store \<Rightarrow> store \<Rightarrow> bool" where
  "evolves s s' \<longleftrightarrow> grows s s' \<and> s_next_delivery_tag s' = s_next_delivery_tag s"

lemma evolves_refl [simp]: "evolves s s"
  by (simp add: evolves_def grows_def ahead_def)

lemma grows_trans [trans]: "grows s s' \<Longrightarrow> grows s' s'' \<Longrightarrow> grows s s''"
  unfolding grows_def ahead_def by (intro conjI; force)

lemma evolves_trans [trans]: "evolves s s' \<Longrightarrow> evolves s' s'' \<Longrightarrow> evolves s s''"
  unfolding evolves_def using grows_trans by auto

lemma evolves_grows: "evolves s s' \<Longrightarrow> grows s s'"
  by (simp add: evolves_def)

lemma evolves_tag: "evolves s s' \<Longrightarrow> s_next_delivery_tag s' = s_next_delivery_tag s"
  by (simp add: evolves_def)

lemma frame_evolves: "frame s s' \<Longrightarrow> evolves s s'"
  by (simp add: evolves_def grows_def ahead_def frameD)

lemma upd_evolves: "(\<And>q. static (f q) = static q) \<Longrightarrow> evolves s (upd_queue s qid f)"
  by (auto simp: evolves_def grows_def ahead_def get_upd_queue static_eq)

lemma evolves_fields [simp]:
  "evolves s (s'\<lparr>s_next_id := x1\<rparr>) = evolves s s'" "evolves s (s'\<lparr>s_redeliveries := x2\<rparr>) = evolves s s'"
  "evolves s (s'\<lparr>s_deadlettered := x2\<rparr>) = evolves s s'" "evolves s (s'\<lparr>s_consumers := x3\<rparr>) = evolves s s'"
  "evolves s (s'\<lparr>s_next_owner := x4\<rparr>) = evolves s s'" "evolves s (s'\<lparr>s_meta_live := x4\<rparr>) = evolves s s'"
  "evolves s (s'\<lparr>s_exchanges := x5\<rparr>) = evolves s s'" "evolves s (s'\<lparr>s_unroutable := x4\<rparr>) = evolves s s'"
  "evolves s (s'\<lparr>s_tx_pending := x6\<rparr>) = evolves s s'" "evolves s (s'\<lparr>s_wal := x7\<rparr>) = evolves s s'"
  by (simp_all add: evolves_def grows_def ahead_def)

lemma evolves_get:
  assumes "grows s s'" and "get_queue s qid = Some q"
  obtains q' where "get_queue s' qid = Some q'" "static q' = static q"
  using assms by (auto simp: grows_def)

subsection \<open>Creating queues and appending messages\<close>

lemma queue_in_new:
  "name \<noteq> [] \<Longrightarrow> dlq \<noteq> name \<Longrightarrow>
     queue_in (s\<lparr>s_next_lock_id := Suc (s_next_lock_id s)\<rparr>) (new_queue s name dur mx dlq md)"
  by (simp add: queue_in_def new_queue_def queue_ok_def inflight_total_def ttl_total_def index_sound_def
      index_full_def tags_ok_def leases_ok_def hint_tight_def)

lemma create_queue_None: "create_queue s name dur mx dlq md = (None, s') \<Longrightarrow> frame s s'"
  by (auto simp: create_queue_def split: prod.splits if_splits dest: allocs_frame)

lemma create_queue_Some:
  assumes ok: "store_ok s" and c: "create_queue s name dur mx dlq md = (Some d, s')"
    and n: "name \<noteq> []" "dlq \<noteq> name" "find_queue s name = None"
  shows "store_ok s'" "evolves s s'" "d = s_next_lock_id s"
    "get_queue s' d = Some (new_queue s' name dur mx dlq md\<lparr>q_lock_id := d, q_incarnation := s_next_incarnation s'\<rparr>)"
    "x \<noteq> d \<Longrightarrow> get_queue s' x = get_queue s x"
proof -
  obtain s1 where a: "frame s s1" and d: "d = s_next_lock_id s1"
    and s': "s' = s1\<lparr>s_queues := new_queue s1 name dur mx dlq md # s_queues s1,
              s_next_incarnation := next_incarnation (s_next_incarnation s1),
              s_next_lock_id := Suc (s_next_lock_id s1)\<rparr>"
    using c by (auto simp: create_queue_def split: prod.splits if_splits dest: allocs_frame)
  have ok1: "store_ok s1" using ok frameD [OF a] by simp
  let ?q = "new_queue s1 name dur mx dlq md"
  have low: "q_lock_id q < s_next_lock_id s1" if "q \<in> set (s_queues s1)" for q
    using ok1 that by (simp add: store_ok_def queue_in_def)
  have id: "q_lock_id ?q = s_next_lock_id s1" "\<not> q_deleted ?q" "q_name ?q = name" by (simp_all add: new_queue_def)
  show dd: "d = s_next_lock_id s" using d frameD [OF a] by simp
  have g: "get_queue s' x = (if x = d then Some ?q else get_queue s1 x)" for x
    using id by (auto simp: get_queue_def s' d)
  then show "x \<noteq> d \<Longrightarrow> get_queue s' x = get_queue s x" using frameD [OF a] by simp
  show "get_queue s' d = Some (new_queue s' name dur mx dlq md\<lparr>q_lock_id := d, q_incarnation := s_next_incarnation s'\<rparr>)"
    using g [of d] by (simp add: new_queue_def s' d)
  have "queue_in s' ?q"
    using queue_in_new [OF n(1,2), of s1 dur mx md] by (simp add: queue_in_def s')
  moreover have "queue_in s' q" if "q \<in> set (s_queues s1)" for q
    by (rule queue_in_ahead [of s1]) (use ok1 that in \<open>simp_all add: store_ok_def ahead_def s'\<close>)
  moreover have "name \<notin> set (live_names (s_queues s1))"
    using n(3) frameD [OF a] by (simp add: find_queue_None)
  ultimately show "store_ok s'"
    using ok1 low id unfolding store_ok_def by (auto simp: s' live_names_def)
  have "get_queue s1 d = None"
    using low by (force simp: get_queue_def find_None_all d)
  then show "evolves s s'"
    using frameD [OF a] g by (auto simp: evolves_def grows_def ahead_def s')
qed

lemma append_message_ok:
  assumes ok: "store_ok s" and a: "append_message s qid mid ex data = (rc, s')"
  shows "store_ok s'" "evolves s s'" "rc = 0 \<or> rc = -1" "rc = -1 \<Longrightarrow> get_queue s' = get_queue s"
    "rc = 0 \<Longrightarrow> get_queue s' x = (if x = qid then map_option (\<lambda>q. message_link q (message_create (s_next_ref s) mid ex data))
        (get_queue s x) else get_queue s x)"
proof -
  obtain ok1 s1 where al: "alloc s = (ok1, s1)" by (cases "alloc s")
  have f: "frame s s1" by (rule alloc_frame [OF al])
  have okf: "store_ok s1" using ok frameD [OF f] by simp
  let ?m = "message_create (s_next_ref s1) mid ex data" and ?s = "s1\<lparr>s_next_ref := Suc (s_next_ref s1)\<rparr>"
  have s': "rc = (if ok1 then 0 else -1)" "s' = (if ok1 then upd_queue ?s qid (\<lambda>q. message_link q ?m) else s1)"
    using a al by (auto simp: append_message_def Let_def)
  have tag: "0 < s_next_delivery_tag s1" using okf by (simp add: store_ok_def)
  have okS: "store_ok ?s"
  proof -
    have "queue_in ?s q" if "q \<in> set (s_queues s1)" for q
      by (rule queue_in_ahead [of s1]) (use okf that in \<open>simp_all add: store_ok_def ahead_def\<close>)
    then show ?thesis using okf by (simp add: store_ok_def)
  qed
  have "queue_in ?s (message_link q ?m)" if "get_queue ?s qid = Some q" for q
    using queue_in_link [of s1 q ?m] get_queue_in [OF okf, of qid q] that tag by (simp add: message_create_def)
  then have "store_ok (upd_queue ?s qid (\<lambda>q. message_link q ?m))"
    by (intro store_ok_upd_static [OF okS]) simp_all
  then show "store_ok s'" using okf s' by simp
  have "evolves s1 ?s" by (simp add: evolves_def grows_def ahead_def)
  then have "evolves s1 (upd_queue ?s qid (\<lambda>q. message_link q ?m))"
    by (rule evolves_trans) (rule upd_evolves, simp)
  then show "evolves s s'" using frame_evolves [OF f] s' by (auto intro: evolves_trans)
  show "rc = 0 \<or> rc = -1" using s' by simp
  show "rc = -1 \<Longrightarrow> get_queue s' = get_queue s" using s' frameD [OF f] by (simp split: if_splits)
  show "rc = 0 \<Longrightarrow> get_queue s' x = (if x = qid then map_option (\<lambda>q. message_link q (message_create (s_next_ref s) mid ex data))
        (get_queue s x) else get_queue s x)"
    using s' frameD [OF f] by (simp add: get_upd_queue split: if_splits)
qed

lemma upd_remove_ok: "store_ok s \<Longrightarrow> store_ok (upd_queue s qid (\<lambda>q. remove_message q r))"
  by (rule store_ok_upd_static) (simp_all add: get_queue_in queue_in_remove)

lemma upd_requeue_ok:
  assumes ok: "store_ok s" and q: "get_queue s qid = Some q" "find_msg q r = Some m" "m_state m = MESSAGE_INFLIGHT"
  shows "store_ok (upd_queue s qid (\<lambda>q. requeue_message q r nb))"
    "store_ok (upd_queue s qid (\<lambda>q. requeue_charged q r nb))"
proof -
  have t: "0 < s_next_delivery_tag s" using ok by (simp add: store_ok_def)
  note i = get_queue_in [OF ok q(1)]
  show "store_ok (upd_queue s qid (\<lambda>q. requeue_message q r nb))"
    by (rule store_ok_upd_static [OF ok]) (use q(1) queue_in_requeue [OF i q(2,3) t] in simp_all)
  show "store_ok (upd_queue s qid (\<lambda>q. requeue_charged q r nb))"
    by (rule store_ok_upd_static [OF ok]) (use q(1) queue_in_requeue_charged [OF i q(2,3) t] in simp_all)
qed

subsection \<open>Dead-letter routing\<close>

text \<open>\<open>untouched Q s s'\<close>: the queues in \<open>Q\<close> are exactly as they were.\<close>

definition untouched :: "nat set \<Rightarrow> store \<Rightarrow> store \<Rightarrow> bool" where
  "untouched Q s s' \<longleftrightarrow> (\<forall>x \<in> Q. get_queue s' x = get_queue s x)"

lemma untouched_refl [simp]: "untouched Q s s"
  by (simp add: untouched_def)

lemma frame_untouched: "frame s s' \<Longrightarrow> untouched Q s s'"
  by (simp add: untouched_def frameD)

lemma dead_letter_queue_ok:
  assumes ok: "store_ok s" and q: "get_queue s qid = Some q" "q_dlq_name q \<noteq> []"
    and e: "dead_letter_queue s q = (did, s')"
  shows "store_ok s'" "evolves s s'"
    "get_queue s x = Some y \<Longrightarrow> get_queue s' x = Some y"
    "did = Some d \<Longrightarrow> \<exists>dlq. get_queue s' d = Some dlq \<and> q_name dlq = q_dlq_name q \<and> \<not> q_deleted dlq"
proof -
  have "store_ok s' \<and> evolves s s' \<and> (\<forall>x y. get_queue s x = Some y \<longrightarrow> get_queue s' x = Some y) \<and>
    (\<forall>d. did = Some d \<longrightarrow> (\<exists>dlq. get_queue s' d = Some dlq \<and> q_name dlq = q_dlq_name q \<and> \<not> q_deleted dlq))"
  proof (cases "find_queue s (q_dlq_name q)")
    case (Some dlq)
    then have "s' = s" "did = Some (q_lock_id dlq)" using e by (simp_all add: dead_letter_queue_def)
    then show ?thesis using ok find_queue_get [OF ok Some] find_queue_Some [OF Some] by simp
  next
    case None
    obtain rc s1 where l: "(if q_durable q then append_log s LOG_DECLARE (temp_queue s (q_dlq_name q) (q_durable q)) 0 0 []
              else (0, s)) = (rc, s1)" by (rule prod.exhaust)
    note f = frame_cond(1) [OF l]
    note fd = frameD [OF f]
    show ?thesis
    proof (cases "rc < 0")
      case True
      then show ?thesis using None e l ok fd frame_evolves [OF f] by (simp add: dead_letter_queue_def)
    next
      case False
      then have c: "create_queue s1 (q_dlq_name q) (q_durable q) 0 [] 0 = (did, s')"
        using None e l by (simp add: dead_letter_queue_def)
      show ?thesis
      proof (cases did)
        case None
        then show ?thesis using create_queue_None c ok fd frame_evolves [OF f] frameD frame_evolves evolves_trans
          by (metis option.distinct(1))
      next
        case (Some d)
        have ok1: "store_ok s1" and n: "find_queue s1 (q_dlq_name q) = None" using ok None fd by simp_all
        note cs = create_queue_Some [OF ok1 c [unfolded Some] q(2) q(2) [symmetric] n]
        have "get_queue s1 d = None"
        proof (cases "get_queue s1 d")
          case (Some y)
          then have "q_lock_id y < s_next_lock_id s1" "q_lock_id y = d"
            using get_queue_in [OF ok1 Some] get_queue_id [OF Some] by (simp_all add: queue_in_def)
          then show ?thesis using cs(3) by simp
        qed
        then have "get_queue s x = Some y \<Longrightarrow> get_queue s' x = Some y" for x y
          using cs(5) [of x] fd by (cases "x = d") auto
        then show ?thesis
          using cs(1,4) evolves_trans [OF frame_evolves [OF f] cs(2)] Some by (simp add: new_queue_def)
      qed
    qed
  qed
  then show "store_ok s'" "evolves s s'" "get_queue s x = Some y \<Longrightarrow> get_queue s' x = Some y"
    "did = Some d \<Longrightarrow> \<exists>dlq. get_queue s' d = Some dlq \<and> q_name dlq = q_dlq_name q \<and> \<not> q_deleted dlq"
    by simp_all
qed

lemma dead_letter_copy_ok:
  assumes ok: "store_ok s" and d: "get_queue s (q_lock_id dlq) = Some dlq"
    and e: "dead_letter_copy s q dlq m clear = (rc, s')"
  shows "store_ok s'" "evolves s s'" "untouched (- {q_lock_id dlq}) s s'" "rc < 0 \<Longrightarrow> rc = -1 \<and> get_queue s' = get_queue s"
    "0 \<le> rc \<Longrightarrow> \<not> queue_full dlq \<and> get_queue s' (q_lock_id dlq) =
       Some (message_link dlq (message_create (s_next_ref s) (s_next_id s) (if clear then 0 else m_expires m) (m_data m)))"
proof -
  let ?ex = "if clear then 0 else m_expires m"
  have "store_ok s' \<and> evolves s s' \<and> untouched (- {q_lock_id dlq}) s s' \<and> (rc < 0 \<longrightarrow> rc = -1 \<and> get_queue s' = get_queue s) \<and>
    (0 \<le> rc \<longrightarrow> \<not> queue_full dlq \<and> get_queue s' (q_lock_id dlq) =
       Some (message_link dlq (message_create (s_next_ref s) (s_next_id s) ?ex (m_data m))))"
  proof (cases "queue_full dlq")
    case True
    then show ?thesis using e ok by (auto simp: dead_letter_copy_def queue_full_def)
  next
    case False
    let ?mid = "s_next_id s" and ?s1 = "s\<lparr>s_next_id := s_next_id s + 1\<rparr>"
    define logs where "logs = (if q_durable dlq
                 then (case append_log ?s1 LOG_PUBLISH dlq ?mid ?ex (m_data m) of (rc, s2) \<Rightarrow>
                         if rc < 0 then (-1, s2)
                         else case append_log s2 LOG_ACK q (m_id m) 0 [] of (rc, s3) \<Rightarrow>
                           if rc < 0 then (-1, s3) else sync_store s3)
                 else (0, ?s1))"
    obtain rc4 s4 where l: "logs = (rc4, s4)" by (rule prod.exhaust)
    have "frame ?s1 s4"
      using l unfolding logs_def
      by (auto split: if_splits prod.splits dest!: append_log_frame sync_store_frame intro: frame_trans)
    then have f: "frame s s4" by (simp add: frame_def)
    note fd = frameD [OF f]
    have e': "(if rc4 < 0 then (-1, s4) else append_message s4 (q_lock_id dlq) ?mid ?ex (m_data m)) = (rc, s')"
      using e False l unfolding logs_def dead_letter_copy_def queue_full_def by (simp add: Let_def)
    show ?thesis
    proof (cases "rc4 < 0")
      case True
      then show ?thesis using e' ok fd frame_evolves [OF f] frame_untouched [OF f] by auto
    next
      case False
      have ok4: "store_ok s4" using ok fd by simp
      have a: "append_message s4 (q_lock_id dlq) ?mid ?ex (m_data m) = (rc, s')" using e' False by simp
      note am = append_message_ok [OF ok4 a]
      have "untouched (- {q_lock_id dlq}) s s'"
        using am(3)
      proof
        assume "rc = 0"
        then show ?thesis using am(5) fd(2) by (simp add: untouched_def)
      next
        assume "rc = -1"
        then show ?thesis using am(4) fd(2) by (simp add: untouched_def)
      qed
      then show ?thesis
        using am(1,3,4,5) d fd evolves_trans [OF frame_evolves [OF f] am(2)] \<open>\<not> queue_full dlq\<close>
        by (elim disjE) simp_all
    qed
  qed
  then show "store_ok s'" "evolves s s'" "untouched (- {q_lock_id dlq}) s s'" "rc < 0 \<Longrightarrow> rc = -1 \<and> get_queue s' = get_queue s"
    "0 \<le> rc \<Longrightarrow> \<not> queue_full dlq \<and> get_queue s' (q_lock_id dlq) =
       Some (message_link dlq (message_create (s_next_ref s) (s_next_id s) ?ex (m_data m)))"
    by simp_all
qed

text \<open>
  Everything about a routing: it fails and every queue is as before, it does not apply, or it
  moves one message out of the queue and a copy of its body to the end of another.
\<close>

definition keeps :: "nat set \<Rightarrow> store \<Rightarrow> store \<Rightarrow> bool" where
  "keeps L s s' \<longleftrightarrow> (\<forall>x \<in> L. \<forall>y. get_queue s x = Some y \<longrightarrow> get_queue s' x = Some y)"

lemma keeps_refl [simp]: "keeps L s s"
  by (simp add: keeps_def)

lemma keeps_trans [trans]: "keeps L s s' \<Longrightarrow> keeps L s' s'' \<Longrightarrow> keeps L s s''"
  by (simp add: keeps_def)

lemma keeps_mono: "keeps L s s' \<Longrightarrow> L' \<subseteq> L \<Longrightarrow> keeps L' s s'"
  by (auto simp: keeps_def)

lemma keepsD: "keeps L s s' \<Longrightarrow> x \<in> L \<Longrightarrow> get_queue s x = Some y \<Longrightarrow> get_queue s' x = Some y"
  by (simp add: keeps_def)

lemma frame_keeps: "frame s s' \<Longrightarrow> keeps L s s'"
  by (simp add: keeps_def frameD)

lemma upd_keeps: "(\<And>q. static (f q) = static q) \<Longrightarrow> qid \<notin> L \<Longrightarrow> keeps L s (upd_queue s qid f)"
  by (auto simp: keeps_def get_upd_queue static_eq)

lemma keeps_fields [simp]:
  "keeps L s (s'\<lparr>s_redeliveries := x2\<rparr>) = keeps L s s'" "keeps L s (s'\<lparr>s_deadlettered := x2\<rparr>) = keeps L s s'"
  "keeps L s (s'\<lparr>s_next_id := x2\<rparr>) = keeps L s s'"
  by (simp_all add: keeps_def)

definition routed :: "store \<Rightarrow> nat \<Rightarrow> nat \<Rightarrow> message \<Rightarrow> bool \<Rightarrow> nat list \<Rightarrow> store \<Rightarrow> bool" where
  "routed s qid r m clear locks s' \<longleftrightarrow>
     (\<exists>q d dlq n. get_queue s qid = Some q \<and> d \<noteq> qid \<and> d \<notin> set locks \<and>
        (get_queue s d = Some dlq \<or> get_queue s d = None \<and> q_msgs dlq = []) \<and>
        q_name dlq = q_dlq_name q \<and> \<not> queue_full dlq \<and>
        get_queue s' qid = Some (remove_message q r) \<and> get_queue s' d = Some (message_link dlq n) \<and>
        m_data n = m_data m \<and> m_expires n = (if clear then 0 else m_expires m) \<and> m_state n = MESSAGE_READY \<and>
        (\<forall>x y. x \<noteq> qid \<and> x \<noteq> d \<and> get_queue s x = Some y \<longrightarrow> get_queue s' x = Some y))"

lemma dead_letter_ok:
  assumes ok: "store_ok s" and q: "get_queue s qid = Some q" and m: "find_msg q r = Some m"
    and e: "dead_letter_locked s qid r clear held locks = (rc, s')"
  shows "store_ok s' \<and> evolves s s' \<and>
    (rc = 0 \<and> s' = s \<and> q_dlq_name q = [] \<or>
     rc = -1 \<and> keeps UNIV s s' \<and> q_dlq_name q \<noteq> [] \<or>
     rc = 1 \<and> routed s qid r m clear locks s' \<and> q_dlq_name q \<noteq> [])"
proof (cases "q_dlq_name q = []")
  case True
  then show ?thesis using assms by (simp add: dead_letter_locked_def)
next
  case False
  obtain h s1 where l1: "(if held then (True, s) else try_lock s) = (h, s1)" by (rule prod.exhaust)
  have f1: "frame s s1" using l1 by (auto split: if_splits dest: try_lock_frame)
  note fd1 = frameD [OF f1]
  have ok1: "store_ok s1" and q1: "get_queue s1 qid = Some q" using ok q fd1 by simp_all
  obtain did s2 where l2: "dead_letter_queue s1 q = (did, s2)" by (rule prod.exhaust)
  note dq = dead_letter_queue_ok [OF ok1 q1 False l2]
  obtain lk s3 where l3: "try_lock s2 = (lk, s3)" by (rule prod.exhaust)
  note fd3 = frameD [OF try_lock_frame [OF l3]]
  have ev1: "evolves s s1" by (rule frame_evolves [OF f1])
  have ev2: "evolves s s2" by (rule evolves_trans [OF ev1 dq(2)])
  have ev3: "evolves s s3" by (rule evolves_trans [OF ev2 frame_evolves [OF try_lock_frame [OF l3]]])
  have k2: "get_queue s x = Some y \<Longrightarrow> get_queue s2 x = Some y" for x y using dq(3) fd1 by simp
  have k3: "get_queue s x = Some y \<Longrightarrow> get_queue s3 x = Some y" for x y using k2 fd3 by simp
  have ok3: "store_ok s3" using dq(1) fd3 by simp
  note e' = e [unfolded dead_letter_locked_def, simplified q m option.case False if_False l1 l2 l3 prod.case]
  consider (fail) "rc = -1" "s' = s1 \<or> s' = s2 \<or> s' = s3"
    | (go) d dlq where "did = Some d" "d \<notin> set locks" "get_queue s3 d = Some dlq"
        "(case dead_letter_copy s3 q dlq m clear of (rc, s4) \<Rightarrow>
                if rc < 0 then (-1, s4)
                else (1, (upd_queue s4 qid (\<lambda>q. remove_message q r))
                           \<lparr>s_deadlettered := s_deadlettered s4 + 1\<rparr>)) = (rc, s')"
    using e' by (auto split: if_splits option.splits)
  then show ?thesis
  proof cases
    case fail
    then show ?thesis
      using ok1 dq(1) ok3 ev1 ev2 ev3 k2 k3 fd1 False by (auto simp: keeps_def)
  next
    case go
    have dn: "q_name dlq = q_dlq_name q" "q_lock_id dlq = d"
      using dq(4) [OF go(1)] go(3) fd3 get_queue_id [OF go(3)] by auto
    have gd: "get_queue s3 (q_lock_id dlq) = Some dlq" using go(3) dn by simp
    have "q_name dlq \<noteq> q_name q" using get_queue_in [OF ok q] dn by (simp add: queue_in_def)
    then have dx: "d \<noteq> qid" using go(3) k3 [OF q] by auto
    obtain rc4 s4 where c: "dead_letter_copy s3 q dlq m clear = (rc4, s4)" by (rule prod.exhaust)
    note cp = dead_letter_copy_ok [OF ok3 gd c]
    have ev4: "evolves s s4" by (rule evolves_trans [OF ev3 cp(2)])
    have go': "(if rc4 < 0 then (-1, s4)
                else (1, (upd_queue s4 qid (\<lambda>q. remove_message q r))
                           \<lparr>s_deadlettered := s_deadlettered s4 + 1\<rparr>)) = (rc, s')"
      using go(4) c by simp
    show ?thesis
    proof (cases "rc4 < 0")
      case True
      then show ?thesis using go' cp(1,4) ev4 k3 False by (auto simp: keeps_def)
    next
      case nf: False
      have rest: "get_queue s4 x = get_queue s3 x" if "x \<noteq> d" for x
        using cp(3) that dn(2) by (simp add: untouched_def)
      have ok': "store_ok (upd_queue s4 qid (\<lambda>q. remove_message q r))"
        by (rule upd_remove_ok [OF cp(1)])
      have ev': "evolves s (upd_queue s4 qid (\<lambda>q. remove_message q r))"
        by (rule evolves_trans [OF ev4]) (rule upd_evolves, simp)
      let ?n = "message_create (s_next_ref s3) (s_next_id s3) (if clear then 0 else m_expires m) (m_data m)"
      have s': "get_queue s' x = (if x = qid then map_option (\<lambda>q. remove_message q r) (get_queue s4 x) else get_queue s4 x)" for x
        using go' nf by (auto simp: get_upd_queue)
      have old: "get_queue s d = Some dlq \<or> get_queue s d = None \<and> q_msgs dlq = []"
      proof (cases "get_queue s d")
        case None
        have "find_queue s1 (q_dlq_name q) = None"
        proof (rule ccontr)
          assume "find_queue s1 (q_dlq_name q) \<noteq> None"
          then obtain z where z: "find_queue s1 (q_dlq_name q) = Some z" by auto
          then have "did = Some (q_lock_id z)" using l2 by (simp add: dead_letter_queue_def)
          then show False using go(1) find_queue_get [OF ok1 z] None fd1 by simp
        qed
        then have "q_msgs dlq = []"
          using l2 go(1,3) fd3 by (auto simp: dead_letter_queue_def create_queue_def get_queue_def new_queue_def
              split: prod.splits if_splits)
        then show ?thesis using None by simp
      next
        case (Some y)
        then show ?thesis using k3 [OF Some] go(3) by simp
      qed
      have "routed s qid r m clear locks s'"
        unfolding routed_def
      proof (intro exI conjI)
        show "get_queue s' qid = Some (remove_message q r)" using s' [of qid] rest [of qid] dx k3 [OF q] by simp
        show "get_queue s' d = Some (message_link dlq ?n)" using s' [of d] dx cp(5) nf dn(2) by simp
        show "\<forall>x y. x \<noteq> qid \<and> x \<noteq> d \<and> get_queue s x = Some y \<longrightarrow> get_queue s' x = Some y" using s' rest k3 by simp
        show "\<not> queue_full dlq" using cp(5) nf by simp
      qed (use q dx go(2) old dn in \<open>simp_all add: message_create_def\<close>)
      then show ?thesis using go' nf ok' ev' False by auto
    qed
  qed
qed

subsection \<open>The retention walk\<close>

definition expired :: "u64 \<Rightarrow> message \<Rightarrow> bool" where
  "expired now m \<longleftrightarrow> m_expires m \<noteq> 0 \<and> m_expires m \<le> now"

definition lapsed :: "u64 \<Rightarrow> message \<Rightarrow> message" where
  "lapsed mono_now m = (if m_state m = MESSAGE_INFLIGHT \<and> m_sched m \<le> mono_now
     then m\<lparr>m_state := MESSAGE_READY, m_sched := 0, m_owner := 0, m_tag := 0\<rparr> else m)"

lemma lapsed_simps [simp]:
  "m_ref (lapsed t m) = m_ref m" "m_expires (lapsed t m) = m_expires m" "m_id (lapsed t m) = m_id m"
  "m_data (lapsed t m) = m_data m" "m_deliveries (lapsed t m) = m_deliveries m"
  by (simp_all add: lapsed_def)

text \<open>
  What a walk over the messages with references in \<open>R\<close> leaves: the expired ones are gone
  except those in \<open>K\<close>, whose routing failed, and the lapsed leases are returned.
\<close>

definition reaped :: "nat set \<Rightarrow> nat set \<Rightarrow> u64 \<Rightarrow> u64 \<Rightarrow> message list \<Rightarrow> message list" where
  "reaped R K now mono_now ms =
     map (\<lambda>m. if m_ref m \<in> R \<and> \<not> expired now m then lapsed mono_now m else m)
       (filter (\<lambda>m. m_ref m \<in> R \<and> expired now m \<longrightarrow> m_ref m \<in> K) ms)"

lemma reaped_empty [simp]: "reaped {} K now mono_now ms = ms"
  by (simp add: reaped_def)

lemma expired_lapsed [simp]: "expired now (lapsed t m) = expired now m"
  by (simp add: expired_def)

lemma reaped_step:
  assumes "r \<notin> R" and "r \<notin> K'"
  shows "reaped R K' now t (reaped {r} K now t ms) = reaped (insert r R) (K' \<union> (K \<inter> {r})) now t ms"
  using assms unfolding reaped_def filter_map filter_filter map_map o_def
  by (intro map_cong filter_cong) (auto split: if_splits)

lemma reap_message_ok:
  assumes ok: "store_ok s" and q: "get_queue s qid = Some q"
    and e: "reap_message s qid r now t held locks nd = (nd', s')"
  obtains q' K where "store_ok s'" "evolves s s'" "keeps (set locks - {qid}) s s'" "get_queue s' qid = Some q'"
    "static q' = static q" "q_msgs q' = reaped {r} K now t (q_msgs q)" "K \<subseteq> {r}" "q_dlq_name q = [] \<longrightarrow> K = {}"
    "nd' \<le> nd" "\<forall>m \<in> set (q_msgs q'). m_ref m = r \<and> m_state m = MESSAGE_INFLIGHT \<and> m_expires m = 0 \<longrightarrow> nd' \<le> m_sched m"
proof (cases "find_msg q r")
  case None
  then have "s' = s" "nd' = nd" using e q by (simp_all add: reap_message_def get_msg_def)
  moreover have "reaped {r} {} now t (q_msgs q) = q_msgs q"
    unfolding reaped_def using None find_msg_None [of q r]
    by (subst filter_True) (auto simp: image_iff intro!: map_idI)
  moreover have "r \<notin> m_ref ` set (q_msgs q)" using None find_msg_None [of q r] by simp
  ultimately show ?thesis using that [of q "{}"] ok q by force
next
  case (Some m)
  have qo: "queue_ok q" by (rule get_queue_ok [OF ok q])
  then have d: "distinct (refs (q_msgs q))" by (simp add: queue_ok_def)
  have m: "m \<in> set (q_msgs q)" "m_ref m = r" using find_msg_Some [OF Some] by simp_all
  have only: "x = m" if "x \<in> set (q_msgs q)" "m_ref x = r" for x
    using refs_inj [OF d] that m by metis
  show ?thesis
  proof (cases "expired now m")
    case True
    obtain rc s1 where dl: "dead_letter_locked s qid r True held locks = (rc, s1)" by (rule prod.exhaust)
    note cases3 = dead_letter_ok [OF ok q Some dl]
    have s': "nd' = nd" "s' = (if rc = 0 then upd_queue s1 qid (\<lambda>q. remove_message q r) else s1)"
      using e q Some True dl by (auto simp: reap_message_def get_msg_def expired_def)
    have gone: "reaped {r} {} now t (q_msgs q) = q_msgs (remove_message q r)"
    proof -
      have "filter (\<lambda>m. m_ref m \<in> {r} \<and> expired now m \<longrightarrow> m_ref m \<in> {}) (q_msgs q) = filter (\<lambda>x. m_ref x \<noteq> r) (q_msgs q)"
        using only True by (intro filter_cong) auto
      then show ?thesis unfolding reaped_def by (simp, intro map_idI) auto
    qed
    have stay: "reaped {r} {r} now t (q_msgs q) = q_msgs q"
      unfolding reaped_def using only True by (auto intro!: map_idI)
    from cases3 show ?thesis
    proof (elim conjE disjE)
      assume z: "rc = 0" "s1 = s" "q_dlq_name q = []"
      then have s'': "s' = upd_queue s qid (\<lambda>q. remove_message q r)" using s' by simp
      show ?thesis
      proof (rule that [of "remove_message q r" "{}"])
        show "store_ok s'" unfolding s''
          by (rule upd_remove_ok [OF ok])
        show "evolves s s'" unfolding s'' by (rule upd_evolves) simp
        show "keeps (set locks - {qid}) s s'" unfolding s'' by (rule upd_keeps) simp_all
        show "get_queue s' qid = Some (remove_message q r)" unfolding s'' using q by (simp add: get_upd_queue)
      qed (use gone s' in simp_all)
    next
      assume z: "rc = -1" "keeps UNIV s s1" "q_dlq_name q \<noteq> []" "store_ok s1" "evolves s s1"
      show ?thesis
      proof (rule that [of q "{r}"])
        show "keeps (set locks - {qid}) s s'" using z s' keeps_mono [of UNIV] by simp
        show "get_queue s' qid = Some q" using z s' q by (simp add: keeps_def)
        show "\<forall>m \<in> set (q_msgs q). m_ref m = r \<and> m_state m = MESSAGE_INFLIGHT \<and> m_expires m = 0 \<longrightarrow> nd' \<le> m_sched m"
          using only True by (auto simp: expired_def)
      qed (use z s' stay in simp_all)
    next
      assume z: "rc = 1" "routed s qid r m True locks s1" "q_dlq_name q \<noteq> []" "store_ok s1" "evolves s s1"
      show ?thesis
      proof (rule that [of "remove_message q r" "{}"])
        show "keeps (set locks - {qid}) s s'" using z s' by (auto simp: keeps_def routed_def)
        show "get_queue s' qid = Some (remove_message q r)" using z s' q by (auto simp: routed_def)
      qed (use z s' gone in simp_all)
    qed
  next
    case False
    show ?thesis
    proof (cases "m_state m = MESSAGE_INFLIGHT \<and> m_sched m \<le> t")
      case True
      then have s': "nd' = nd" "s' = (upd_queue s qid (\<lambda>q. requeue_message q r 0))\<lparr>s_redeliveries := s_redeliveries s + 1\<rparr>"
        using e q Some False by (auto simp: reap_message_def get_msg_def expired_def)
      have ms: "q_msgs (requeue_message q r 0) = map (readied r 0) (q_msgs q)"
        using requeue_msgs [OF qo Some] True by simp
      have eq: "reaped {r} {} now t (q_msgs q) = q_msgs (requeue_message q r 0)"
        unfolding reaped_def ms using only True False
        by (subst filter_True) (auto simp: readied_def lapsed_def)
      show ?thesis
      proof (rule that [of "requeue_message q r 0" "{}"])
        show "store_ok s'" unfolding s' ok_fields
          by (rule upd_requeue_ok(1) [OF ok q Some]) (simp add: True)
        show "evolves s s'" unfolding s' evolves_fields by (rule upd_evolves) simp
        show "keeps (set locks - {qid}) s s'" unfolding s' keeps_fields by (rule upd_keeps) simp_all
        show "get_queue s' qid = Some (requeue_message q r 0)" unfolding s' using q by (simp add: get_upd_queue)
        show "\<forall>m \<in> set (q_msgs (requeue_message q r 0)). m_ref m = r \<and> m_state m = MESSAGE_INFLIGHT \<and> m_expires m = 0 \<longrightarrow> nd' \<le> m_sched m"
        proof -
          have "m_ref x = r \<Longrightarrow> m_state (readied r 0 x) = MESSAGE_READY" for x by (simp add: readied_def)
          then show ?thesis unfolding ms by simp (metis msg_state.distinct(1))
        qed
      qed (use eq s' in simp_all)
    next
      case F2: False
      have s': "s' = s" "nd' = (if m_state m = MESSAGE_INFLIGHT \<and> m_sched m < nd then m_sched m else nd)"
        using e q Some False F2
        by (simp_all add: reap_message_def get_msg_def expired_def split: if_splits)
      have "lapsed t m = m" unfolding lapsed_def by (rule if_not_P [OF F2])
      then have "lapsed t x = x" if "x \<in> set (q_msgs q)" "m_ref x = r" for x using only [OF that] by simp
      then have eq: "reaped {r} {} now t (q_msgs q) = q_msgs q"
        unfolding reaped_def using only False
        by (subst filter_True) (force, intro map_idI, force)
      show ?thesis
      proof (rule that [of q "{}"])
        show "\<forall>m \<in> set (q_msgs q). m_ref m = r \<and> m_state m = MESSAGE_INFLIGHT \<and> m_expires m = 0 \<longrightarrow> nd' \<le> m_sched m"
          using only s' F2 by (metis linorder_not_less order_refl)
        show "nd' \<le> nd" using s' by (simp add: less_imp_le)
      qed (use eq s' ok q in simp_all)
    qed
  qed
qed

lemma reap_loop_ok:
  assumes "store_ok s" and "get_queue s qid = Some q" and "distinct rs"
    and "reap_loop rs s qid now t held locks nd = (nd', s')"
  shows "\<exists>q' K. store_ok s' \<and> evolves s s' \<and> keeps (set locks - {qid}) s s' \<and> get_queue s' qid = Some q' \<and>
    static q' = static q \<and> q_msgs q' = reaped (set rs) K now t (q_msgs q) \<and> K \<subseteq> set rs \<and>
    (q_dlq_name q = [] \<longrightarrow> K = {}) \<and> nd' \<le> nd \<and>
    (\<forall>m \<in> set (q_msgs q'). m_ref m \<in> set rs \<and> m_state m = MESSAGE_INFLIGHT \<and> m_expires m = 0 \<longrightarrow> nd' \<le> m_sched m)"
  using assms
proof (induction rs arbitrary: s q nd)
  case Nil
  then show ?case by (intro exI [of _ q] exI [of _ "{}"]) simp
next
  case (Cons r rs)
  obtain nd1 s1 where e1: "reap_message s qid r now t held locks nd = (nd1, s1)" by (rule prod.exhaust)
  have e2: "reap_loop rs s1 qid now t held locks nd1 = (nd', s')" using Cons.prems(4) e1 by simp
  obtain q1 K1 where A: "store_ok s1" "evolves s s1" "keeps (set locks - {qid}) s s1" "get_queue s1 qid = Some q1"
    "static q1 = static q" "q_msgs q1 = reaped {r} K1 now t (q_msgs q)" "K1 \<subseteq> {r}" "q_dlq_name q = [] \<longrightarrow> K1 = {}"
    "nd1 \<le> nd" "\<forall>m \<in> set (q_msgs q1). m_ref m = r \<and> m_state m = MESSAGE_INFLIGHT \<and> m_expires m = 0 \<longrightarrow> nd1 \<le> m_sched m"
    by (rule reap_message_ok [OF Cons.prems(1,2) e1])
  have dr: "distinct rs" "r \<notin> set rs" using Cons.prems(3) by simp_all
  from Cons.IH [OF A(1,4) dr(1) e2] obtain q' K where
    B: "store_ok s'" "evolves s1 s'" "keeps (set locks - {qid}) s1 s'" "get_queue s' qid = Some q'"
    "static q' = static q1" "q_msgs q' = reaped (set rs) K now t (q_msgs q1)" "K \<subseteq> set rs"
    "q_dlq_name q1 = [] \<longrightarrow> K = {}" "nd' \<le> nd1"
    "\<forall>m \<in> set (q_msgs q'). m_ref m \<in> set rs \<and> m_state m = MESSAGE_INFLIGHT \<and> m_expires m = 0 \<longrightarrow> nd' \<le> m_sched m"
    by blast
  have rK: "r \<notin> K" using B(7) dr(2) by blast
  have ms: "q_msgs q' = reaped (set (r # rs)) (K \<union> K1) now t (q_msgs q)"
    unfolding B(6) A(6) reaped_step [OF dr(2) rK] using A(7) by (simp add: Int_absorb2)
  have nd: "nd' \<le> m_sched m" if "m \<in> set (q_msgs q')" "m_ref m = r" "m_state m = MESSAGE_INFLIGHT" "m_expires m = 0" for m
  proof -
    have "m \<in> set (q_msgs q1)" using that(1,2) dr(2) unfolding B(6) reaped_def by (auto split: if_splits)
    then have "nd1 \<le> m_sched m" using A(10) that by simp
    then show ?thesis using B(9) by (rule order_trans [rotated])
  qed
  show ?case
  proof (intro exI conjI)
    show "evolves s s'" using evolves_trans A(2) B(2) by blast
    show "keeps (set locks - {qid}) s s'" using keeps_trans A(3) B(3) by blast
    show "nd' \<le> nd" using B(9) A(9) by (rule order_trans)
    show "K \<union> K1 \<subseteq> set (r # rs)" using B(7) A(7) by auto
    show "q_dlq_name q = [] \<longrightarrow> K \<union> K1 = {}" using B(8) A(8) A(5) by (simp add: static_eq)
    show "\<forall>m \<in> set (q_msgs q'). m_ref m \<in> set (r # rs) \<and> m_state m = MESSAGE_INFLIGHT \<and> m_expires m = 0 \<longrightarrow> nd' \<le> m_sched m"
      using B(10) nd by simp blast
    show "static q' = static q" using A(5) B(5) by simp
  qed (fact B(1) B(4) ms)+
qed

text \<open>
  The walk and its shortcut: whether the messages are visited or not, the list afterwards is
  the one a full walk leaves.
\<close>

lemma reap_skip:
  assumes "queue_ok q" and "q_ttl_count q = 0" and "q_inflight q = 0 \<or> t < q_earliest_visibility q"
  shows "reaped (set (refs (q_msgs q))) {} now t (q_msgs q) = q_msgs q"
proof -
  have ttl: "m_expires m = 0" if "m \<in> set (q_msgs q)" for m
    using assms(1,2) that by (auto simp: queue_ok_def ttl_total_def filter_empty_conv)
  have nl: "\<not> (m_state m = MESSAGE_INFLIGHT \<and> m_sched m \<le> t)" if "m \<in> set (q_msgs q)" for m
    using assms(3)
  proof
    assume "q_inflight q = 0"
    then show ?thesis using assms(1) that by (auto simp: queue_ok_def inflight_total_def filter_empty_conv)
  next
    assume "t < q_earliest_visibility q"
    moreover have "m_state m = MESSAGE_INFLIGHT \<Longrightarrow> q_earliest_visibility q \<le> m_sched m"
      using assms(1) that ttl by (simp add: queue_ok_def leases_ok_def)
    ultimately show ?thesis by (metis leD order_trans)
  qed
  have "lapsed t m = m" if "m \<in> set (q_msgs q)" for m
    unfolding lapsed_def by (rule if_not_P [OF nl [OF that]])
  then show ?thesis
    unfolding reaped_def using ttl
    by (subst filter_True) (simp add: expired_def, intro map_idI, simp)
qed

lemma reap_queue_ok:
  assumes ok: "store_ok s" and q: "get_queue s qid = Some q"
  obtains q' K where "store_ok (reap_queue_locked s qid now t held locks)"
    "evolves s (reap_queue_locked s qid now t held locks)"
    "keeps (set locks - {qid}) s (reap_queue_locked s qid now t held locks)"
    "get_queue (reap_queue_locked s qid now t held locks) qid = Some q'" "static q' = static q"
    "q_msgs q' = reaped (set (refs (q_msgs q))) K now t (q_msgs q)" "K \<subseteq> set (refs (q_msgs q))"
    "q_dlq_name q = [] \<longrightarrow> K = {}"
proof (cases "q_ttl_count q = 0 \<and> (q_inflight q = 0 \<or> t < q_earliest_visibility q)")
  case True
  then have s': "reap_queue_locked s qid now t held locks = s" using q by (simp add: reap_queue_locked_def)
  show ?thesis
    by (rule that [of q "{}"]) (use s' ok q True reap_skip [OF get_queue_ok [OF ok q]] in simp_all)
next
  case False
  obtain nd s1 where l: "reap_loop (refs (q_msgs q)) s qid now t held locks (- 1) = (nd, s1)" by (rule prod.exhaust)
  have s': "reap_queue_locked s qid now t held locks = upd_queue s1 qid (\<lambda>q. q\<lparr>q_earliest_visibility := nd\<rparr>)"
    unfolding reap_queue_locked_def q option.case if_not_P [OF False] l prod.case by (rule refl)
  have d: "distinct (refs (q_msgs q))" using get_queue_ok [OF ok q] by (simp add: queue_ok_def)
  from reap_loop_ok [OF ok q d l] obtain q1 K where
    B: "store_ok s1" "evolves s s1" "keeps (set locks - {qid}) s s1" "get_queue s1 qid = Some q1"
    "static q1 = static q" "q_msgs q1 = reaped (set (refs (q_msgs q))) K now t (q_msgs q)" "K \<subseteq> set (refs (q_msgs q))"
    "q_dlq_name q = [] \<longrightarrow> K = {}"
    "\<forall>m \<in> set (q_msgs q1). m_ref m \<in> set (refs (q_msgs q)) \<and> m_state m = MESSAGE_INFLIGHT \<and> m_expires m = 0 \<longrightarrow> nd \<le> m_sched m"
    by blast
  have "m_ref m \<in> set (refs (q_msgs q))" if "m \<in> set (q_msgs q1)" for m
    using that unfolding B(6) reaped_def by auto
  then have nd: "nd \<le> m_sched m" if "m \<in> set (q_msgs q1)" "m_state m = MESSAGE_INFLIGHT" "m_expires m = 0" for m
    using B(9) that by blast
  show ?thesis
  proof (rule that [of "q1\<lparr>q_earliest_visibility := nd\<rparr>" K])
    let ?s = "reap_queue_locked s qid now t held locks"
    show "store_ok ?s" unfolding s'
      by (rule store_ok_upd_static [OF B(1)])
        (simp, use B(4) in \<open>simp add: queue_in_visibility [OF get_queue_in [OF B(1)]] nd\<close>)
    show "evolves s ?s" unfolding s'
      by (rule evolves_trans [OF B(2)]) (rule upd_evolves, simp)
    show "keeps (set locks - {qid}) s ?s" unfolding s'
      by (rule keeps_trans [OF B(3)]) (rule upd_keeps, simp_all)
    show "get_queue ?s qid = Some (q1\<lparr>q_earliest_visibility := nd\<rparr>)" unfolding s'
      using B(4) by (simp add: get_upd_queue)
  qed (use B in simp_all)
qed

end
