(* ===== verification/Engine_Inv.thy ===== *)
theory Engine_Inv
  imports Store_Inv
begin

text \<open>
  The operations on single messages keep the invariant of the store, and what each of them
  does to the queue it works on.  The scan of the consumer is described in two ways: for a
  queue with a delivery limit by what it keeps, and for a queue without one exactly, as the
  first message that can be delivered.
\<close>

subsection \<open>Publication\<close>

lemma publish_one_ok:
  assumes ok: "store_ok s" and q: "get_queue s qid = Some q"
    and e: "publish_one_locked s qid data ttl now t = (rc, mid, s')"
  obtains q1 K where "store_ok s'" "evolves s s'" "static q1 = static q"
    "q_msgs q1 = reaped (set (refs (q_msgs q))) K now t (q_msgs q)" "q_dlq_name q = [] \<longrightarrow> K = {}" "queue_ok q1"
    "rc = 0 \<and> \<not> queue_full q1 \<and>
       (\<exists>ref. get_queue s' qid = Some (message_link q1 (message_create ref mid (if ttl \<noteq> 0 then now + ttl else 0) data))) \<or>
     rc = -1 \<and> get_queue s' qid = Some q1"
proof -
  let ?s1 = "reap_queue_locked s qid now t False [qid]"
  obtain q1 K where r: "store_ok ?s1" "evolves s ?s1" "keeps (set [qid] - {qid}) s ?s1" "get_queue ?s1 qid = Some q1"
    "static q1 = static q" "q_msgs q1 = reaped (set (refs (q_msgs q))) K now t (q_msgs q)"
    "K \<subseteq> set (refs (q_msgs q))" "q_dlq_name q = [] \<longrightarrow> K = {}"
    by (rule reap_queue_ok [OF ok q])
  note qo = get_queue_ok [OF r(1,4)]
  note e1 = e [unfolded publish_one_locked_def Let_def r(4) option.case]
  show ?thesis
  proof (cases "queue_full q1")
    case True
    then have "rc = -1" "s' = ?s1" using e1 by simp_all
    then show ?thesis by (intro that [of q1 K]) (use r qo in simp_all)
  next
    case False
    let ?s2 = "?s1\<lparr>s_next_id := s_next_id ?s1 + 1\<rparr>" and ?ex = "if ttl \<noteq> 0 then now + ttl else 0"
    obtain rc3 s3 where l: "(if q_durable q1 then append_log ?s2 LOG_PUBLISH q1 (s_next_id ?s1) ?ex data else (0, ?s2)) = (rc3, s3)"
      by (rule prod.exhaust)
    have f: "frame ?s1 s3" using frame_cond(1) [OF l] by (simp add: frame_def)
    note fd = frameD [OF f]
    note e2 = e1 [unfolded if_not_P [OF False] l prod.case]
    have ev3: "evolves s s3" by (rule evolves_trans [OF r(2) frame_evolves [OF f]])
    show ?thesis
    proof (cases "rc3 < 0")
      case True
      then have "rc = -1" "s' = s3" using e2 by simp_all
      then show ?thesis by (intro that [of q1 K]) (use r fd qo ev3 in simp_all)
    next
      case nf: False
      obtain rc4 s4 where a: "append_message s3 qid (s_next_id ?s1) ?ex data = (rc4, s4)" by (rule prod.exhaust)
      have ok3: "store_ok s3" using r(1) fd by simp
      note am = append_message_ok [OF ok3 a]
      have s': "s' = s4" "rc4 < 0 \<and> rc = -1 \<or> \<not> rc4 < 0 \<and> rc = 0 \<and> mid = s_next_id ?s1"
        using e2 [unfolded if_not_P [OF nf] a prod.case] by (simp_all split: if_splits)
      have ev: "evolves s s'" using evolves_trans [OF ev3 am(2)] s' by simp
      from am(3) show ?thesis
      proof
        assume z: "rc4 = 0"
        then have "get_queue s' qid = Some (message_link q1 (message_create (s_next_ref s3) mid ?ex data))"
          using s' am(5) [of qid] fd r(4) by simp
        then have "\<exists>ref. get_queue s' qid = Some (message_link q1 (message_create ref mid ?ex data))" by (rule exI)
        moreover have "rc = 0" using s' z by simp
        ultimately show ?thesis
          by (intro that [of q1 K]) (use am(1) ev r(5,6,8) qo False s'(1) in simp_all)
      next
        assume z: "rc4 = -1"
        then have "get_queue s' qid = Some q1" using s' am(4) fd r(4) by simp
        then show ?thesis by (intro that [of q1 K]) (use am(1) ev r(5,6,8) qo s' z in simp_all)
      qed
    qed
  qed
qed

lemma queue_publish_ok:
  assumes ok: "store_ok s" and e: "queue_publish s name data ttl now t = (rc, mid, s')"
  shows "store_ok s'" "evolves s s'"
proof -
  have "store_ok s' \<and> evolves s s'"
  proof (cases "\<not> name_valid name \<or> length data > QUEUE_MESSAGE_MAX \<or> find_queue s name = None")
    case True
    then have "s' = s" using e by (auto simp: queue_publish_def split: if_splits option.splits)
    then show ?thesis using ok by simp
  next
    case False
    then obtain q where q: "find_queue s name = Some q" by auto
    obtain rc1 mid1 s1 where p: "publish_one_locked s (q_lock_id q) data ttl now t = (rc1, mid1, s1)"
      by (rule prod_cases3)
    from publish_one_ok [OF ok find_queue_get [OF ok q] p] have p1: "store_ok s1" "evolves s s1" by blast+
    have "s' = s1 \<or> (\<exists>rc. finish_durable s1 (w_seq (s_wal s)) = (rc, s'))"
      using e False q p by (auto simp: queue_publish_def Let_def split: if_splits prod.splits)
    then show ?thesis
    proof
      assume "\<exists>rc. finish_durable s1 (w_seq (s_wal s)) = (rc, s')"
      then have f: "frame s1 s'" using finish_durable_frame by blast
      then show ?thesis using p1 frameD(1) [OF f] evolves_trans [OF p1(2) frame_evolves [OF f]] by simp
    qed (use p1 in simp)
  qed
  then show "store_ok s'" "evolves s s'" by simp_all
qed

subsection \<open>Declaration, purge, deletion\<close>

lemma queue_declare_ex_ok:
  assumes ok: "store_ok s" and e: "queue_declare_ex s name dur mx dlq md = (rc, s')"
  shows "store_ok s'" "evolves s s'"
proof -
  have "store_ok s' \<and> evolves s s'"
  proof (cases "s' = s")
    case True
    then show ?thesis using ok by simp
  next
    case False
    then have nn: "name \<noteq> []" "dlq \<noteq> name" and fn: "find_queue s name = None"
      using e by (auto simp: queue_declare_ex_def name_valid_def split: if_splits option.splits)
    obtain rc1 s1 where l: "(if dur then append_log s LOG_DECLARE (temp_queue s name dur) 0 mx (declare_ext dlq md)
        else (0, s)) = (rc1, s1)" by (rule prod.exhaust)
    note f = frame_cond(1) [OF l]
    obtain qid s2 where c: "create_queue s1 name dur mx dlq md = (qid, s2)" by (rule prod.exhaust)
    have ok1: "store_ok s1" "find_queue s1 name = None" using ok fn frameD [OF f] by simp_all
    have step: "store_ok s2 \<and> evolves s s2"
    proof (cases qid)
      case None
      then show ?thesis using create_queue_None c ok1 frameD frame_evolves [OF f] frame_evolves evolves_trans by metis
    next
      case (Some d)
      note cs = create_queue_Some [OF ok1(1) c [unfolded Some] nn ok1(2)]
      show ?thesis using cs(1) evolves_trans [OF frame_evolves [OF f] cs(2)] by simp
    qed
    have "s' = s1 \<or> s' = s2 \<or> (\<exists>rc. finish_durable s2 (w_seq (s_wal s)) = (rc, s'))"
      using e False fn l c by (auto simp: queue_declare_ex_def Let_def split: if_splits)
    then show ?thesis
    proof (elim disjE exE)
      fix rc' assume "finish_durable s2 (w_seq (s_wal s)) = (rc', s')"
      then have f2: "frame s2 s'" by (rule finish_durable_frame)
      then show ?thesis using step frameD(1) [OF f2] evolves_trans [OF conjunct2 [OF step] frame_evolves [OF f2]] by simp
    qed (use ok1 step frame_evolves [OF f] in simp_all)
  qed
  then show "store_ok s'" "evolves s s'" by simp_all
qed

lemma queue_purge_checked_ok:
  assumes ok: "store_ok s" and e: "queue_purge_checked s name erev cond = (rc, n, s')"
  shows "store_ok s'" "evolves s s'"
proof -
  have "store_ok s' \<and> evolves s s'"
  proof (cases "s' = s")
    case False
    then obtain q where q: "find_queue s name = Some q"
      using e by (auto simp: queue_purge_checked_def split: if_splits option.splits)
    obtain rc1 s1 where l: "(if q_durable q then append_log s LOG_PURGE q (word_of_nat (q_depth q)) 0 [] else (0, s)) = (rc1, s1)"
      by (rule prod.exhaust)
    note f = frame_cond(1) [OF l]
    have ok1: "store_ok s1" using ok frameD [OF f] by simp
    let ?s2 = "upd_queue s1 (q_lock_id q) (\<lambda>q. snd (purge_queue_locked q))"
    have step: "store_ok ?s2" "evolves s ?s2"
      by (rule store_ok_upd_static [OF ok1])
        (simp_all add: get_queue_in [OF ok1] queue_in_purge evolves_trans [OF frame_evolves [OF f] upd_evolves])
    have "s' = s1 \<or> (\<exists>rc b. (if q_durable q then finish_durable ?s2 b else (0, ?s2)) = (rc, s'))"
      using e False q l by (auto simp: queue_purge_checked_def Let_def split: if_splits prod.splits)
    then show ?thesis
    proof (elim disjE exE)
      fix rc' b assume "(if q_durable q then finish_durable ?s2 b else (0, ?s2)) = (rc', s')"
      then have f2: "frame ?s2 s'" by (rule frame_cond(2))
      then show ?thesis using step frameD(1) [OF f2] evolves_trans [OF step(2) frame_evolves [OF f2]] by simp
    qed (use ok1 frame_evolves [OF f] in simp)
  qed (use ok in simp)
  then show "store_ok s'" "evolves s s'" by simp_all
qed

lemma queue_delete_ok:
  assumes ok: "store_ok s" and e: "queue_delete_if_revision s name erev = (rc, n, s')"
  shows "store_ok s'" "s_next_delivery_tag s' = s_next_delivery_tag s" "s_env s' = s_env s"
proof -
  have "store_ok s' \<and> s_next_delivery_tag s' = s_next_delivery_tag s \<and> s_env s' = s_env s"
  proof (cases "s' = s")
    case False
    then obtain q where q: "find_queue s name = Some q"
      using e by (auto simp: queue_delete_if_revision_def split: if_splits option.splits)
    obtain rc1 s1 where l: "(if q_durable q then append_log s LOG_DELETE q (word_of_nat (q_depth q)) 0 [] else (0, s)) = (rc1, s1)"
      by (rule prod.exhaust)
    note f = frame_cond(1) [OF l]
    have ok1: "store_ok s1" using ok frameD [OF f] by simp
    let ?s2 = "upd_queue s1 (q_lock_id q) tombstone"
    have step: "store_ok ?s2"
      by (rule store_ok_upd [OF ok1]) (simp_all add: get_queue_in [OF ok1] queue_in_tombstone)
    have "s' = s1 \<or> (\<exists>rc b. (if q_durable q then finish_durable ?s2 b else (0, ?s2)) = (rc, s'))"
      using e False q l by (auto simp: queue_delete_if_revision_def Let_def split: if_splits prod.splits)
    then show ?thesis
    proof (elim disjE exE)
      fix rc' b assume "(if q_durable q then finish_durable ?s2 b else (0, ?s2)) = (rc', s')"
      then have f2: "frame ?s2 s'" by (rule frame_cond(2))
      then show ?thesis using step frameD [OF f2] frameD [OF f] by simp
    qed (use ok1 frameD [OF f] in simp)
  qed (use ok in simp)
  then show "store_ok s'" "s_next_delivery_tag s' = s_next_delivery_tag s" "s_env s' = s_env s" by simp_all
qed

subsection \<open>The scan of the consumer\<close>

definition deliverable :: "u64 \<Rightarrow> message \<Rightarrow> bool" where
  "deliverable now m \<longleftrightarrow> m_state m = MESSAGE_READY \<and> m_sched m \<le> now"

lemma find_msg_split:
  assumes "distinct (refs (q_msgs q))" and "q_msgs q = pre @ m # post"
  shows "find_msg q (m_ref m) = Some m"
  by (rule find_msg_mem [OF assms(1)]) (simp add: assms(2))

text \<open>Without a delivery limit the scan changes nothing and finds the first deliverable message.\<close>

lemma consume_scan_plain:
  assumes q: "get_queue s qid = Some q" "distinct (refs (q_msgs q))" and nl: "\<And>m. \<not> over_limit q m"
    and ms: "q_msgs q = pre @ ms"
  shows "consume_scan (refs ms) s qid now delayed =
    (map_option m_ref (find (deliverable now) ms),
     (case delayed of Some d \<Rightarrow> Some d
      | None \<Rightarrow> map_option m_ref (find (\<lambda>m. m_state m = MESSAGE_READY) (takeWhile (\<lambda>m. \<not> deliverable now m) ms))), s)"
  using ms
proof (induction ms arbitrary: pre delayed)
  case Nil
  then show ?case by (cases delayed) simp_all
next
  case (Cons m ms)
  have fm: "find_msg q (m_ref m) = Some m" by (rule find_msg_split [OF q(2) Cons.prems])
  note IH = Cons.IH [of "pre @ [m]"]
  show ?case
    using IH Cons.prems by (cases delayed) (simp_all add: q(1) fm nl deliverable_def)
qed

text \<open>In general it keeps the invariant, and what it returns is in the queue it leaves.\<close>

lemma consume_scan_ok:
  assumes "store_ok s" and "get_queue s qid = Some q" and "distinct rs"
    and "\<And>d. delayed = Some d \<Longrightarrow> d \<in> set (refs (q_msgs q)) \<and> d \<notin> set rs"
    and "consume_scan rs s qid now delayed = (found, delayed', s')"
  shows "\<exists>q'. store_ok s' \<and> evolves s s' \<and> get_queue s' qid = Some q' \<and> static q' = static q \<and>
     (\<forall>d. delayed' = Some d \<longrightarrow> d \<in> set (refs (q_msgs q'))) \<and>
     (\<forall>r. found = Some r \<longrightarrow> (\<exists>m. find_msg q' r = Some m \<and> deliverable now m))"
  using assms
proof (induction rs arbitrary: s q delayed)
  case Nil
  then show ?case by auto
next
  case (Cons r rs)
  note p = Cons.prems
  have dr: "distinct rs" "r \<notin> set rs" using p(3) by simp_all
  show ?case
  proof (cases "find_msg q r")
    case None
    then show ?thesis using p(2,4,5) by (intro Cons.IH [OF p(1,2) dr(1), of delayed]) simp_all
  next
    case (Some m)
    have m: "m \<in> set (q_msgs q)" "m_ref m = r" using find_msg_Some [OF Some] by simp_all
    show ?thesis
    proof (cases "deliverable now m")
      case False
      let ?d = "if m_state m = MESSAGE_READY \<and> delayed = None then Some r else delayed"
      have e: "consume_scan rs s qid now ?d = (found, delayed', s')"
        using p(2,5) Some False by (auto simp: deliverable_def split: if_splits)
      have "d \<in> set (refs (q_msgs q)) \<and> d \<notin> set rs" if "?d = Some d" for d
        using that p(4) [of d] m dr(2) by (auto split: if_splits)
      then show ?thesis by (rule Cons.IH [OF p(1,2) dr(1) _ e])
    next
      case True
      show ?thesis
      proof (cases "over_limit q m")
        case False
        then have "found = Some r" "delayed' = delayed" "s' = s"
          using p(2,5) Some True by (simp_all add: deliverable_def)
        then show ?thesis using p(1,2,4) Some True by auto
      next
        case ol: True
        obtain rc s1 where d: "dead_letter_locked s qid r False False [qid] = (rc, s1)" by (rule prod.exhaust)
        note e = p(5) [unfolded consume_scan.simps p(2) option.case Some d prod.case]
        from dead_letter_ok [OF p(1,2) Some d] show ?thesis
        proof (elim conjE disjE)
          assume "rc = 0" "s1 = s"
          then have "found = Some r" "delayed' = delayed" "s' = s"
            using e True ol by (simp_all add: deliverable_def)
          then show ?thesis using p(1,2,4) Some True by auto
        next
          assume z: "rc = -1" "keeps UNIV s s1" "store_ok s1" "evolves s s1"
          have g: "get_queue s1 qid = Some q" using z(2) p(2) by (simp add: keeps_def)
          have e': "consume_scan rs s1 qid now delayed = (found, delayed', s')"
            using e True ol z(1) by (simp add: deliverable_def)
          have "\<exists>q'. store_ok s' \<and> evolves s1 s' \<and> get_queue s' qid = Some q' \<and> static q' = static q \<and>
             (\<forall>d. delayed' = Some d \<longrightarrow> d \<in> set (refs (q_msgs q'))) \<and>
             (\<forall>r. found = Some r \<longrightarrow> (\<exists>m. find_msg q' r = Some m \<and> deliverable now m))"
            by (rule Cons.IH [OF z(3) g dr(1) _ e']) (use p(4) in simp)
          then show ?thesis using evolves_trans [OF z(4)] by blast
        next
          assume z: "rc = 1" "routed s qid r m False [qid] s1" "store_ok s1" "evolves s s1"
          have g: "get_queue s1 qid = Some (remove_message q r)" using z(2) p(2) by (auto simp: routed_def)
          have e': "consume_scan rs s1 qid now delayed = (found, delayed', s')"
            using e True ol z(1) by (simp add: deliverable_def)
          have "\<exists>q'. store_ok s' \<and> evolves s1 s' \<and> get_queue s' qid = Some q' \<and> static q' = static (remove_message q r) \<and>
             (\<forall>d. delayed' = Some d \<longrightarrow> d \<in> set (refs (q_msgs q'))) \<and>
             (\<forall>r. found = Some r \<longrightarrow> (\<exists>m. find_msg q' r = Some m \<and> deliverable now m))"
            by (rule Cons.IH [OF z(3) g dr(1) _ e']) (use p(4) in force)
          then show ?thesis using evolves_trans [OF z(4)] by (auto simp: static_ops)
        qed
      qed
    qed
  qed
qed

subsection \<open>Delivery\<close>

lemma all_before_split:
  "\<forall>x \<in> set xs. P x \<Longrightarrow> all_before P (xs @ m # ys) (Some (m_ref m))"
  by (induction xs) auto

lemma all_before_None: "all_before P ms None \<longleftrightarrow> (\<forall>m \<in> set ms. P m)"
  by (induction ms) auto

lemma all_before_prefix:
  "\<forall>x \<in> set xs. P x \<Longrightarrow> all_before P ys h \<Longrightarrow> all_before P (xs @ ys) h"
  by (induction xs) auto

lemma advance_all_before: "all_before (\<lambda>m. m_state m = MESSAGE_INFLIGHT) ms (ready_hint_advance ms)"
  unfolding ready_hint_advance_def by (induction ms) auto

lemma advance_mem: "ready_hint_advance ms = Some r \<Longrightarrow> r \<in> set (refs ms)"
  unfolding ready_hint_advance_def by (auto dest!: find_Some_mem)

lemma msgs_from_split:
  assumes "distinct (refs (pre @ m # post))" and "q_msgs q = pre @ m # post"
  shows "msgs_from q (Some (m_ref m)) = m # post"
proof -
  have "m_ref x \<noteq> m_ref m" if "x \<in> set pre" for x using assms(1) imageI [OF that, of m_ref] by auto
  then show ?thesis by (simp add: msgs_from_def assms(2) dropWhile_append1 dropWhile_append2)
qed

text \<open>The hint that a delivery leaves.\<close>

definition next_hint :: "queue \<Rightarrow> nat \<Rightarrow> nat option \<Rightarrow> nat option" where
  "next_hint q r delayed = (case delayed of Some d \<Rightarrow> Some d
     | None \<Rightarrow> ready_hint_advance (tl (msgs_from q (Some r))))"

lemma next_hint_mem:
  assumes "\<And>d. delayed = Some d \<Longrightarrow> d \<in> set (refs (q_msgs q))" and "next_hint q r delayed = Some h"
  shows "h \<in> set (refs (q_msgs q))"
proof (cases delayed)
  case None
  then have "h \<in> set (refs (tl (dropWhile (\<lambda>m. m_ref m \<noteq> r) (q_msgs q))))"
    using assms(2) advance_mem [of _ h] by (simp add: next_hint_def msgs_from_def)
  moreover have "x \<in> set (tl ys) \<Longrightarrow> x \<in> set ys" for x :: message and ys by (cases ys) auto
  ultimately show ?thesis by (auto dest: set_dropWhileD)
qed (use assms in \<open>simp add: next_hint_def\<close>)

lemma queue_in_upd_hint:
  assumes "queue_in s q" and "\<And>r. h = Some r \<Longrightarrow> r \<in> set (refs (q_msgs q))"
    and "q_max_deliveries q = 0 \<Longrightarrow> all_before (\<lambda>m. m_state m = MESSAGE_INFLIGHT) (q_msgs q) h"
  shows "queue_in s (q\<lparr>q_ready_hint := h\<rparr>)"
  by (rule queue_in_hint) (use assms in auto)

lemma consume_deliver_ok:
  assumes ok: "store_ok s" and q: "get_queue s qid = Some q" and m: "find_msg q r = Some m" "m_state m = MESSAGE_READY"
    and dl: "\<And>d. delayed = Some d \<Longrightarrow> d \<in> set (refs (q_msgs q))"
    and tight: "\<And>dl tg. q_max_deliveries q = 0 \<Longrightarrow>
      all_before (\<lambda>m. m_state m = MESSAGE_INFLIGHT) (map (delivered q r dl ow tg) (q_msgs q))
        (next_hint (deliver_message True q r dl ow tg) r delayed)"
    and nt: "s_next_delivery_tag s + 1 \<noteq> 0"
    and e: "consume_deliver s qid r delayed vis ow t = (rc, out, s')"
  shows "store_ok s'" "grows s s'" "rc = 1 \<Longrightarrow>
      out = \<lparr>o_id = m_id m, o_tag = s_next_delivery_tag s, o_owner = ow, o_data = m_data m, o_count = m_deliveries m + 1,
             o_redelivered = (m_deliveries m + 1 > 1), o_deadline = t + (if vis \<noteq> 0 then vis else 30000)\<rparr> \<and>
      s_next_delivery_tag s' = s_next_delivery_tag s + 1 \<and>
      (\<exists>q'. get_queue s' qid = Some q' \<and>
        q' = (deliver_message True q r (o_deadline out) ow (o_tag out))
          \<lparr>q_ready_hint := next_hint (deliver_message True q r (o_deadline out) ow (o_tag out)) r delayed\<rparr>)"
    "unat (s_next_delivery_tag s') \<le> Suc (unat (s_next_delivery_tag s))" "rc = 1 \<or> rc = -1"
proof -
  let ?t = "s_next_delivery_tag s" and ?dl = "t + (if vis \<noteq> 0 then vis else 30000)"
  let ?q1 = "deliver_message True q r ?dl ow ?t"
  let ?f = "\<lambda>q. (deliver_message True q r ?dl ow ?t)\<lparr>q_ready_hint := next_hint ?q1 r delayed\<rparr>"
  obtain a1 s1 where a: "alloc s = (a1, s1)" by (rule prod.exhaust)
  note f1 = alloc_frame [OF a]
  obtain rc2 s2 where l: "(if q_durable q then append_log s1 LOG_DELIVER q (m_id m) 0 [] else (0, s1)) = (rc2, s2)"
    by (rule prod.exhaust)
  have f2: "frame s s2" by (rule frame_trans [OF f1 frame_cond(1) [OF l]])
  note fd = frameD [OF f2]
  have t0: "?t \<noteq> 0" using ok by (auto simp: store_ok_def)
  let ?s3 = "s2\<lparr>s_next_delivery_tag := ?t + 1\<rparr>"
  have nt2: "next_tag s2 = (?t, ?s3)" using t0 fd by (simp add: next_tag_def Let_def)
  obtain mem s4 where ai: "alloc_index ?s3 = (mem, s4)" by (rule prod.exhaust)
  have mem: "mem = True" using ai ok fd by (auto simp: alloc_index_def store_ok_def)
  have f4: "frame ?s3 s4" by (rule alloc_index_frame [OF ai])
  note fd4 = frameD [OF f4]
  let ?s5 = "upd_queue s4 qid ?f"
  obtain wrc s6 where w: "(if q_durable q then wait_store ?s5 else (0, ?s5)) = (wrc, s6)" by (rule prod.exhaust)
  note f6 = frame_cond(3) [OF w]
  let ?out = "\<lparr>o_id = m_id m, o_tag = ?t, o_owner = ow, o_data = m_data m, o_count = m_deliveries m + 1,
             o_redelivered = (m_deliveries m + 1 > 1), o_deadline = ?dl\<rparr>"
  have res: "(if \<not> a1 then (-1, no_message, s1) else if rc2 < 0 then (-1, no_message, s2)
      else if wrc < 0 then (-1, ?out, s6) else (1, ?out, s6)) = (rc, out, s')"
    using e unfolding consume_deliver_def q m option.case a l prod.case nt2 ai next_hint_def [symmetric] Let_def mem w
    by assumption
  have lt: "?t < ?t + 1" using nt by (simp add: word_less_nat_alt unatSuc add.commute [of _ 1])
  have ok2: "store_ok s2" using ok fd by simp
  have ok4: "store_ok s4"
  proof -
    have "queue_in ?s3 x" if "x \<in> set (s_queues s2)" for x
      by (rule queue_in_ahead [of s2]) (use ok2 that lt fd in \<open>simp_all add: store_ok_def ahead_def less_imp_le\<close>)
    moreover have "0 < ?t + 1" using lt by (rule le_less_trans [rotated]) simp
    ultimately have "store_ok ?s3" using ok2 by (simp add: store_ok_def)
    then show ?thesis using fd4 by simp
  qed
  have q2: "queue_in s2 q" using get_queue_in [OF ok q] fd by simp
  have d1: "queue_in ?s3 ?q1"
    using queue_in_deliver [OF q2 m, of ?dl ow] t0 nt fd by simp
  have "queue_in s4 (?f q)"
  proof (rule queue_in_upd_hint)
    show "queue_in s4 ?q1" using d1 fd4 by simp
    show "x \<in> set (refs (q_msgs ?q1))" if "next_hint ?q1 r delayed = Some x" for x
      using next_hint_mem [of delayed ?q1 r x] that dl by simp
    show "all_before (\<lambda>m. m_state m = MESSAGE_INFLIGHT) (q_msgs ?q1) (next_hint ?q1 r delayed)" if "q_max_deliveries ?q1 = 0"
      using tight that by simp
  qed
  moreover have q4: "get_queue s4 qid = Some q" using q fd fd4 by simp
  ultimately have ok5: "store_ok ?s5"
    by (intro store_ok_upd_static [OF ok4]) (simp_all add: static_eq)
  have ok6: "store_ok s6" using ok5 frameD [OF f6] by simp
  have ev2: "grows s s2" by (rule evolves_grows [OF frame_evolves [OF f2]])
  have "grows s2 ?s3" using lt fd by (simp add: grows_def ahead_def less_imp_le)
  then have "grows s ?s3" using ev2 grows_trans by blast
  then have "grows s s4" using evolves_grows [OF frame_evolves [OF f4]] grows_trans by blast
  then have "grows s ?s5" by (rule grows_trans) (intro evolves_grows upd_evolves, simp add: static_eq)
  then have ev6: "grows s s6" using evolves_grows [OF frame_evolves [OF f6]] grows_trans by blast
  have t6: "s_next_delivery_tag s6 = ?t + 1" using frameD [OF f6] fd4 by simp
  have g6: "get_queue s6 qid = Some (?f q)" using frameD [OF f6] q4 by (simp add: get_upd_queue)
  have u: "unat (?t + 1) = Suc (unat ?t)" using nt by (simp add: unatSuc add.commute [of _ 1])
  consider "s' = s1" "rc = -1" | "s' = s2" "rc = -1" | "s' = s6" "rc = -1" | "s' = s6" "rc = 1" "out = ?out"
    using res by (auto split: if_splits)
  then have "store_ok s' \<and> grows s s' \<and> unat (s_next_delivery_tag s') \<le> Suc (unat ?t) \<and> (rc = 1 \<or> rc = -1) \<and>
      (rc = 1 \<longrightarrow> out = ?out \<and> s' = s6)"
    by cases (use ok frameD [OF f1] evolves_grows [OF frame_evolves [OF f1]] ok2 ev2 fd ok6 ev6 t6 u in simp_all)
  then show "store_ok s'" "grows s s'" "unat (s_next_delivery_tag s') \<le> Suc (unat ?t)" "rc = 1 \<or> rc = -1"
    "rc = 1 \<Longrightarrow> out = ?out \<and> s_next_delivery_tag s' = ?t + 1 \<and>
      (\<exists>q'. get_queue s' qid = Some q' \<and>
        q' = (deliver_message True q r (o_deadline out) ow (o_tag out))
          \<lparr>q_ready_hint := next_hint (deliver_message True q r (o_deadline out) ow (o_tag out)) r delayed\<rparr>)"
    using t6 g6 by simp_all
qed

text \<open>The hint after a delivery from a queue without a limit: everything before it is in flight.\<close>

lemma hint_split:
  assumes "queue_ok q" and "hint_tight q" and "q_ready_hint q = Some h"
  obtains pre where "q_msgs q = pre @ msgs_from q (Some h)" "\<forall>m \<in> set pre. m_state m = MESSAGE_INFLIGHT"
    "msgs_from q (Some h) \<noteq> []"
proof -
  let ?P = "\<lambda>m. m_ref m \<noteq> h"
  have h: "h \<in> set (refs (q_msgs q))" using assms(1,3) by (simp add: queue_ok_def)
  have "all_before (\<lambda>m. m_state m = MESSAGE_INFLIGHT) ms (Some h) \<Longrightarrow> m \<in> set (takeWhile ?P ms) \<Longrightarrow>
      m_state m = MESSAGE_INFLIGHT" for m ms
    by (induction ms) (auto split: if_splits)
  then have "\<forall>m \<in> set (takeWhile ?P (q_msgs q)). m_state m = MESSAGE_INFLIGHT"
    using assms(2,3) by (simp add: hint_tight_def)
  moreover have "dropWhile ?P (q_msgs q) \<noteq> []" using h by (auto simp: dropWhile_eq_Nil_conv)
  ultimately show ?thesis using that [of "takeWhile ?P (q_msgs q)"] by (simp add: msgs_from_def)
qed

lemma find_first_split:
  assumes "find P xs = Some x"
  obtains as bs where "xs = as @ x # bs" "\<forall>y \<in> set as. \<not> P y" "P x" "takeWhile (\<lambda>y. \<not> P y) xs = as"
proof -
  from assms obtain i where i: "i < length xs" "P (xs ! i)" "x = xs ! i" "\<forall>j < i. \<not> P (xs ! j)"
    by (auto simp: find_Some_iff)
  let ?as = "take i xs" and ?bs = "drop (Suc i) xs"
  have xs: "xs = ?as @ x # ?bs" using i(1,3) by (simp add: id_take_nth_drop [symmetric])
  have as: "\<forall>y \<in> set ?as. \<not> P y" using i(1,4) by (auto simp: in_set_conv_nth)
  have "takeWhile (\<lambda>y. \<not> P y) (?as @ x # ?bs) = ?as" using as i(2,3) by (simp add: takeWhile_tail)
  then show ?thesis using that [OF xs as] i(2,3) xs by metis
qed

lemma delivered_other: "m_ref m \<noteq> r \<Longrightarrow> m_state (delivered q r dl ow tg m) = m_state m"
  by (simp add: delivered_def leased_def)

lemma delivered_this: "m_ref m = r \<Longrightarrow> m_state (delivered q r dl ow tg m) = MESSAGE_INFLIGHT"
  by (simp add: delivered_def leased_def)

lemma delivered_keeps: "m_state m = MESSAGE_INFLIGHT \<Longrightarrow> m_state (delivered q r dl ow tg m) = MESSAGE_INFLIGHT"
  by (simp add: delivered_def leased_def)

lemma consume_hint_tight:
  assumes d: "distinct (refs (q_msgs q))" and ms: "q_msgs q = pre @ ms" "\<forall>m \<in> set pre. m_state m = MESSAGE_INFLIGHT"
    and f: "find (deliverable now) ms = Some m"
    and dly: "delayed = map_option m_ref (find (\<lambda>m. m_state m = MESSAGE_READY) (takeWhile (\<lambda>m. \<not> deliverable now m) ms))"
  shows "all_before (\<lambda>m. m_state m = MESSAGE_INFLIGHT) (map (delivered q (m_ref m) dl ow tg) (q_msgs q))
        (next_hint (deliver_message True q (m_ref m) dl ow tg) (m_ref m) delayed)"
proof -
  let ?f = "delivered q (m_ref m) dl ow tg" and ?I = "\<lambda>m. m_state m = MESSAGE_INFLIGHT"
  obtain as bs where sp: "ms = as @ m # bs" "takeWhile (\<lambda>y. \<not> deliverable now y) ms = as" "deliverable now m"
    using find_first_split [OF f] by metis
  show ?thesis
  proof (cases "find (\<lambda>m. m_state m = MESSAGE_READY) as")
    case (Some x)
    then obtain cs ds where c: "as = cs @ x # ds" "\<forall>y \<in> set cs. \<not> m_state y = MESSAGE_READY"
      using find_first_split [OF Some] by metis
    have I: "?I y" if "y \<in> set cs" for y using c(2) that by (cases "m_state y") auto
    have "all_before ?I (map ?f (pre @ cs) @ ?f x # map ?f (ds @ m # bs)) (Some (m_ref (?f x)))"
      by (rule all_before_split) (use ms(2) I in \<open>auto simp: delivered_keeps\<close>)
    then show ?thesis using Some sp(2) dly by (simp add: next_hint_def ms(1) sp(1) c(1))
  next
    case None
    have I: "?I y" if "y \<in> set as" for y using None that by (cases "m_state y") (auto simp: find_None_iff)
    let ?q = "deliver_message True q (m_ref m) dl ow tg"
    have dm: "q_msgs ?q = map ?f (pre @ as) @ ?f m # map ?f bs" by (simp add: ms(1) sp(1))
    have "distinct (refs (map ?f (pre @ as) @ ?f m # map ?f bs))"
      using d by (simp add: ms(1) sp(1) o_def)
    then have "msgs_from ?q (Some (m_ref (?f m))) = ?f m # map ?f bs"
      by (rule msgs_from_split [OF _ dm])
    then have nh: "next_hint ?q (m_ref m) delayed = ready_hint_advance (map ?f bs)"
      using None sp(2) dly by (simp add: next_hint_def)
    have "all_before ?I (map ?f (pre @ as @ [m]) @ map ?f bs) (ready_hint_advance (map ?f bs))"
      by (rule all_before_prefix) (use ms(2) I in \<open>auto simp: delivered_keeps delivered_this advance_all_before\<close>)
    then show ?thesis using nh by (simp add: ms(1) sp(1))
  qed
qed

lemma consume_ok:
  assumes ok: "store_ok s" and nt: "s_next_delivery_tag s + 1 \<noteq> 0"
    and e: "queue_consume_for_owner s name vis ow now t t2 = (rc, out, s')"
  shows "store_ok s'" "grows s s'" "unat (s_next_delivery_tag s') \<le> Suc (unat (s_next_delivery_tag s))"
proof -
  have "store_ok s' \<and> grows s s' \<and> unat (s_next_delivery_tag s') \<le> Suc (unat (s_next_delivery_tag s))"
  proof (cases "find_queue s name")
    case None
    then show ?thesis using e ok evolves_grows by (simp add: queue_consume_for_owner_def)
  next
    case (Some q0)
    let ?id = "q_lock_id q0" let ?s1 = "reap_queue_locked s ?id now t False [?id]"
    note g0 = find_queue_get [OF ok Some]
    obtain q K where r: "store_ok ?s1" "evolves s ?s1" "keeps (set [?id] - {?id}) s ?s1" "get_queue ?s1 ?id = Some q"
      "static q = static q0" "q_msgs q = reaped (set (refs (q_msgs q0))) K now t (q_msgs q0)"
      "K \<subseteq> set (refs (q_msgs q0))" "q_dlq_name q0 = [] \<longrightarrow> K = {}"
      by (rule reap_queue_ok [OF ok g0])
    note e1 = e [unfolded queue_consume_for_owner_def Some option.case Let_def r(4)]
    have tg: "s_next_delivery_tag ?s1 = s_next_delivery_tag s" by (rule evolves_tag [OF r(2)])
    show ?thesis
    proof (cases "q_ready_hint q")
      case None
      then have "s' = ?s1" using e1 by simp
      then show ?thesis using r(1) evolves_grows [OF r(2)] tg by simp
    next
      case (Some h)
      obtain found dly s2 where sc: "consume_scan (refs (msgs_from q (Some h))) ?s1 ?id now None = (found, dly, s2)"
        by (rule prod_cases3)
      have qo: "queue_ok q" by (rule get_queue_ok [OF r(1,4)])
      then have d: "distinct (refs (q_msgs q))" by (simp add: queue_ok_def)
      then have dd: "distinct (refs (msgs_from q (Some h)))"
        by (auto simp: msgs_from_def distinct_map intro: inj_on_subset dest: set_dropWhileD)
      from consume_scan_ok [OF r(1,4) dd _ sc] obtain q2 where s2: "store_ok s2" "evolves ?s1 s2" "get_queue s2 ?id = Some q2"
        "static q2 = static q" "\<forall>d. dly = Some d \<longrightarrow> d \<in> set (refs (q_msgs q2))"
        "\<forall>r. found = Some r \<longrightarrow> (\<exists>m. find_msg q2 r = Some m \<and> deliverable now m)" by auto
      have tg2: "s_next_delivery_tag s2 = s_next_delivery_tag s" using evolves_tag [OF s2(2)] tg by simp
      have gr: "grows s s2" by (rule evolves_grows [OF evolves_trans [OF r(2) s2(2)]])
      have e2: "(case found of None \<Rightarrow> (0, no_message, s2) | Some r \<Rightarrow> consume_deliver s2 ?id r dly vis ow t2) = (rc, out, s')"
        using e1 Some sc by simp
      show ?thesis
      proof (cases found)
        case None
        then show ?thesis using e2 s2(1) gr tg2 by simp
      next
        case fr: (Some rr)
        then obtain m where m: "find_msg q2 rr = Some m" "deliverable now m" using s2(6) by auto
        have tight: "all_before (\<lambda>m. m_state m = MESSAGE_INFLIGHT) (map (delivered q2 rr dl ow tg) (q_msgs q2))
            (next_hint (deliver_message True q2 rr dl ow tg) rr dly)" if z: "q_max_deliveries q2 = 0" for dl tg
        proof -
          have mz: "q_max_deliveries q = 0" using z s2(4) by (simp add: static_eq)
          then have ht: "hint_tight q" using get_queue_in [OF r(1,4)] by (simp add: queue_in_def)
          obtain pre where pre: "q_msgs q = pre @ msgs_from q (Some h)" "\<forall>m \<in> set pre. m_state m = MESSAGE_INFLIGHT"
            by (rule hint_split [OF qo ht Some])
          have nl: "\<not> over_limit q x" for x using mz by (simp add: over_limit_def)
          note pl = consume_scan_plain [OF r(4) d nl pre(1), of now None]
          have eqs: "found = map_option m_ref (find (deliverable now) (msgs_from q (Some h)))" "s2 = ?s1"
            "dly = map_option m_ref (find (\<lambda>m. m_state m = MESSAGE_READY) (takeWhile (\<lambda>m. \<not> deliverable now m) (msgs_from q (Some h))))"
            using pl sc by simp_all
          have q2: "q2 = q" using s2(3) r(4) eqs(2) by simp
          obtain x where x: "find (deliverable now) (msgs_from q (Some h)) = Some x" "rr = m_ref x"
            using fr eqs(1) by auto
          show ?thesis unfolding q2 x(2) by (rule consume_hint_tight [OF d pre x(1) eqs(3)])
        qed
        have cd: "consume_deliver s2 ?id rr dly vis ow t2 = (rc, out, s')" using e2 fr by simp
        have st: "m_state m = MESSAGE_READY" using m(2) by (simp add: deliverable_def)
        have nt2: "s_next_delivery_tag s2 + 1 \<noteq> 0" using nt tg2 by simp
        have dmem: "\<And>d. dly = Some d \<Longrightarrow> d \<in> set (refs (q_msgs q2))" using s2(5) by blast
        note c = consume_deliver_ok [OF s2(1,3) m(1) st dmem tight nt2 cd]
        show ?thesis using c(1,4) grows_trans [OF gr c(2)] tg2 by simp
      qed
    qed
  qed
  then show "store_ok s'" "grows s s'" "unat (s_next_delivery_tag s') \<le> Suc (unat (s_next_delivery_tag s))" by simp_all
qed

subsection \<open>Acknowledgement and rejection\<close>

lemma owned_delivery_Some:
  assumes "queue_ok q" and "owned_delivery q tag ow = Some m"
  shows "m \<in> set (q_msgs q)" "m_tag m = tag" "m_state m = MESSAGE_INFLIGHT" "m_owner m = ow" "tag \<noteq> 0"
    "find_msg q (m_ref m) = Some m"
proof -
  have tf: "tag_find q tag = Some m" "m_state m = MESSAGE_INFLIGHT" "m_owner m = ow"
    using assms(2) by (auto simp: owned_delivery_def split: option.splits if_splits)
  then show t0: "tag \<noteq> 0" by (auto simp: tag_find_def)
  then have "find (\<lambda>m. m_tag m = tag) (q_msgs q) = Some m" using ti.lookup_linear [OF assms(1)] tf(1) by simp
  then show m: "m \<in> set (q_msgs q)" "m_tag m = tag" by (auto dest: find_Some_mem)
  show "m_state m = MESSAGE_INFLIGHT" "m_owner m = ow" by fact+
  show "find_msg q (m_ref m) = Some m" using find_msg_mem m(1) assms(1) by (simp add: queue_ok_def)
qed

lemma queue_ack_cases:
  assumes ok: "store_ok s" and e: "queue_ack_for_owner s name tag ow = (rc, s')"
  shows "(rc \<noteq> 1 \<and> frame s s') \<or>
    (\<exists>q m. find_queue s name = Some q \<and> owned_delivery q tag ow = Some m \<and> rc = 1 \<and> store_ok s' \<and> evolves s s' \<and>
       get_queue s' (q_lock_id q) = Some (remove_message q (m_ref m)) \<and> keeps (- {q_lock_id q}) s s')"
proof (cases "tag = 0 \<or> find_queue s name = None")
  case True
  then show ?thesis using e by (auto simp: queue_ack_for_owner_def split: if_splits)
next
  case False
  then obtain q where q: "find_queue s name = Some q" by auto
  show ?thesis
  proof (cases "owned_delivery q tag ow")
    case None
    then show ?thesis using e False q by (simp add: queue_ack_for_owner_def)
  next
    case (Some m)
    obtain rc1 s1 where l: "log_synced s LOG_ACK q (m_id m) 0 = (rc1, s1)" by (rule prod.exhaust)
    note f = log_synced_frame [OF l]
    have e1: "(if rc1 < 0 then (-1, s1) else (1, upd_queue s1 (q_lock_id q) (\<lambda>q. remove_message q (m_ref m)))) = (rc, s')"
      using e False q Some l by (simp add: queue_ack_for_owner_def)
    show ?thesis
    proof (cases "rc1 < 0")
      case True
      then show ?thesis using e1 f by auto
    next
      case nf: False
      have s': "rc = 1" "s' = upd_queue s1 (q_lock_id q) (\<lambda>q. remove_message q (m_ref m))" using e1 nf by simp_all
      have ok1: "store_ok s1" using ok frameD [OF f] by simp
      have g: "get_queue s1 (q_lock_id q) = Some q" using find_queue_get [OF ok q] frameD [OF f] by simp
      have "store_ok s'" unfolding s' by (rule upd_remove_ok [OF ok1])
      moreover have "evolves s s'" unfolding s' by (rule evolves_trans [OF frame_evolves [OF f] upd_evolves]) simp
      moreover have "keeps (- {q_lock_id q}) s s'" unfolding s'
        by (rule keeps_trans [OF frame_keeps [OF f] upd_keeps]) simp_all
      ultimately show ?thesis using q Some s' g by (simp add: get_upd_queue)
    qed
  qed
qed

lemma queue_ack_ok:
  assumes ok: "store_ok s" and e: "queue_ack_for_owner s name tag ow = (rc, s')"
  shows "store_ok s'" "evolves s s'"
  using queue_ack_cases [OF assms] ok frameD(1) [of s s'] frame_evolves [of s s'] by auto

lemma queue_nack_ok:
  assumes ok: "store_ok s" and e: "queue_nack_for_owner_delay s name tag ow requeue delay now = (rc, s')"
  shows "store_ok s'" "evolves s s'"
proof -
  have "store_ok s' \<and> evolves s s'"
  proof (cases "s' = s")
    case False
    then obtain q m where q: "find_queue s name = Some q" and m: "owned_delivery q tag ow = Some m"
      using e by (auto simp: queue_nack_for_owner_delay_def split: if_splits option.splits)
    note g = find_queue_get [OF ok q]
    note om = owned_delivery_Some [OF get_queue_ok [OF ok g] m]
    note e1 = e [unfolded queue_nack_for_owner_delay_def if_not_P [OF om(5)] q m option.case Let_def]
    let ?nb = "if delay \<noteq> 0 then now + delay else 0"
    consider (dl) "\<not> requeue \<and> q_dlq_name q \<noteq> []" | (ack) "\<not> requeue" "q_dlq_name q = []" | (rq) requeue by blast
    then show ?thesis
    proof cases
      case dl
      then have "dead_letter_locked s (q_lock_id q) (m_ref m) False False [q_lock_id q] = (rc, s')" using e1 by simp
      then show ?thesis using dead_letter_ok [OF ok g om(6)] by blast
    next
      case ack
      obtain rc1 s1 where l: "log_synced s LOG_ACK q (m_id m) 0 = (rc1, s1)" by (rule prod.exhaust)
      note f = log_synced_frame [OF l]
      have "s' = s1 \<or> s' = upd_queue s1 (q_lock_id q) (\<lambda>q. remove_message q (m_ref m))"
        using e1 ack l by (auto split: if_splits)
      then show ?thesis
        using ok frameD(1) [OF f] frame_evolves [OF f] upd_remove_ok [of s1]
          evolves_trans [OF frame_evolves [OF f] upd_evolves [of "\<lambda>q. remove_message q (m_ref m)"]] by auto
    next
      case rq
      obtain rc1 s1 where l: "log_synced s LOG_REQUEUE q (m_id m) ?nb = (rc1, s1)" by (rule prod.exhaust)
      note f = log_synced_frame [OF l]
      have ok1: "store_ok s1" and g1: "get_queue s1 (q_lock_id q) = Some q" using ok g frameD [OF f] by simp_all
      have "s' = s1 \<or> s' = (upd_queue s1 (q_lock_id q) (\<lambda>q. requeue_charged q (m_ref m) ?nb))
                          \<lparr>s_redeliveries := s_redeliveries s1 + 1\<rparr>"
        using e1 rq l by (auto split: if_splits)
      then show ?thesis
        using ok1 frame_evolves [OF f] upd_requeue_ok(2) [OF ok1 g1 om(6,3), of ?nb]
          evolves_trans [OF frame_evolves [OF f] upd_evolves [of "\<lambda>q. requeue_charged q (m_ref m) ?nb"]]
        by (elim disjE) simp_all
    qed
  qed (use ok in simp)
  then show "store_ok s'" "evolves s s'" by simp_all
qed

subsection \<open>Owners and consumers\<close>

lemma requeue_owned_ok:
  assumes "store_ok s"
  shows "store_ok (requeue_owned rs s qid ow) \<and> evolves s (requeue_owned rs s qid ow)"
  using assms
proof (induction rs arbitrary: s)
  case (Cons r rs)
  show ?case
  proof (cases "get_msg s qid r")
    case None
    then show ?thesis using Cons by simp
  next
    case (Some m)
    then obtain q where q: "get_queue s qid = Some q" "find_msg q r = Some m"
      by (auto simp: get_msg_def split: option.splits)
    show ?thesis
    proof (cases "m_state m = MESSAGE_INFLIGHT \<and> m_owner m = ow")
      case True
      let ?s = "(upd_queue s qid (\<lambda>q. requeue_message q r 0))\<lparr>s_redeliveries := s_redeliveries s + 1\<rparr>"
      have "store_ok ?s" "evolves s ?s"
        using upd_requeue_ok(1) [OF Cons.prems q] True upd_evolves [of "\<lambda>q. requeue_message q r 0" s qid] by simp_all
      then show ?thesis using Cons.IH [of ?s] Some True evolves_trans by fastforce
    next
      case False
      then show ?thesis using Cons.IH [OF Cons.prems] Some by (simp only: requeue_owned.simps option.case if_False)
    qed
  qed
qed simp

lemma requeue_owner_queues_ok:
  "store_ok s \<Longrightarrow> store_ok (requeue_owner_queues ids s ow) \<and> evolves s (requeue_owner_queues ids s ow)"
proof (induction ids arbitrary: s)
  case (Cons i ids)
  show ?case
  proof (cases "get_queue s i")
    case (Some q)
    then show ?thesis
      using requeue_owned_ok [OF Cons.prems, of "refs (q_msgs q)" i ow] Cons.IH evolves_trans by fastforce
  qed (use Cons in simp)
qed simp

lemma queue_requeue_owner_ok: "store_ok s \<Longrightarrow> store_ok (queue_requeue_owner s ow) \<and> evolves s (queue_requeue_owner s ow)"
  by (simp add: queue_requeue_owner_def requeue_owner_queues_ok)

lemma queue_consumer_register_ok:
  assumes "store_ok s" and "queue_consumer_register s name = (res, s')"
  shows "store_ok s'" "evolves s s'"
proof -
  have "frame s s'"
    using assms(2) unfolding queue_consumer_register_def
    by (auto simp: Let_def split: if_splits option.splits prod.splits
        dest!: alloc_frame append_store_frame intro: frame_trans)
  then show "store_ok s'" "evolves s s'" using assms(1) frameD(1) frame_evolves by simp_all
qed

lemma queue_consumer_unregister_ok:
  assumes ok: "store_ok s" and e: "queue_consumer_unregister s name = (rc, s')"
  shows "store_ok s'" "evolves s s'"
proof -
  have "store_ok s' \<and> evolves s s'"
  proof (cases "s' = s")
    case False
    then obtain c where c: "find_consumer s name = Some c"
      using e by (auto simp: queue_consumer_unregister_def split: if_splits option.splits)
    obtain rc1 s1 where l: "(if w_fd (s_wal s) then append_store s (consumer_record LOG_CONSUMER_DEL name 0) True False
              else (0, s)) = (rc1, s1)" by (rule prod.exhaust)
    note f = frame_cond(4) [OF l]
    let ?s2 = "s1\<lparr>s_consumers := drop_consumer name (s_consumers s1),
                        s_meta_live := s_meta_live s1 - word_of_nat (LOG_HEADER + length name)\<rparr>"
    have f2: "frame s ?s2" using f by simp
    have "s' = s1 \<or> s' = queue_requeue_owner ?s2 (c_owner c)"
      using e False c l by (auto simp: queue_consumer_unregister_def Let_def split: if_splits)
    moreover have "store_ok ?s2" using ok frameD(1) [OF f2] by simp
    ultimately show ?thesis
      using ok frameD(1) [OF f] frame_evolves [OF f] queue_requeue_owner_ok [of ?s2 "c_owner c"]
        evolves_trans [OF frame_evolves [OF f2]] by metis
  qed (use ok in simp)
  then show "store_ok s'" "evolves s s'" by simp_all
qed

lemma reap_all_ok: "store_ok s \<Longrightarrow> store_ok (reap_all ids s now t) \<and> evolves s (reap_all ids s now t)"
proof (induction ids arbitrary: s)
  case (Cons i ids)
  show ?case
  proof (cases "get_queue s i")
    case (Some q)
    let ?s = "reap_queue_locked s i now t True [i]"
    have "store_ok ?s" "evolves s ?s" using reap_queue_ok [OF Cons.prems Some] by metis+
    then show ?thesis using Some Cons evolves_trans by fastforce
  qed (use Cons in simp)
qed simp

lemma queue_reap_ok: "store_ok s \<Longrightarrow> store_ok (queue_reap s now t) \<and> evolves s (queue_reap s now t)"
  by (simp add: queue_reap_def reap_all_ok)

end
