(* ===== verification/Calls_Inv.thy ===== *)
theory Calls_Inv
  imports Engine_Inv Queue_Batch Queue_Checkpoint Job_Commit
begin

text \<open>
  The operations on several messages or several queues keep the invariant of the store:
  fan-out publication, batches, transactions and the job commit.  For the fan-out and the
  batches the lemmas also say what happens to every queue involved.
\<close>

subsection \<open>Fan-out publication\<close>

lemma check_capacity_ok:
  assumes "store_ok s" and "check_capacity ts s locks now mono_at i = (ok, s')" and "set ts \<subseteq> set locks" and "distinct ts"
  shows "store_ok s' \<and> evolves s s' \<and> keeps (set locks - set ts) s s' \<and>
    (\<forall>t \<in> set ts. \<forall>q. get_queue s t = Some q \<longrightarrow>
       (\<exists>q' K j. get_queue s' t = Some q' \<and> static q' = static q \<and> (ok \<longrightarrow> \<not> queue_full q') \<and>
          (q_msgs q' = q_msgs q \<or> q_msgs q' = reaped (set (refs (q_msgs q))) K now (mono_at j) (q_msgs q)) \<and>
          (ok \<longrightarrow> q_msgs q' = reaped (set (refs (q_msgs q))) K now (mono_at j) (q_msgs q)) \<and>
          (q_dlq_name q = [] \<longrightarrow> K = {})))"
  using assms
proof (induction ts arbitrary: s i)
  case Nil
  then show ?case by simp
next
  case (Cons t ts)
  let ?s1 = "reap_queue_locked s t now (mono_at i) False locks"
  have tl: "t \<in> set locks" "set ts \<subseteq> set locks" "distinct ts" "t \<notin> set ts" using Cons.prems(3,4) by simp_all
  show ?case
  proof (cases "get_queue s t")
    case None
    then have "?s1 = s" by (simp add: reap_queue_locked_def)
    then have "s' = s" "\<not> ok" using Cons.prems(2) None by (simp_all add: Let_def)
    then show ?thesis using Cons.prems(1) by auto
  next
    case (Some q)
    obtain q1 K where r: "store_ok ?s1" "evolves s ?s1" "keeps (set locks - {t}) s ?s1" "get_queue ?s1 t = Some q1"
      "static q1 = static q" "q_msgs q1 = reaped (set (refs (q_msgs q))) K now (mono_at i) (q_msgs q)"
      "K \<subseteq> set (refs (q_msgs q))" "q_dlq_name q = [] \<longrightarrow> K = {}"
      by (rule reap_queue_ok [OF Cons.prems(1) Some])
    show ?thesis
    proof (cases "queue_full q1")
      case True
      then have s': "s' = ?s1" "\<not> ok" using Cons.prems(2) r(4) by (simp_all add: Let_def)
      have "\<exists>q' K j. get_queue ?s1 u = Some q' \<and> static q' = static p \<and>
          (q_msgs q' = q_msgs p \<or> q_msgs q' = reaped (set (refs (q_msgs p))) K now (mono_at j) (q_msgs p)) \<and>
          (q_dlq_name p = [] \<longrightarrow> K = {})"
        if "u \<in> set (t # ts)" "get_queue s u = Some p" for u p
      proof (cases "u = t")
        case True
        then show ?thesis using that(2) Some r(4,5,6,8) by auto
      next
        case False
        then have "get_queue ?s1 u = Some p" using keepsD [OF r(3) _ that(2)] that(1) tl(2) by auto
        then show ?thesis by auto
      qed
      moreover have "keeps (set locks - set (t # ts)) s ?s1" by (rule keeps_mono [OF r(3)]) auto
      ultimately show ?thesis unfolding s'(1) using r(1,2) s'(2) by simp
    next
      case False
      have e: "check_capacity ts ?s1 locks now mono_at (Suc i) = (ok, s')"
        using Cons.prems(2) r(4) False by (simp add: Let_def)
      note IH = Cons.IH [OF r(1) e tl(2,3)]
      have k: "get_queue s' t = Some q1" using IH r(4) tl(1,4) by (simp add: keeps_def)
      have "\<exists>q' K j. get_queue s' u = Some q' \<and> static q' = static p \<and> (ok \<longrightarrow> \<not> queue_full q') \<and>
          (q_msgs q' = q_msgs p \<or> q_msgs q' = reaped (set (refs (q_msgs p))) K now (mono_at j) (q_msgs p)) \<and>
          (ok \<longrightarrow> q_msgs q' = reaped (set (refs (q_msgs p))) K now (mono_at j) (q_msgs p)) \<and>
          (q_dlq_name p = [] \<longrightarrow> K = {})"
        if "u \<in> set (t # ts)" "get_queue s u = Some p" for u p
      proof (cases "u = t")
        case True
        then show ?thesis using that(2) Some k r(5,6,8) False by auto
      next
        case ut: False
        then have "u \<in> set ts" "get_queue ?s1 u = Some p" using that keepsD [OF r(3) _ that(2)] tl(2) by auto
        then show ?thesis using IH by blast
      qed
      moreover have "evolves s s'" using evolves_trans [OF r(2)] IH by blast
      moreover have "keeps (set locks - set (t # ts)) s s'"
        by (rule keeps_trans [OF keeps_mono [OF r(3)]], auto, rule keeps_mono [of "set locks - set ts"], use IH in auto)
      ultimately show ?thesis using IH by simp
    qed
  qed
qed

lemma publish_targets_ok:
  assumes "store_ok s" and "publish_targets ts s ex data = (rc, s')" and "distinct ts"
  shows "store_ok s' \<and> evolves s s' \<and> keeps (- set ts) s s' \<and>
    (rc = 0 \<longrightarrow> (\<forall>t \<in> set ts. \<forall>q. get_queue s t = Some q \<longrightarrow>
       (\<exists>ref mid. get_queue s' t = Some (message_link q (message_create ref mid ex data)))))"
  using assms
proof (induction ts arbitrary: s)
  case Nil
  then show ?case by simp
next
  case (Cons t ts)
  show ?case
  proof (cases "get_queue s t")
    case None
    then show ?thesis using Cons.prems by auto
  next
    case (Some q)
    let ?mid = "s_next_id s" and ?s1 = "s\<lparr>s_next_id := s_next_id s + 1\<rparr>"
    obtain rc2 s2 where l: "(if q_durable q then append_log ?s1 LOG_PUBLISH q ?mid ex data else (0, ?s1)) = (rc2, s2)"
      by (rule prod.exhaust)
    have f: "frame s s2" using frame_cond(1) [OF l] by (simp add: frame_def)
    note fd = frameD [OF f]
    note e1 = Cons.prems(2) [unfolded publish_targets.simps Some option.case Let_def l prod.case]
    show ?thesis
    proof (cases "rc2 < 0")
      case True
      then have "rc = -1" "s' = s2" using e1 by simp_all
      then show ?thesis using Cons.prems(1) fd(1) frame_evolves [OF f] frame_keeps [OF f] by simp
    next
      case nf: False
      obtain rc3 s3 where a: "append_message s2 t ?mid ex data = (rc3, s3)" by (rule prod.exhaust)
      have ok2: "store_ok s2" using Cons.prems(1) fd(1) by simp
      note am = append_message_ok [OF ok2 a]
      note e2 = e1 [unfolded if_not_P [OF nf] a prod.case]
      have ev3: "evolves s s3" by (rule evolves_trans [OF frame_evolves [OF f] am(2)])
      have k3: "keeps (- {t}) s s3"
        using am(3) am(4) am(5) fd(2) by (elim disjE) (simp_all add: keeps_def)
      show ?thesis
      proof (cases "rc3 < 0")
        case True
        then have "rc = -1" "s' = s3" using e2 by simp_all
        then show ?thesis using am(1) ev3 keeps_mono [OF k3] by auto
      next
        case nf3: False
        then have z: "rc3 = 0" using am(3) by simp
        have e3: "publish_targets ts s3 ex data = (rc, s')" using e2 nf3 by simp
        have dt: "distinct ts" "t \<notin> set ts" using Cons.prems(3) by simp_all
        note IH = Cons.IH [OF am(1) e3 dt(1)]
        have g3: "get_queue s3 t = Some (message_link q (message_create (s_next_ref s2) ?mid ex data))"
          using am(5) [OF z] Some fd(2) by simp
        have gt: "get_queue s' t = Some (message_link q (message_create (s_next_ref s2) ?mid ex data))"
          using IH g3 dt(2) by (simp add: keeps_def)
        have "\<exists>ref mid. get_queue s' u = Some (message_link p (message_create ref mid ex data))"
          if "rc = 0" "u \<in> set (t # ts)" "get_queue s u = Some p" for u p
        proof (cases "u = t")
          case True
          then show ?thesis using gt that(3) Some by auto
        next
          case False
          then have "u \<in> set ts" "get_queue s3 u = Some p" using that(2) keepsD [OF k3 _ that(3)] by auto
          then show ?thesis using IH that(1) by blast
        qed
        moreover have "keeps (- set (t # ts)) s s'"
          by (rule keeps_trans [OF keeps_mono [OF k3]], simp, rule keeps_mono [of "- set ts"], use IH in auto)
        moreover have "evolves s s'" using evolves_trans [OF ev3] IH by blast
        ultimately show ?thesis using IH by blast
      qed
    qed
  qed
qed

lemma publish_targets_rc: "publish_targets ts s ex data = (rc, s') \<Longrightarrow> rc = 0 \<or> rc = -1"
  by (induction ts s ex data rule: publish_targets.induct)
    (auto simp: Let_def split: option.splits prod.splits if_splits)

text \<open>The insertion sort of the targets.\<close>

lemma mset_insert_target: "mset (insert_target t ts) = add_mset t (mset ts)"
proof -
  have "mset (rev ts) = mset (takeWhile (\<lambda>u. u > t) (rev ts)) + mset (dropWhile (\<lambda>u. u > t) (rev ts))"
    by (metis mset_append takeWhile_dropWhile_id)
  then show ?thesis by (simp add: insert_target_def)
qed

lemma sorted_insert_target:
  assumes "sorted ts"
  shows "sorted (insert_target t ts)"
proof -
  let ?P = "\<lambda>u. u > t"
  have s: "sorted_wrt (\<ge>) (rev ts)" using assms by (simp add: sorted_wrt_rev)
  have "sorted_wrt (\<ge>) (takeWhile ?P (rev ts) @ t # dropWhile ?P (rev ts))"
  proof -
    have parts: "sorted_wrt (\<ge>) (takeWhile ?P (rev ts))" "sorted_wrt (\<ge>) (dropWhile ?P (rev ts))"
      "\<forall>x \<in> set (takeWhile ?P (rev ts)). \<forall>y \<in> set (dropWhile ?P (rev ts)). x \<ge> y"
      using s sorted_wrt_append [of "(\<ge>)" "takeWhile ?P (rev ts)" "dropWhile ?P (rev ts)"] by simp_all
    have "\<forall>x \<in> set (dropWhile ?P (rev ts)). x \<le> t"
    proof (cases "dropWhile ?P (rev ts)")
      case (Cons y ys)
      then have "\<not> y > t" using hd_dropWhile [of ?P "rev ts"] by simp
      moreover have "\<forall>x \<in> set ys. y \<ge> x" using parts(2) Cons by simp
      ultimately show ?thesis using Cons by auto
    next
      case Nil
      then show ?thesis by (simp only: Nil list.set ball_empty)
    qed
    moreover have "\<forall>x \<in> set (takeWhile ?P (rev ts)). t \<le> x" by (auto dest: set_takeWhileD)
    ultimately show ?thesis using parts by (simp add: sorted_wrt_append)
  qed
  then have "sorted (rev (takeWhile ?P (rev ts) @ t # dropWhile ?P (rev ts)))" by (simp only: sorted_wrt_rev)
  then show ?thesis by (simp add: insert_target_def)
qed

lemma sort_targets_fold:
  "sorted acc \<Longrightarrow> sorted (foldl (\<lambda>acc t. insert_target t acc) acc ts) \<and>
     mset (foldl (\<lambda>acc t. insert_target t acc) acc ts) = mset acc + mset ts"
  by (induction ts arbitrary: acc) (simp_all add: sorted_insert_target mset_insert_target)

lemma sort_targets_sort: "sort_targets ts = sort ts"
  using sort_targets_fold [of "[]" ts] properties_for_sort [of "sort_targets ts" ts] by (simp add: sort_targets_def)

lemma collect_targets_distinct: "distinct acc \<Longrightarrow> distinct (collect_targets s x key bs acc)"
  by (induction bs arbitrary: acc) (auto split: option.splits)

lemma resolve_distinct: "exchange_resolve_locked s ex key = Some ts \<Longrightarrow> distinct ts"
  by (auto simp: exchange_resolve_locked_def resolve_default_def Let_def collect_targets_distinct
      split: if_splits option.splits)

lemma collect_targets_get:
  assumes "store_ok s" and "\<forall>t \<in> set acc. get_queue s t \<noteq> None" and "t \<in> set (collect_targets s x key bs acc)"
  shows "get_queue s t \<noteq> None"
  using assms(2,3)
proof (induction bs arbitrary: acc)
  case (Cons b bs)
  show ?case
  proof (cases "binding_matches x key b \<and> find_queue s (b_queue b) \<noteq> None")
    case True
    then obtain q where q: "find_queue s (b_queue b) = Some q" by auto
    let ?acc = "if q_lock_id q \<notin> set acc \<and> length acc < EXCHANGE_BINDINGS_MAX then acc @ [q_lock_id q] else acc"
    have "\<forall>t \<in> set ?acc. get_queue s t \<noteq> None" using Cons.prems(1) find_queue_get [OF assms(1) q] by auto
    then show ?thesis using Cons.IH [of ?acc] Cons.prems(2) True q by simp
  next
    case False
    then show ?thesis using Cons by (auto split: if_splits)
  qed
qed simp

lemma resolve_get:
  assumes ok: "store_ok s" and e: "exchange_resolve_locked s ex key = Some ts" and t: "t \<in> set ts"
  shows "\<exists>q. get_queue s t = Some q"
proof -
  have "get_queue s t \<noteq> None"
  proof (cases "ex = []")
    case True
    then show ?thesis
      using e t find_queue_get [OF ok] by (auto simp: exchange_resolve_locked_def resolve_default_def split: if_splits option.splits)
  next
    case False
    then obtain x bs where "ts = collect_targets s x key bs [] \<or> ts = []"
      using e by (auto simp: exchange_resolve_locked_def Let_def split: option.splits if_splits)
    then show ?thesis using t collect_targets_get [OF ok, of "[]"] by auto
  qed
  then show ?thesis by simp
qed

lemma frame_upd_exchange: "frame s (upd_exchange s name f)"
  by (simp add: frame_def upd_exchange_def)

lemma frame_count_attempt: "frame s (count_attempt s ex u)"
  by (simp add: count_attempt_def frame_upd_exchange)

text \<open>
  A fan-out publication, target by target: each one is reaped, and on success it also has one
  more message at its end and had room for it.
\<close>

definition fanned :: "store \<Rightarrow> nat \<Rightarrow> u64 \<Rightarrow> (nat \<Rightarrow> u64) \<Rightarrow> u64 \<Rightarrow> bytes \<Rightarrow> store \<Rightarrow> bool" where
  "fanned s t now mono_at ex data s' \<longleftrightarrow>
     (\<exists>q q1 K j ref mid. get_queue s t = Some q \<and> static q1 = static q \<and>
        q_msgs q1 = reaped (set (refs (q_msgs q))) K now (mono_at j) (q_msgs q) \<and> \<not> queue_full q1 \<and> queue_ok q1 \<and>
        (q_dlq_name q = [] \<longrightarrow> K = {}) \<and> get_queue s' t = Some (message_link q1 (message_create ref mid ex data)))"

lemma exchange_publish_cases:
  assumes ok: "store_ok s" and e: "exchange_publish s ex key data ttl now mono_at = (rc, n, s')"
  shows "store_ok s' \<and> evolves s s' \<and>
    (rc = 0 \<and> n \<noteq> 0 \<longrightarrow> (\<exists>ts. exchange_resolve_locked s ex key = Some ts \<and> n = length ts \<and>
       (\<forall>t \<in> set ts. fanned s t now mono_at (if ttl \<noteq> 0 then now + ttl else 0) data s')))"
proof (cases "exchange_resolve_locked s ex key")
  case None
  then have "s' = s" "rc = -1" using e by (auto simp: exchange_publish_def split: if_splits)
  then show ?thesis using ok by simp
next
  case (Some ts)
  let ?s1 = "count_attempt s ex (ts = [])" and ?ts = "sort_targets ts" and ?ex = "if ttl \<noteq> 0 then now + ttl else 0"
  note f1 = frame_count_attempt [of s ex "ts = []"]
  note fd1 = frameD [OF f1]
  have ok1: "store_ok ?s1" using ok fd1(1) by simp
  show ?thesis
  proof (cases "length ex > EXCHANGE_NAME_MAX \<or> length key > ROUTING_KEY_MAX \<or> length data > QUEUE_MESSAGE_MAX \<or> ts = []")
    case True
    then have "(s' = s \<and> rc = -1) \<or> (s' = ?s1\<lparr>s_unroutable := s_unroutable ?s1 + 1\<rparr> \<and> n = 0)"
      using e Some by (auto simp: exchange_publish_def Let_def split: if_splits)
    then show ?thesis using ok ok1 frame_evolves [OF f1] by auto
  next
    case False
    note e1 = e [unfolded exchange_publish_def Let_def Some option.case]
    have ds: "distinct ?ts" "set ?ts = set ts" using resolve_distinct [OF Some] by (simp_all add: sort_targets_sort)
    obtain okc s2 where c: "check_capacity ?ts ?s1 ?ts now mono_at 0 = (okc, s2)" by (rule prod.exhaust)
    note cc = check_capacity_ok [OF ok1 c subset_refl ds(1)]
    have ev2: "evolves s s2" using evolves_trans [OF frame_evolves [OF f1]] cc by blast
    show ?thesis
    proof (cases okc)
      case nc: False
      then have "s' = s2" "rc = -1" using e1 False c by simp_all
      then show ?thesis using cc ev2 by simp
    next
      case yc: True
      obtain rc3 s3 where p: "publish_targets ?ts s2 ?ex data = (rc3, s3)" by (rule prod.exhaust)
      have ok2: "store_ok s2" using cc by simp
      note pt = publish_targets_ok [OF ok2 p ds(1)]
      have ev3: "evolves s s3" using evolves_trans [OF ev2] pt by blast
      have e2: "(if rc3 < 0 then (-1, 0, s3) else case finish_durable s3 (w_seq (s_wal s2)) of (rc, s4) \<Rightarrow>
                       (rc, if rc = 0 then length ts else 0, s4)) = (rc, n, s')"
        using e1 False c yc p by simp
      show ?thesis
      proof (cases "rc3 < 0")
        case True
        then have "s' = s3" "rc = -1" using e2 by simp_all
        then show ?thesis using pt ev3 by simp
      next
        case nf: False
        obtain rc4 s4 where w: "finish_durable s3 (w_seq (s_wal s2)) = (rc4, s4)" by (rule prod.exhaust)
        note f4 = finish_durable_frame [OF w]
        note fd4 = frameD [OF f4]
        have res: "rc = rc4" "n = (if rc4 = 0 then length ts else 0)" "s' = s4" using e2 nf w by auto
        have z: "rc3 = 0" using publish_targets_rc [OF p] nf by auto
        have "fanned s t now mono_at ?ex data s'" if tt: "t \<in> set ts" for t
        proof -
          obtain q where q: "get_queue s t = Some q" using resolve_get [OF ok Some tt] by auto
          then obtain q1 K j where q1: "get_queue s2 t = Some q1" "static q1 = static q" "\<not> queue_full q1"
            "q_msgs q1 = reaped (set (refs (q_msgs q))) K now (mono_at j) (q_msgs q)" "q_dlq_name q = [] \<longrightarrow> K = {}"
            using cc yc tt ds(2) fd1(2) by fastforce
          then obtain ref mid where "get_queue s3 t = Some (message_link q1 (message_create ref mid ?ex data))"
            using pt z tt ds(2) by blast
          then have "get_queue s' t = Some (message_link q1 (message_create ref mid ?ex data))" using res(3) fd4(2) by simp
          then show ?thesis unfolding fanned_def using q q1 get_queue_ok [OF ok2 q1(1)] by blast
        qed
        moreover have "store_ok s'" "evolves s s'"
          using pt fd4(1) res(3) evolves_trans [OF ev3 frame_evolves [OF f4]] by simp_all
        ultimately show ?thesis using Some res(2) by auto
      qed
    qed
  qed
qed

subsection \<open>Batches\<close>

lemma append_batch_frame [store_frame]: "append_batch s name rs = (rc, s') \<Longrightarrow> frame s s'"
  by (auto simp: append_batch_def frame_def split: prod.splits)

lemma append_messages_ok:
  assumes "store_ok s" and "append_messages ms s qid = (rc, s')"
  shows "store_ok s' \<and> evolves s s' \<and> keeps (- {qid}) s s' \<and> (rc = 0 \<or> rc = -1) \<and>
    (\<forall>q. get_queue s qid = Some q \<longrightarrow> (\<exists>q' new. get_queue s' qid = Some q' \<and> static q' = static q \<and>
       q_msgs q' = q_msgs q @ new \<and> length new \<le> length ms \<and>
       (rc = 0 \<longrightarrow> map (\<lambda>m. (m_id m, m_data m)) new = ms) \<and> (\<forall>m \<in> set new. m_state m = MESSAGE_READY)))"
  using assms
proof (induction ms arbitrary: s)
  case Nil
  then show ?case by auto
next
  case (Cons p ms)
  obtain i d where p: "p = (i, d)" by (rule prod.exhaust)
  obtain rc1 s1 where a: "append_message s qid i 0 d = (rc1, s1)" by (rule prod.exhaust)
  note am = append_message_ok [OF Cons.prems(1) a]
  have k: "keeps (- {qid}) s s1" using am(3) am(4) am(5) by (elim disjE) (simp_all add: keeps_def)
  show ?case
  proof (cases "rc1 < 0")
    case True
    then have "s' = s1" "rc = -1" "get_queue s1 = get_queue s" using Cons.prems(2) p a am(3,4) by auto
    then show ?thesis using am(1,2) k by auto
  next
    case False
    then have z: "rc1 = 0" using am(3) by auto
    have e: "append_messages ms s1 qid = (rc, s')" using Cons.prems(2) p a False by simp
    note IH = Cons.IH [OF am(1) e]
    have "\<exists>q' new. get_queue s' qid = Some q' \<and> static q' = static q \<and> q_msgs q' = q_msgs q @ new \<and>
        length new \<le> length (p # ms) \<and> (rc = 0 \<longrightarrow> map (\<lambda>m. (m_id m, m_data m)) new = p # ms) \<and>
        (\<forall>m \<in> set new. m_state m = MESSAGE_READY)"
      if "get_queue s qid = Some q" for q
    proof -
      let ?m = "message_create (s_next_ref s) i 0 d"
      have "get_queue s1 qid = Some (message_link q ?m)" using am(5) [OF z] that by simp
      then obtain q' new where n: "get_queue s' qid = Some q'" "static q' = static q"
        "q_msgs q' = q_msgs q @ linked_message q ?m # new" "length new \<le> length ms"
        "rc = 0 \<longrightarrow> map (\<lambda>m. (m_id m, m_data m)) new = ms" "\<forall>m \<in> set new. m_state m = MESSAGE_READY"
        using IH by auto
      then show ?thesis
        by (intro exI [of _ q'] exI [of _ "linked_message q ?m # new"]) (simp add: p message_create_def)
    qed
    moreover have "evolves s s'" using evolves_trans [OF am(2)] IH by blast
    moreover have "keeps (- {qid}) s s'" using keeps_trans [OF k] IH by blast
    ultimately show ?thesis using IH by blast
  qed
qed

lemma frame_fresh_ids: "fresh_ids n s = (ids, s') \<Longrightarrow> frame s s'"
  by (auto simp: fresh_ids_def)

lemma queue_publish_batch_cases:
  assumes ok: "store_ok s" and e: "queue_publish_batch s name bodies now t = (rc, ids, s')"
  shows "store_ok s' \<and> evolves s s' \<and>
    (rc = 0 \<longrightarrow> (\<exists>q q1 K q' new. find_queue s name = Some q \<and> static q1 = static q \<and>
       q_msgs q1 = reaped (set (refs (q_msgs q))) K now t (q_msgs q) \<and> queue_ok q1 \<and>
       (q_max_depth q1 \<noteq> 0 \<longrightarrow> word_of_nat (q_depth q1) + word_of_nat (length bodies) \<le> q_max_depth q1) \<and>
       get_queue s' (q_lock_id q) = Some q' \<and> static q' = static q \<and> q_msgs q' = q_msgs q1 @ new \<and>
       map m_data new = bodies \<and> map m_id new = ids \<and> (\<forall>m \<in> set new. m_state m = MESSAGE_READY)))"
proof (cases "name = [] \<or> bodies = [] \<or> find_queue s name = None")
  case True
  then have "s' = s" "rc = -1" using e by (auto simp: queue_publish_batch_def split: if_splits)
  then show ?thesis using ok by simp
next
  case False
  then obtain q where q: "find_queue s name = Some q" by auto
  let ?id = "q_lock_id q" let ?s1 = "reap_queue_locked s ?id now t False [?id]"
  obtain q1 K where r: "store_ok ?s1" "evolves s ?s1" "keeps (set [?id] - {?id}) s ?s1" "get_queue ?s1 ?id = Some q1"
    "static q1 = static q" "q_msgs q1 = reaped (set (refs (q_msgs q))) K now t (q_msgs q)"
    "K \<subseteq> set (refs (q_msgs q))" "q_dlq_name q = [] \<longrightarrow> K = {}"
    by (rule reap_queue_ok [OF ok find_queue_get [OF ok q]])
  have nn: "\<not> (name = [] \<or> bodies = [])" using False by simp
  note e1 = e [unfolded queue_publish_batch_def if_not_P [OF nn] q option.case Let_def r(4)]
  let ?full = "q_max_depth q1 \<noteq> 0 \<and> word_of_nat (q_depth q1) + word_of_nat (length bodies) > q_max_depth q1"
  let ?bad = "\<exists>d \<in> set bodies. d = [] \<or> length d > QUEUE_MESSAGE_MAX"
  show ?thesis
  proof (cases "?full \<or> ?bad")
    case True
    then have "s' = ?s1" "rc = -1" using e1 by (auto split: if_splits)
    then show ?thesis using r(1,2) by simp
  next
    case nb: False
    obtain ok1 s2 where a1: "alloc ?s1 = (ok1, s2)" by (rule prod.exhaust)
    obtain ok2 s3 where a2: "(if q_durable q1 then alloc s2 else (True, s2)) = (ok2, s3)" by (rule prod.exhaust)
    obtain xs s4 where a3: "fresh_ids (length bodies) s3 = (xs, s4)" by (rule prod.exhaust)
    obtain rc5 s5 where a4: "(if q_durable q1 then append_batch s4 (q_name q1) (publish_records xs bodies) else (0, s4)) = (rc5, s5)"
      by (rule prod.exhaust)
    obtain rc6 s6 where a5: "append_messages (zip xs bodies) s5 ?id = (rc6, s6)" by (rule prod.exhaust)
    obtain rc7 s7 where a6: "finish_durable s6 (w_seq (s_wal ?s1)) = (rc7, s7)" by (rule prod.exhaust)
    have f3: "frame ?s1 s3" using alloc_frame [OF a1] a2 by (auto split: if_splits dest: alloc_frame intro: frame_trans)
    have f5: "frame ?s1 s5"
      using frame_trans [OF f3 frame_fresh_ids [OF a3]] a4 by (auto split: if_splits dest: append_batch_frame intro: frame_trans)
    have ok5: "store_ok s5" and g5: "get_queue s5 ?id = Some q1" using frameD [OF f5] r(1,4) by simp_all
    note am = append_messages_ok [OF ok5 a5]
    have ev5: "evolves s s5" by (rule evolves_trans [OF r(2) frame_evolves [OF f5]])
    have ev6: "evolves s s6" using evolves_trans [OF ev5] am by blast
    note f7 = finish_durable_frame [OF a6]
    have res: "(if \<not> ok1 \<or> \<not> ok2 then (-1, [], s3) else if rc5 < 0 then (-1, [], s5) else if rc6 < 0 then (-1, [], s6)
        else (rc7, xs, s7)) = (rc, ids, s')"
    proof -
      have nf: "\<not> ?full" "\<not> ?bad" using nb by blast+
      show ?thesis
        using e1 unfolding if_not_P [OF nf(1)] if_not_P [OF nf(2)] a1 prod.case a2 a3 a4 a5 a6 by assumption
    qed
    consider "s' = s3" "rc = -1" | "s' = s5" "rc = -1" | "s' = s6" "rc = -1" | (good) "s' = s7" "rc = rc7" "ids = xs" "\<not> rc6 < 0"
      using res by (auto split: if_splits)
    then show ?thesis
    proof cases
      case good
      have z6: "rc6 = 0" using am good(4) by auto
      obtain q' new where n: "get_queue s6 ?id = Some q'" "static q' = static q1" "q_msgs q' = q_msgs q1 @ new"
        "map (\<lambda>m. (m_id m, m_data m)) new = zip xs bodies" "\<forall>m \<in> set new. m_state m = MESSAGE_READY"
        using am g5 z6 by auto
      have len: "length xs = length bodies" using a3 by (auto simp: fresh_ids_def)
      have bd: "map m_data new = bodies" "map m_id new = ids"
        using arg_cong [OF n(4), of "map snd"] arg_cong [OF n(4), of "map fst"] len good(3) by (simp_all add: o_def)
      have g7: "get_queue s' ?id = Some q'" using frameD(2) [OF f7] n(1) good(1) by simp
      have room: "q_max_depth q1 \<noteq> 0 \<longrightarrow> word_of_nat (q_depth q1) + word_of_nat (length bodies) \<le> q_max_depth q1"
        using nb by (auto simp: not_less)
      have "store_ok s'" "evolves s s'"
        using am frameD(1) [OF f7] evolves_trans [OF ev6 frame_evolves [OF f7]] good(1) by simp_all
      then show ?thesis
        using q r(5,6) get_queue_ok [OF r(1,4)] room g7 n(2,3,5) bd by fastforce
    qed (use am ok5 ev5 ev6 frameD(1) [OF f3] r(1) evolves_trans [OF r(2) frame_evolves [OF f3]] in simp_all)
  qed
qed

text \<open>Acknowledging and rejecting batches.\<close>

lemma batch_delivery_Some:
  assumes "queue_ok q" and "batch_delivery q t ow fb = Some m"
  shows "find_msg q (m_ref m) = Some m" "m_state m = MESSAGE_INFLIGHT" "m_tag m = t" "m \<in> set (q_msgs q)"
    "m_owner m = ow \<or> fb \<noteq> 0 \<and> m_owner m = fb"
proof -
  have tf: "tag_find q t = Some m" and st: "m_state m = MESSAGE_INFLIGHT"
    and o: "m_owner m = ow \<or> fb \<noteq> 0 \<and> m_owner m = fb"
    using assms(2) by (auto simp: batch_delivery_def split: option.splits if_splits)
  then have t0: "t \<noteq> 0" by (auto simp: tag_find_def)
  then have "find (\<lambda>m. m_tag m = t) (q_msgs q) = Some m" using ti.lookup_linear [OF assms(1)] tf by simp
  then show m: "m \<in> set (q_msgs q)" "m_tag m = t" by (auto dest: find_Some_mem)
  show "m_state m = MESSAGE_INFLIGHT" "m_owner m = ow \<or> fb \<noteq> 0 \<and> m_owner m = fb" by fact+
  show "find_msg q (m_ref m) = Some m" using find_msg_mem m(1) assms(1) by (simp add: queue_ok_def)
qed

lemma batch_log_pass_ok:
  assumes "store_ok s" and "batch_log_pass ts s qid requeue ow fb n = (rc, acked, s')"
  shows "store_ok s' \<and> evolves s s'"
  using assms
proof (induction ts arbitrary: s n)
  case (Cons t ts)
  show ?case
  proof (cases "get_queue s qid")
    case None
    then show ?thesis using Cons.prems by auto
  next
    case (Some q)
    show ?thesis
    proof (cases "batch_delivery q t ow fb")
      case None
      then show ?thesis using Cons Some by simp
    next
      case m: (Some m)
      note bm = batch_delivery_Some [OF get_queue_ok [OF Cons.prems(1) Some] m]
      note e1 = Cons.prems(2) [unfolded batch_log_pass.simps Some m option.case]
      show ?thesis
      proof (cases "\<not> requeue \<and> q_dlq_name q \<noteq> []")
        case True
        obtain r s1 where d: "dead_letter_locked s qid (m_ref m) False False [qid] = (r, s1)" by (rule prod.exhaust)
        have s1: "store_ok s1" "evolves s s1" using dead_letter_ok [OF Cons.prems(1) Some bm(1) d] by auto
        note e2 = e1 [unfolded if_P [OF True] d prod.case]
        show ?thesis
        proof (cases "r < 0")
          case True
          then show ?thesis using e2 s1 by simp
        next
          case False
          then show ?thesis using e2 Cons.IH [OF s1(1)] evolves_trans [OF s1(2)] by (simp del: if_split)
        qed
      next
        case False
        obtain r s1 where d: "(if q_durable q then append_log_deferred s (if requeue then LOG_REQUEUE else LOG_ACK) q (m_id m)
            else (0, s)) = (r, s1)" by (rule prod.exhaust)
        note f = frame_cond(5) [OF d]
        have s1: "store_ok s1" "evolves s s1" using Cons.prems(1) frameD(1) [OF f] frame_evolves [OF f] by simp_all
        note e2 = e1 [unfolded if_not_P [OF False] d prod.case]
        show ?thesis
        proof (cases "r < 0")
          case True
          then show ?thesis using e2 s1 by simp
        next
          case False
          then show ?thesis using e2 Cons.IH [OF s1(1)] evolves_trans [OF s1(2)] by (simp del: if_split)
        qed
      qed
    qed
  qed
qed simp

lemma batch_apply_pass_ok:
  "store_ok s \<Longrightarrow> store_ok (batch_apply_pass ts s qid requeue ow fb n) \<and>
     evolves s (batch_apply_pass ts s qid requeue ow fb n)"
proof (induction ts arbitrary: s n)
  case (Cons t ts)
  show ?case
  proof (cases "n = 0 \<or> get_queue s qid = None")
    case True
    then show ?thesis using Cons.prems by auto
  next
    case False
    then obtain q where q: "get_queue s qid = Some q" by auto
    show ?thesis
    proof (cases "batch_delivery q t ow fb")
      case None
      then show ?thesis using Cons False q by simp
    next
      case (Some m)
      note bm = batch_delivery_Some [OF get_queue_ok [OF Cons.prems(1) q] Some]
      let ?s = "if requeue
           then (upd_queue s qid (\<lambda>q. requeue_charged q (m_ref m) 0))\<lparr>s_redeliveries := s_redeliveries s + 1\<rparr>
           else upd_queue s qid (\<lambda>q. remove_message q (m_ref m))"
      have s': "store_ok ?s" "evolves s ?s"
        using upd_requeue_ok(2) [OF Cons.prems(1) q bm(1,2), of 0] upd_remove_ok [OF Cons.prems(1)]
          upd_evolves [of "\<lambda>q. requeue_charged q (m_ref m) 0" s qid] upd_evolves [of "\<lambda>q. remove_message q (m_ref m)" s qid]
        by (cases requeue; simp)+
      have eq: "batch_apply_pass (t # ts) s qid requeue ow fb n = batch_apply_pass ts ?s qid requeue ow fb (n - 1)"
        using False q Some by (simp del: if_split)
      show ?thesis unfolding eq using Cons.IH [OF s'(1)] evolves_trans [OF s'(2)] by blast
    qed
  qed
qed simp

lemma ack_nack_batch_ok:
  assumes ok: "store_ok s" and e: "ack_nack_batch_locked s qid ow fb tags requeue = (rc, n, s')"
  shows "store_ok s'" "evolves s s'"
proof -
  have "store_ok s' \<and> evolves s s'"
  proof (cases "get_queue s qid")
    case None
    then show ?thesis using e ok by (simp add: ack_nack_batch_locked_def)
  next
    case (Some q)
    obtain rc1 acked s1 where l: "batch_log_pass tags s qid requeue ow fb 0 = (rc1, acked, s1)" by (rule prod_cases3)
    note s1 = batch_log_pass_ok [OF ok l]
    obtain rc2 s2 where w: "(if q_durable q \<and> acked \<noteq> 0 \<and> w_seq (s_wal s1) \<noteq> w_seq (s_wal s) then sync_store s1 else (0, s1)) = (rc2, s2)"
      by (rule prod.exhaust)
    have f: "frame s1 s2" using w by (auto split: if_splits dest: sync_store_frame)
    have ok2: "store_ok s2" and ev2: "evolves s s2"
      using s1 frameD(1) [OF f] evolves_trans [OF _ frame_evolves [OF f]] by auto
    have "s' = s1 \<or> s' = s2 \<or> s' = batch_apply_pass tags s2 qid requeue ow fb acked"
      using e Some l w by (auto simp: ack_nack_batch_locked_def Let_def split: if_splits)
    then show ?thesis using s1 ok2 ev2 batch_apply_pass_ok [OF ok2] evolves_trans [OF ev2] by (elim disjE) auto
  qed
  then show "store_ok s'" "evolves s s'" by simp_all
qed

subsection \<open>Consuming a batch\<close>

lemma deliver_step:
  assumes ok: "store_ok s" and q: "get_queue s qid = Some q" and m: "find_msg q r = Some m" "m_state m = MESSAGE_READY"
    and nt: "s_next_delivery_tag s + 1 \<noteq> 0" and n: "next_tag s = (tag, s3)" and a: "alloc_index s3 = (mem, s4)"
  shows "mem" "tag = s_next_delivery_tag s" "s_next_delivery_tag s4 = s_next_delivery_tag s + 1"
    "store_ok (upd_queue s4 qid (\<lambda>q. deliver_message mem q r dl ow tag))"
    "grows s (upd_queue s4 qid (\<lambda>q. deliver_message mem q r dl ow tag))"
    "get_queue (upd_queue s4 qid (\<lambda>q. deliver_message mem q r dl ow tag)) qid = Some (deliver_message True q r dl ow tag)"
proof -
  let ?t = "s_next_delivery_tag s"
  have t0: "?t \<noteq> 0" using ok by (auto simp: store_ok_def)
  then have n': "tag = ?t" "s3 = s\<lparr>s_next_delivery_tag := ?t + 1\<rparr>" using n by (auto simp: next_tag_def Let_def)
  show mem: "mem" using a ok n' by (auto simp: alloc_index_def store_ok_def)
  show "tag = ?t" by (rule n')
  note f = alloc_index_frame [OF a]
  note fd = frameD [OF f]
  have lt: "?t < ?t + 1" using nt by (simp add: word_less_nat_alt unatSuc add.commute [of _ 1])
  have ok3: "store_ok s3"
  proof -
    have "queue_in s3 x" if "x \<in> set (s_queues s)" for x
      by (rule queue_in_ahead [of s]) (use ok that lt n' in \<open>simp_all add: store_ok_def ahead_def less_imp_le\<close>)
    moreover have "0 < ?t + 1" using lt by (rule le_less_trans [rotated]) simp
    ultimately show ?thesis using ok n' by (simp add: store_ok_def)
  qed
  have ok4: "store_ok s4" using ok3 fd by simp
  have q4: "get_queue s4 qid = Some q" using q fd n' by simp
  have "queue_in s3 (deliver_message True q r dl ow ?t)"
    using queue_in_deliver [OF get_queue_in [OF ok q] m t0 nt] n' by simp
  then have "queue_in s4 (deliver_message True q r dl ow ?t)" using fd by simp
  then show "store_ok (upd_queue s4 qid (\<lambda>q. deliver_message mem q r dl ow tag))"
    by (intro store_ok_upd_static [OF ok4]) (use mem n' q4 in simp_all)
  have "grows s s3" using lt n' by (simp add: grows_def ahead_def less_imp_le)
  then have "grows s s4" using evolves_grows [OF frame_evolves [OF f]] grows_trans by blast
  then show "grows s (upd_queue s4 qid (\<lambda>q. deliver_message mem q r dl ow tag))"
    by (rule grows_trans) (intro evolves_grows upd_evolves, simp)
  show "get_queue (upd_queue s4 qid (\<lambda>q. deliver_message mem q r dl ow tag)) qid = Some (deliver_message True q r dl ow tag)"
    using q4 mem n' by (simp add: get_upd_queue)
  show "s_next_delivery_tag s4 = ?t + 1" using fd n' by simp
qed

text \<open>
  Where the scan stands in a queue without a limit: what it has passed is in flight up to the
  first delayed message.
\<close>

definition scan_at :: "queue \<Rightarrow> nat list \<Rightarrow> nat option \<Rightarrow> (nat \<times> queue_message) list \<Rightarrow> bool" where
  "scan_at q rs delayed picked \<longleftrightarrow>
     (\<exists>pre suf. q_msgs q = pre @ suf \<and> refs suf = rs \<and>
        (case delayed of None \<Rightarrow> \<forall>m \<in> set pre. m_state m = MESSAGE_INFLIGHT
         | Some d \<Rightarrow> all_before (\<lambda>m. m_state m = MESSAGE_INFLIGHT) (q_msgs q) (Some d)) \<and>
        (picked \<noteq> [] \<longrightarrow> fst (last picked) \<in> set (refs pre)))"

lemma scan_at_split:
  assumes "scan_at q (r # rs) delayed picked"
  obtains pre x suf where "q_msgs q = pre @ x # suf" "m_ref x = r" "refs suf = rs"
    "case delayed of None \<Rightarrow> \<forall>m \<in> set pre. m_state m = MESSAGE_INFLIGHT
      | Some d \<Rightarrow> all_before (\<lambda>m. m_state m = MESSAGE_INFLIGHT) (q_msgs q) (Some d)"
    "picked \<noteq> [] \<longrightarrow> fst (last picked) \<in> set (refs pre)"
proof -
  from assms [unfolded scan_at_def] show ?thesis
  proof (elim exE conjE)
    fix pre suf assume sp: "q_msgs q = pre @ suf" "refs suf = r # rs"
      "case delayed of None \<Rightarrow> \<forall>m \<in> set pre. m_state m = MESSAGE_INFLIGHT
        | Some d \<Rightarrow> all_before (\<lambda>m. m_state m = MESSAGE_INFLIGHT) (q_msgs q) (Some d)"
      "picked \<noteq> [] \<longrightarrow> fst (last picked) \<in> set (refs pre)"
    from sp(2) obtain x suf' where "suf = x # suf'" "m_ref x = r" "refs suf' = rs" by (cases suf) auto
    then show ?thesis by (intro that [of pre x suf' , OF _ _ _ sp(3,4)]) (simp_all add: sp(1))
  qed
qed

lemma scan_at_skip:
  assumes "scan_at q (r # rs) delayed picked" and "find_msg q r = Some m" and "distinct (refs (q_msgs q))"
    and "m_state m \<noteq> MESSAGE_READY \<or> delayed \<noteq> None"
  shows "scan_at q rs delayed picked"
proof -
  obtain pre x suf where sp: "q_msgs q = pre @ x # suf" "m_ref x = r" "refs suf = rs"
    "case delayed of None \<Rightarrow> \<forall>m \<in> set pre. m_state m = MESSAGE_INFLIGHT
      | Some d \<Rightarrow> all_before (\<lambda>m. m_state m = MESSAGE_INFLIGHT) (q_msgs q) (Some d)"
    "picked \<noteq> [] \<longrightarrow> fst (last picked) \<in> set (refs pre)" by (rule scan_at_split [OF assms(1)])
  have "x = m" using find_msg_split [OF assms(3) sp(1)] assms(2) sp(2) by simp
  moreover have "m_state m = MESSAGE_INFLIGHT \<or> delayed \<noteq> None" using assms(4) by (cases "m_state m") auto
  ultimately show ?thesis
    unfolding scan_at_def using sp by (intro exI [of _ "pre @ [x]"] exI [of _ suf]) (auto split: option.splits)
qed

lemma scan_at_delay:
  assumes "scan_at q (r # rs) None picked"
  shows "scan_at q rs (Some r) picked"
proof -
  obtain pre x suf where sp: "q_msgs q = pre @ x # suf" "m_ref x = r" "refs suf = rs"
    "case None of None \<Rightarrow> \<forall>m \<in> set pre. m_state m = MESSAGE_INFLIGHT
      | Some d \<Rightarrow> all_before (\<lambda>m. m_state m = MESSAGE_INFLIGHT) (q_msgs q) (Some d)"
    "picked \<noteq> [] \<longrightarrow> fst (last picked) \<in> set (refs pre)" by (rule scan_at_split [OF assms])
  have "all_before (\<lambda>m. m_state m = MESSAGE_INFLIGHT) (pre @ x # suf) (Some r)"
    using all_before_split [of pre _ x suf] sp(2,4) by simp
  then show ?thesis
    unfolding scan_at_def using sp by (intro exI [of _ "pre @ [x]"] exI [of _ suf]) auto
qed

lemma scan_at_deliver:
  assumes "scan_at q (r # rs) delayed picked"
  shows "scan_at (deliver_message True q r dl ow tg) rs delayed (picked @ [(r, out)])"
proof -
  obtain pre x suf where sp: "q_msgs q = pre @ x # suf" "m_ref x = r" "refs suf = rs"
    "case delayed of None \<Rightarrow> \<forall>m \<in> set pre. m_state m = MESSAGE_INFLIGHT
      | Some d \<Rightarrow> all_before (\<lambda>m. m_state m = MESSAGE_INFLIGHT) (q_msgs q) (Some d)"
    "picked \<noteq> [] \<longrightarrow> fst (last picked) \<in> set (refs pre)" by (rule scan_at_split [OF assms])
  let ?f = "delivered q r dl ow tg"
  have ab: "all_before (\<lambda>m. m_state m = MESSAGE_INFLIGHT) ms h \<Longrightarrow>
      all_before (\<lambda>m. m_state m = MESSAGE_INFLIGHT) (map ?f ms) h" for ms h
    by (rule all_before_upd) (simp_all add: delivered_keeps)
  have "case delayed of None \<Rightarrow> \<forall>m \<in> set (map ?f (pre @ [x])). m_state m = MESSAGE_INFLIGHT
      | Some d \<Rightarrow> all_before (\<lambda>m. m_state m = MESSAGE_INFLIGHT) (map ?f (q_msgs q)) (Some d)"
    using sp(2,4) ab by (cases delayed) (simp_all add: delivered_keeps delivered_this)
  then show ?thesis
    unfolding scan_at_def using sp(1,2,3)
    by (intro exI [of _ "map ?f (pre @ [x])"] exI [of _ "map ?f suf"]) (auto simp: o_def split: option.splits)
qed

definition scan_done :: "queue \<Rightarrow> nat option \<Rightarrow> (nat \<times> queue_message) list \<Rightarrow> bool" where
  "scan_done q delayed picked \<longleftrightarrow> (\<exists>rs. scan_at q rs delayed picked)"

lemma scan_doneI: "scan_at q rs delayed picked \<Longrightarrow> scan_done q delayed picked"
  by (auto simp: scan_done_def)

text \<open>The outcome of the batch scan, as one predicate for the induction.\<close>

definition batch_scanned ::
  "store \<Rightarrow> nat \<Rightarrow> queue \<Rightarrow> nat \<Rightarrow> bool \<times> nat option \<times> (nat \<times> queue_message) list \<times> store \<Rightarrow> bool" where
  "batch_scanned s qid q room res =
     (case res of (ok, delayed, picked, s') \<Rightarrow>
        \<exists>q'. store_ok s' \<and> grows s s' \<and> get_queue s' qid = Some q' \<and> static q' = static q \<and>
          (\<forall>d. delayed = Some d \<longrightarrow> d \<in> set (refs (q_msgs q'))) \<and>
          (q_max_deliveries q = 0 \<longrightarrow> scan_done q' delayed picked) \<and>
          unat (s_next_delivery_tag s') \<le> unat (s_next_delivery_tag s) + room)"

lemma batch_scanned_step:
  assumes "batch_scanned s1 qid q1 room1 res" and "grows s s1" and "static q1 = static q"
    and "unat (s_next_delivery_tag s1) + room1 \<le> unat (s_next_delivery_tag s) + room"
  shows "batch_scanned s qid q room res"
proof -
  obtain ok delayed picked s' where res: "res = (ok, delayed, picked, s')" by (rule prod_cases4)
  from assms(1) obtain q' where q': "store_ok s'" "grows s1 s'" "get_queue s' qid = Some q'" "static q' = static q1"
    "\<forall>d. delayed = Some d \<longrightarrow> d \<in> set (refs (q_msgs q'))" "q_max_deliveries q1 = 0 \<longrightarrow> scan_done q' delayed picked"
    "unat (s_next_delivery_tag s') \<le> unat (s_next_delivery_tag s1) + room1"
    unfolding batch_scanned_def res prod.case by blast
  have "q_max_deliveries q = 0 \<longrightarrow> scan_done q' delayed picked" using q'(6) assms(3) by (simp add: static_eq)
  then show ?thesis unfolding batch_scanned_def res prod.case
    using q' assms(3,4) grows_trans [OF assms(2) q'(2)] by (intro exI [of _ q']) auto
qed

lemma batch_scanned_end:
  assumes "store_ok s" and "get_queue s qid = Some q" and "\<And>d. delayed = Some d \<Longrightarrow> d \<in> set (refs (q_msgs q))"
    and "q_max_deliveries q = 0 \<longrightarrow> scan_at q rs delayed picked"
  shows "batch_scanned s qid q room (ok, delayed, picked, s)"
  unfolding batch_scanned_def prod.case
  by (intro exI [of _ q]) (use assms scan_doneI evolves_grows [OF evolves_refl] in auto)

lemma dead_letter_source:
  assumes "store_ok s" and q: "get_queue s qid = Some q" and "find_msg q r = Some m"
    and "dead_letter_locked s qid r clear held locks = (rc, s')"
  shows "store_ok s' \<and> evolves s s' \<and>
    (rc = 0 \<and> s' = s \<or> rc \<noteq> 0 \<and> (get_queue s' qid = Some q \<or> get_queue s' qid = Some (remove_message q r)))"
  using dead_letter_ok [OF assms]
proof (elim conjE disjE)
  assume "store_ok s'" "evolves s s'" "rc = 1" "routed s qid r m clear locks s'"
  then show ?thesis using q by (auto simp: routed_def)
qed (use q in \<open>simp_all add: keeps_def\<close>)

lemma consume_batch_scan_ok:
  assumes "store_ok s" and "get_queue s qid = Some q" and "distinct rs"
    and "\<And>d. delayed = Some d \<Longrightarrow> d \<in> set (refs (q_msgs q)) \<and> d \<notin> set rs"
    and "q_max_deliveries q = 0 \<longrightarrow> scan_at q rs delayed picked"
    and "unat (s_next_delivery_tag s) + (mx - length picked) < 2 ^ 64"
  shows "batch_scanned s qid q (mx - length picked)
    (consume_batch_scan rs s qid now vis ow mono_at mx delayed picked)"
  using assms
proof (induction rs arbitrary: s q delayed picked)
  case Nil
  show ?case using Nil batch_scanned_end [OF Nil(1,2), of delayed "[]" picked "mx - length picked" True] by simp
next
  case (Cons r rs)
  note p = Cons.prems
  have dr: "distinct rs" "r \<notin> set rs" using p(3) by simp_all
  have stop: "batch_scanned s qid q (mx - length picked) (b, delayed, picked, s)" for b
    using p(4,5) by (intro batch_scanned_end [OF p(1,2)]) auto
  show ?case
  proof (cases "length picked \<ge> mx")
    case True
    then show ?thesis using stop [of True] by simp
  next
    case room: False
    show ?thesis
    proof (cases "find_msg q r")
      case None
      have z: "q_max_deliveries q \<noteq> 0"
      proof
        assume "q_max_deliveries q = 0"
        then obtain pre x suf where "q_msgs q = pre @ x # suf" "m_ref x = r"
          using p(5) scan_at_split by (metis (no_types))
        then show False using None find_msg_None [of q r] by force
      qed
      show ?thesis
        using Cons.IH [OF p(1,2) dr(1), of delayed picked] p(2,4,6) z None room by simp
    next
      case (Some m)
      have m: "m \<in> set (q_msgs q)" "m_ref m = r" using find_msg_Some [OF Some] by simp_all
      have d: "distinct (refs (q_msgs q))" using get_queue_ok [OF p(1,2)] by (simp add: queue_ok_def)
      show ?thesis
      proof (cases "deliverable now m")
        case False
        let ?d = "if m_state m = MESSAGE_READY \<and> delayed = None then Some r else delayed"
        have nd: "\<not> (m_state m = MESSAGE_READY \<and> m_sched m \<le> now)" using False by (simp add: deliverable_def)
        have e: "consume_batch_scan (r # rs) s qid now vis ow mono_at mx delayed picked =
            consume_batch_scan rs s qid now vis ow mono_at mx ?d picked"
          unfolding consume_batch_scan.simps(2) p(2) Some option.case if_not_P [OF room] if_not_P [OF nd] ..
        have D: "x \<in> set (refs (q_msgs q)) \<and> x \<notin> set rs" if "?d = Some x" for x
          using that p(4) [of x] m dr(2) by (auto split: if_splits)
        have S: "scan_at q rs ?d picked" if "q_max_deliveries q = 0"
        proof (cases "m_state m = MESSAGE_READY \<and> delayed = None")
          case True
          then show ?thesis using p(5) that scan_at_delay by simp
        next
          case False
          then show ?thesis using scan_at_skip [OF _ Some d] p(5) that by auto
        qed
        show ?thesis unfolding e by (rule Cons.IH [OF p(1,2) dr(1) D _ p(6)]) (use S in auto)
      next
        case del: True
        obtain rt s1 where dl: "(if over_limit q m then dead_letter_locked s qid r False False [qid] else (0, s)) = (rt, s1)"
          by (rule prod.exhaust)
        have c: "store_ok s1 \<and> evolves s s1 \<and>
            (rt = 0 \<and> get_queue s1 qid = Some q \<or> rt \<noteq> 0 \<and> q_max_deliveries q \<noteq> 0 \<and>
              (get_queue s1 qid = Some q \<or> get_queue s1 qid = Some (remove_message q r)))"
        proof (cases "over_limit q m")
          case True
          then have "q_max_deliveries q \<noteq> 0" by (simp add: over_limit_def)
          moreover have "dead_letter_locked s qid r False False [qid] = (rt, s1)" using dl True by simp
          ultimately show ?thesis using dead_letter_source [OF p(1,2) Some] p(2) by metis
        qed (use dl p(1,2) in simp)
        note e1 = consume_batch_scan.simps(2) [of r rs s qid now vis ow mono_at mx delayed picked,
            unfolded p(2) Some option.case dl prod.case]
        have dv: "m_state m = MESSAGE_READY \<and> m_sched m \<le> now" using del by (simp add: deliverable_def)
        note e2 = e1 [unfolded if_not_P [OF room] if_P [OF dv]]
        have tg1: "s_next_delivery_tag s1 = s_next_delivery_tag s" using evolves_tag c by blast
        have gr1: "grows s s1" using evolves_grows c by blast
        show ?thesis
        proof (cases "rt = 0")
          case False
          have e3: "consume_batch_scan (r # rs) s qid now vis ow mono_at mx delayed picked =
            consume_batch_scan rs s1 qid now vis ow mono_at mx delayed picked" unfolding e2 if_P [OF False] ..
          obtain q1 where q1: "get_queue s1 qid = Some q1" "static q1 = static q" "q1 = q \<or> q1 = remove_message q r"
            and lim: "q_max_deliveries q1 \<noteq> 0"
            using c False by (auto simp: static_eq)
          have D: "x \<in> set (refs (q_msgs q1)) \<and> x \<notin> set rs" if "delayed = Some x" for x
            using p(4) [OF that] q1(3) by force
          have "batch_scanned s1 qid q1 (mx - length picked) (consume_batch_scan rs s1 qid now vis ow mono_at mx delayed picked)"
            by (rule Cons.IH [OF _ q1(1) dr(1) D]) (use c lim p(6) tg1 in auto)
          then show ?thesis unfolding e3 by (rule batch_scanned_step [OF _ gr1 q1(2)]) (simp add: tg1)
        next
          case True
          obtain ok2 s2 where a2: "alloc s1 = (ok2, s2)" by (rule prod.exhaust)
          note f2 = alloc_frame [OF a2]
          note fd2 = frameD [OF f2]
          have ok2: "store_ok s2" and g2: "get_queue s2 qid = Some q" and tg2: "s_next_delivery_tag s2 = s_next_delivery_tag s"
            using c True fd2 tg1 by auto
          have gr2: "grows s s2" by (rule grows_trans [OF gr1 evolves_grows [OF frame_evolves [OF f2]]])
          have nt: "\<not> rt \<noteq> 0" using True by simp
          note e3 = e2 [unfolded if_not_P [OF nt] a2 prod.case]
          show ?thesis
          proof (cases ok2)
            case False
            have z: "batch_scanned s2 qid q (mx - length picked) (False, delayed, picked, s2)"
              using p(4,5) by (intro batch_scanned_end [OF ok2 g2]) auto
            have "batch_scanned s qid q (mx - length picked) (False, delayed, picked, s2)"
              by (rule batch_scanned_step [OF z gr2 refl]) (simp add: tg2)
            then show ?thesis unfolding e3 using False by simp
          next
            case a: True
            obtain tag s3 where n: "next_tag s2 = (tag, s3)" by (rule prod.exhaust)
            obtain mem s4 where ai: "alloc_index s3 = (mem, s4)" by (rule prod.exhaust)
            let ?dl = "mono_at (length picked) + (if vis \<noteq> 0 then vis else 30000)"
            let ?s5 = "upd_queue s4 qid (\<lambda>q. deliver_message mem q r ?dl ow tag)"
            let ?out = "no_message\<lparr>o_id := m_id m, o_tag := tag, o_data := m_data m,
                                o_count := m_deliveries m + 1, o_redelivered := (m_deliveries m + 1 > 1)\<rparr>"
            have lt: "unat (s_next_delivery_tag s2) + 1 < 2 ^ 64" using p(6) room tg2 by simp
            then have u: "unat (s_next_delivery_tag s2 + 1) = unat (s_next_delivery_tag s2) + 1"
              by (simp add: unat_word_ariths)
            then have nt2: "s_next_delivery_tag s2 + 1 \<noteq> 0" by (metis add_is_0 unat_0 zero_neq_one)
            have st: "m_state m = MESSAGE_READY" using dv by simp
            note ds1 = deliver_step(3) [OF ok2 g2 Some st nt2 n ai]
            note ds2 = deliver_step(4-6) [OF ok2 g2 Some st nt2 n ai, where dl = ?dl and ow = ow]
            have e4: "consume_batch_scan (r # rs) s qid now vis ow mono_at mx delayed picked =
                consume_batch_scan rs ?s5 qid now vis ow mono_at mx delayed (picked @ [(r, ?out)])"
              unfolding e3 using a by (simp add: n ai Let_def)
            have tg5: "unat (s_next_delivery_tag ?s5) = unat (s_next_delivery_tag s) + 1" using ds1 u tg2 by simp
            have S: "scan_at (deliver_message True q r ?dl ow tag) rs delayed (picked @ [(r, ?out)])" if "q_max_deliveries q = 0"
              using p(5) that scan_at_deliver by blast
            have D: "x \<in> set (refs (q_msgs (deliver_message True q r ?dl ow tag))) \<and> x \<notin> set rs" if "delayed = Some x" for x
              using p(4) [OF that] by simp
            have "batch_scanned ?s5 qid (deliver_message True q r ?dl ow tag) (mx - length (picked @ [(r, ?out)]))
                (consume_batch_scan rs ?s5 qid now vis ow mono_at mx delayed (picked @ [(r, ?out)]))"
              by (rule Cons.IH [OF ds2(1,3) dr(1) D]) (use S tg5 p(6) room in auto)
            then show ?thesis unfolding e4
              by (rule batch_scanned_step) (use grows_trans [OF gr2 ds2(2)] tg5 room in simp_all)
          qed
        qed
      qed
    qed
  qed
qed

lemma frame_log_deliveries: "log_deliveries s q picked = (rc, s') \<Longrightarrow> frame s s'"
  by (auto simp: log_deliveries_def split: if_splits prod.splits dest!: alloc_frame append_batch_frame intro: frame_trans)

text \<open>The hint that the batch leaves is a message of the list, with only in-flight ones before it.\<close>

lemma batch_hint_mem:
  assumes "\<And>d. delayed = Some d \<Longrightarrow> d \<in> set (refs (q_msgs q))" and "batch_hint q delayed picked = Some h"
  shows "h \<in> set (refs (q_msgs q))"
proof (cases delayed)
  case None
  let ?ms = "if picked = [] then msgs_from q (q_ready_hint q) else tl (msgs_from q (Some (fst (last picked))))"
  have "h \<in> set (refs ?ms)" using assms(2) None advance_mem by (simp add: batch_hint_def)
  moreover have "set ?ms \<subseteq> set (q_msgs q)"
  proof -
    have "x \<in> set (tl ys) \<Longrightarrow> x \<in> set ys" for x :: message and ys by (cases ys) auto
    then show ?thesis by (auto simp: msgs_from_def split: if_splits option.splits dest: set_dropWhileD)
  qed
  ultimately show ?thesis by auto
qed (use assms in \<open>simp add: batch_hint_def\<close>)

lemma msgs_from_mem:
  assumes "distinct (refs (q_msgs q))" and "q_msgs q = pre @ suf" and "r \<in> set (refs pre)"
  obtains as x bs where "pre = as @ x # bs" "m_ref x = r" "msgs_from q (Some r) = x # bs @ suf"
proof -
  obtain x where x: "x \<in> set pre" "m_ref x = r" using assms(3) by auto
  obtain as bs where p: "pre = as @ x # bs" using split_list [OF x(1)] by auto
  have "msgs_from q (Some (m_ref x)) = x # bs @ suf"
    by (rule msgs_from_split [of as]) (use assms(1,2) p in simp_all)
  then show ?thesis using that p x(2) by simp
qed

lemma batch_hint_tight:
  assumes d: "distinct (refs (q_msgs q))" and ht: "hint_tight q" and qo: "queue_ok q" and sd: "scan_done q delayed picked"
  shows "all_before (\<lambda>m. m_state m = MESSAGE_INFLIGHT) (q_msgs q) (batch_hint q delayed picked)"
proof -
  let ?I = "\<lambda>m. m_state m = MESSAGE_INFLIGHT"
  from sd obtain rs where "scan_at q rs delayed picked" by (auto simp: scan_done_def)
  then show ?thesis unfolding scan_at_def
  proof (elim exE conjE)
    fix pre suf assume sp: "q_msgs q = pre @ suf" "refs suf = rs"
      "case delayed of None \<Rightarrow> \<forall>m \<in> set pre. ?I m | Some d \<Rightarrow> all_before ?I (q_msgs q) (Some d)"
      "picked \<noteq> [] \<longrightarrow> fst (last picked) \<in> set (refs pre)"
    show ?thesis
    proof (cases delayed)
      case (Some x)
      then show ?thesis using sp(3) by (simp add: batch_hint_def)
    next
      case None
      have I: "\<forall>m \<in> set pre. ?I m" using sp(3) None by simp
      show ?thesis
      proof (cases "picked = []")
        case True
        show ?thesis
        proof (cases "q_ready_hint q")
          case None
          then show ?thesis using True \<open>delayed = None\<close> ht
            by (simp add: batch_hint_def hint_tight_def msgs_from_def ready_hint_advance_def)
        next
          case (Some h)
          obtain p2 where p2: "q_msgs q = p2 @ msgs_from q (Some h)" "\<forall>m \<in> set p2. ?I m"
            by (rule hint_split [OF qo ht Some])
          have "all_before ?I (p2 @ msgs_from q (Some h)) (ready_hint_advance (msgs_from q (Some h)))"
            by (rule all_before_prefix [OF p2(2) advance_all_before])
          then show ?thesis using True None Some p2(1) by (simp add: batch_hint_def)
        qed
      next
        case False
        then have "fst (last picked) \<in> set (refs pre)" using sp(4) by simp
        then obtain as x bs where x: "pre = as @ x # bs" "m_ref x = fst (last picked)"
          "msgs_from q (Some (fst (last picked))) = x # bs @ suf" by (rule msgs_from_mem [OF d sp(1)])
        have "all_before ?I ((as @ [x]) @ (bs @ suf)) (ready_hint_advance (bs @ suf))"
          by (rule all_before_prefix [OF _ advance_all_before]) (use I x(1) in auto)
        then show ?thesis using False None x(1,3) sp(1) by (simp add: batch_hint_def)
      qed
    qed
  qed
qed

lemma queue_consume_batch_ok:
  assumes ok: "store_ok s" and nt: "unat (s_next_delivery_tag s) + mx < 2 ^ 64"
    and e: "queue_consume_batch s name vis ow mx now t mono_at = (rc, outs, s')"
  shows "store_ok s'" "grows s s'" "unat (s_next_delivery_tag s') \<le> unat (s_next_delivery_tag s) + mx"
proof -
  have "store_ok s' \<and> grows s s' \<and> unat (s_next_delivery_tag s') \<le> unat (s_next_delivery_tag s) + mx"
  proof (cases "name = [] \<or> mx = 0 \<or> find_queue s name = None")
    case True
    then have "s' = s" using e by (auto simp: queue_consume_batch_def split: if_splits)
    then show ?thesis using ok evolves_grows by simp
  next
    case False
    then obtain q0 where q0: "find_queue s name = Some q0" by auto
    let ?id = "q_lock_id q0" let ?s1 = "reap_queue_locked s ?id now t False [?id]"
    obtain q K where r: "store_ok ?s1" "evolves s ?s1" "keeps (set [?id] - {?id}) s ?s1" "get_queue ?s1 ?id = Some q"
      "static q = static q0" "q_msgs q = reaped (set (refs (q_msgs q0))) K now t (q_msgs q0)"
      "K \<subseteq> set (refs (q_msgs q0))" "q_dlq_name q0 = [] \<longrightarrow> K = {}"
      by (rule reap_queue_ok [OF ok find_queue_get [OF ok q0]])
    have tg1: "s_next_delivery_tag ?s1 = s_next_delivery_tag s" by (rule evolves_tag [OF r(2)])
    have gr1: "grows s ?s1" by (rule evolves_grows [OF r(2)])
    have nn: "\<not> (name = [] \<or> mx = 0)" using False by simp
    note e1 = e [unfolded queue_consume_batch_def if_not_P [OF nn] q0 option.case Let_def r(4)]
    show ?thesis
    proof (cases "q_ready_hint q")
      case None
      then have "s' = ?s1" using e1 by simp
      then show ?thesis using r(1) gr1 tg1 by simp
    next
      case (Some h)
      then have hn: "\<not> q_ready_hint q = None" by simp
      obtain ok2 s2 where a: "alloc ?s1 = (ok2, s2)" by (rule prod.exhaust)
      note f2 = alloc_frame [OF a]
      note e2 = e1 [unfolded if_not_P [OF hn] a prod.case]
      have s2: "store_ok s2" "get_queue s2 ?id = Some q" "s_next_delivery_tag s2 = s_next_delivery_tag s"
        using frameD [OF f2] r(1,4) tg1 by simp_all
      have gr2: "grows s s2" by (rule grows_trans [OF gr1 evolves_grows [OF frame_evolves [OF f2]]])
      show ?thesis
      proof (cases ok2)
        case False
        then have "s' = s2" using e2 by simp
        then show ?thesis using s2 gr2 by simp
      next
        case True
        then have no: "\<not> \<not> ok2" by simp
        obtain ok3 dly picked s3 where sc: "consume_batch_scan (refs (msgs_from q (q_ready_hint q))) s2 ?id now vis ow mono_at mx None []
            = (ok3, dly, picked, s3)" by (rule prod_cases4)
        have qo: "queue_ok q" by (rule get_queue_ok [OF r(1,4)])
        then have d: "distinct (refs (q_msgs q))" by (simp add: queue_ok_def)
        then have dd: "distinct (refs (msgs_from q (q_ready_hint q)))" unfolding Some
          by (auto simp: msgs_from_def distinct_map intro: inj_on_subset dest: set_dropWhileD)
        have start: "scan_at q (refs (msgs_from q (q_ready_hint q))) None []" if z: "q_max_deliveries q = 0"
        proof -
          have ht: "hint_tight q" using get_queue_in [OF r(1,4)] z by (simp add: queue_in_def)
          obtain pre where pre: "q_msgs q = pre @ msgs_from q (Some h)" "\<forall>m \<in> set pre. m_state m = MESSAGE_INFLIGHT"
            by (rule hint_split [OF qo ht Some])
          then show ?thesis unfolding scan_at_def Some
            by (intro exI [of _ pre] exI [of _ "msgs_from q (Some h)"]) simp
        qed
        have "batch_scanned s2 ?id q (mx - length ([] :: (nat \<times> queue_message) list)) (ok3, dly, picked, s3)"
          unfolding sc [symmetric] by (rule consume_batch_scan_ok [OF s2(1,2) dd]) (use start nt s2(3) in auto)
        then obtain q3 where q3: "store_ok s3" "grows s2 s3" "get_queue s3 ?id = Some q3" "static q3 = static q"
          "\<forall>d. dly = Some d \<longrightarrow> d \<in> set (refs (q_msgs q3))" "q_max_deliveries q = 0 \<longrightarrow> scan_done q3 dly picked"
          "unat (s_next_delivery_tag s3) \<le> unat (s_next_delivery_tag s2) + mx"
          unfolding batch_scanned_def prod.case list.size diff_zero by blast
        have gr3: "grows s s3" by (rule grows_trans [OF gr2 q3(2)])
        have tg3: "unat (s_next_delivery_tag s3) \<le> unat (s_next_delivery_tag s) + mx" using q3(7) s2(3) by simp
        let ?f = "\<lambda>q. q\<lparr>q_ready_hint := batch_hint q dly picked\<rparr>"
        let ?s4 = "upd_queue s3 ?id ?f"
        have qi: "queue_in s3 q3" by (rule get_queue_in [OF q3(1,3)])
        then have qo3: "queue_ok q3" "distinct (refs (q_msgs q3))" by (simp_all add: queue_in_def queue_ok_def)
        have "queue_in s3 (?f q3)"
        proof (rule queue_in_upd_hint [OF qi])
          show "x \<in> set (refs (q_msgs q3))" if "batch_hint q3 dly picked = Some x" for x
            by (rule batch_hint_mem [OF _ that]) (use q3(5) in blast)
          show "all_before (\<lambda>m. m_state m = MESSAGE_INFLIGHT) (q_msgs q3) (batch_hint q3 dly picked)" if z: "q_max_deliveries q3 = 0"
            using batch_hint_tight [OF qo3(2) _ qo3(1)] qi q3(4,6) z by (simp add: queue_in_def static_eq)
        qed
        then have ok4: "store_ok ?s4"
          by (intro store_ok_upd_static [OF q3(1)]) (use q3(3) in \<open>simp_all add: static_eq\<close>)
        have gr4: "grows s ?s4" by (rule grows_trans [OF gr3]) (intro evolves_grows upd_evolves, simp add: static_eq)
        obtain rc5 s5 where l: "log_deliveries ?s4 q picked = (rc5, s5)" by (rule prod.exhaust)
        note f5 = frame_log_deliveries [OF l]
        obtain rc6 s6 where w: "(if rc5 = 0 \<and> picked \<noteq> [] \<and> q_durable q then finish_durable s5 (w_seq (s_wal ?s1))
                          else (rc5, s5)) = (rc6, s6)" by (rule prod.exhaust)
        have f6: "frame ?s4 s6" using f5 w by (auto split: if_splits dest: finish_durable_frame intro: frame_trans)
        have "s' = s3 \<or> s' = s6"
          using e2 [unfolded if_not_P [OF no] sc prod.case l w] by (auto split: if_splits)
        then show ?thesis
          using q3(1) gr3 tg3 frameD [OF f6] ok4 grows_trans [OF gr4 evolves_grows [OF frame_evolves [OF f6]]]
          by (elim disjE) simp_all
      qed
    qed
  qed
  then show "store_ok s'" "grows s s'" "unat (s_next_delivery_tag s') \<le> unat (s_next_delivery_tag s) + mx" by simp_all
qed

subsection \<open>Transactions and job commits\<close>

lemma tx_capacity_ok:
  "store_ok s \<Longrightarrow> tx_capacity ts s now mono_at i = (ok, s') \<Longrightarrow> store_ok s' \<and> evolves s s'"
proof (induction ts arbitrary: s i)
  case (Cons t ts)
  let ?s1 = "reap_queue_locked s t now (mono_at i) True []"
  show ?case
  proof (cases "get_queue s t")
    case None
    then have "?s1 = s" by (simp add: reap_queue_locked_def)
    then show ?thesis using Cons.prems None by (simp add: Let_def)
  next
    case (Some q)
    obtain q1 where r: "store_ok ?s1" "evolves s ?s1" "get_queue ?s1 t = Some q1"
      by (rule reap_queue_ok [OF Cons.prems(1) Some])
    have "s' = ?s1 \<or> tx_capacity ts ?s1 now mono_at (Suc i) = (ok, s')"
      using Cons.prems(2) r(3) by (auto simp: Let_def split: if_splits)
    then show ?thesis using r(1,2) Cons.IH [OF r(1)] evolves_trans [OF r(2)] by blast
  qed
qed simp

lemma tx_reserve_frame: "tx_reserve ts s = (res, s') \<Longrightarrow> frame s s'"
proof (induction ts arbitrary: s s' res)
  case (Cons t ts)
  show ?case
  proof (cases "get_queue s t")
    case None
    then show ?thesis using Cons.prems by simp
  next
    case (Some q)
    obtain ok s1 where a: "alloc s = (ok, s1)" by (rule prod.exhaust)
    note f = alloc_frame [OF a]
    obtain res2 s2 where r: "tx_reserve ts (s1\<lparr>s_next_id := s_next_id s1 + 1\<rparr>) = (res2, s2)" by (rule prod.exhaust)
    have "frame s1 s2" using Cons.IH [OF r] by (simp add: frame_def)
    then have "frame s s2" by (rule frame_trans [OF f])
    then show ?thesis using Cons.prems Some a r f by (auto split: if_splits option.splits)
  qed
qed simp

lemma queue_tx_prepare_ok:
  assumes ok: "store_ok s" and e: "queue_tx_prepare s ex key data tid now mono_at = (res, s')"
  shows "store_ok s'" "evolves s s'"
proof -
  have "s' = s \<or> (\<exists>ts b s1. tx_capacity ts s now mono_at 0 = (b, s1) \<and> frame s1 s')"
    using e unfolding queue_tx_prepare_def
    by (auto simp: Let_def split: if_splits option.splits prod.splits
        dest!: alloc_frame append_store_frame tx_reserve_frame intro!: exI) (simp_all add: frame_def)
  then have "store_ok s' \<and> evolves s s'"
  proof (elim disjE exE conjE)
    fix ts b s1 assume c: "tx_capacity ts s now mono_at 0 = (b, s1)" and f: "frame s1 s'"
    show ?thesis
      using tx_capacity_ok [OF ok c] frameD(1) [OF f] evolves_trans [OF _ frame_evolves [OF f]] by blast
  qed (use ok in simp)
  then show "store_ok s'" "evolves s s'" by simp_all
qed

lemma materialize_ok:
  assumes "store_ok s"
  shows "store_ok (materialize_target s tx t) \<and> evolves s (materialize_target s tx t)"
proof -
  have "materialize_target s tx t = s \<or>
      (\<exists>qid rc. append_message s qid (t_msg_id t) (tx_expires tx) (tx_data tx) = (rc, materialize_target s tx t))"
    by (auto simp: materialize_target_def split: option.splits) (metis prod.collapse)+
  then show ?thesis using assms append_message_ok(1,2) by (metis evolves_refl)
qed

lemma materialize_all_ok:
  "store_ok s \<Longrightarrow> store_ok (foldl (\<lambda>s t. materialize_target s tx t) s ts) \<and>
      evolves s (foldl (\<lambda>s t. materialize_target s tx t) s ts)"
proof (induction ts arbitrary: s)
  case (Cons t ts)
  note m = materialize_ok [OF Cons.prems, of tx t]
  show ?case using Cons.IH [of "materialize_target s tx t"] m evolves_trans [OF conjunct2 [OF m]] by simp
qed simp

lemma tx_materialize_ok: "store_ok s \<Longrightarrow> store_ok (tx_materialize_locked s tx) \<and> evolves s (tx_materialize_locked s tx)"
  by (simp add: tx_materialize_locked_def materialize_all_ok)

lemma queue_tx_commit_ok:
  assumes ok: "store_ok s" and e: "queue_tx_commit s tx = (rc, n, s')"
  shows "store_ok s'" "evolves s s'"
proof -
  obtain rc1 s1 where a: "append_store s (commit_record tx) True False = (rc1, s1)" by (rule prod.exhaust)
  note f = append_store_frame [OF a]
  have ok1: "store_ok s1" using ok frameD(1) [OF f] by simp
  have "s' = s1 \<or> s' = tx_materialize_locked s1 tx"
    using e a by (auto simp: queue_tx_commit_def split: if_splits)
  then show "store_ok s'" "evolves s s'"
    using ok1 tx_materialize_ok [OF ok1] frame_evolves [OF f] evolves_trans by auto
qed

lemma queue_tx_resolve_ok:
  assumes ok: "store_ok s" and e: "queue_tx_resolve s tid c = (rc, s')"
  shows "store_ok s'" "evolves s s'"
proof -
  have "store_ok s' \<and> evolves s s'"
  proof (cases "take_pending tid (s_tx_pending s)")
    case None
    then show ?thesis using e ok by (simp add: queue_tx_resolve_def)
  next
    case (Some p)
    obtain tx rest where p: "p = (tx, rest)" by (rule prod.exhaust)
    let ?s1 = "s\<lparr>s_tx_pending := rest\<rparr>"
    obtain rc1 s2 where a: "append_store ?s1 (commit_record tx) True False = (rc1, s2)" by (rule prod.exhaust)
    have f: "frame s s2" using append_store_frame [OF a] by (simp add: frame_def)
    have ok2: "store_ok s2" using ok frameD(1) [OF f] by simp
    have "s' = ?s1 \<or> s' = s2\<lparr>s_tx_pending := tx # s_tx_pending s2\<rparr> \<or> s' = tx_materialize_locked s2 tx"
      using e Some p a by (auto simp: queue_tx_resolve_def Let_def split: if_splits)
    then show ?thesis
      using ok ok2 tx_materialize_ok [OF ok2] frame_evolves [OF f] evolves_trans by (elim disjE) auto
  qed
  then show "store_ok s'" "evolves s s'" by simp_all
qed

lemma commit_apply_ok:
  assumes ok: "store_ok s" and e: "commit_apply s in_q out_q r oid data = (b, s')"
  shows "store_ok s'" "evolves s s'"
proof -
  obtain rc s1 where a: "(case out_q of None \<Rightarrow> (0, s) | Some q \<Rightarrow> append_message s (q_lock_id q) oid 0 data) = (rc, s1)"
    by (rule prod.exhaust)
  have s1: "store_ok s1" "evolves s s1"
    using ok a append_message_ok(1,2) [OF ok] by (auto split: option.splits)
  have "s' = s1\<lparr>s_wal := wal_set_failed (s_wal s1)\<rparr> \<or> s' = upd_queue s1 (q_lock_id in_q) (\<lambda>q. remove_message q r)"
    using e a by (auto simp: commit_apply_def split: if_splits)
  then show "store_ok s'" "evolves s s'"
    using s1 upd_remove_ok [OF s1(1)] evolves_trans [OF s1(2) upd_evolves [of "\<lambda>q. remove_message q r"]] by auto
qed

lemma queue_job_commit_ok:
  assumes ok: "store_ok s" and e: "queue_job_commit s spec t t2 j = (rc, st, rp, j', s')"
  shows "store_ok s'" "evolves s s'"
proof -
  have "frame s s' \<or> (\<exists>s3 in_q out_q r oid data b. frame s s3 \<and> commit_apply s3 in_q out_q r oid data = (b, s'))"
    using e unfolding queue_job_commit_def
    by (auto simp: Let_def frame_def split: if_splits option.splits prod.splits recheck_result.splits sum.splits bool.splits
        dest!: alloc_frame append_store_frame)
  then have "store_ok s' \<and> evolves s s'"
  proof (elim disjE exE conjE)
    fix s3 in_q out_q r oid data b
    assume f: "frame s s3" and c: "commit_apply s3 in_q out_q r oid data = (b, s')"
    have ok3: "store_ok s3" using ok frameD(1) [OF f] by simp
    show ?thesis using commit_apply_ok [OF ok3 c] evolves_trans [OF frame_evolves [OF f]] by blast
  qed (use ok frameD(1) frame_evolves in simp)
  then show "store_ok s'" "evolves s s'" by simp_all
qed

end
