(* ===== verification/Engine_Calls.thy ===== *)
theory Engine_Calls
  imports Calls_Inv
begin

text \<open>
  The queue engine as a transition system: every operation that changes the state is a rule of
  \<open>engine_step\<close>, with all its arguments and answers free, and \<open>engine_reach\<close> are the states that
  a history from the opening of an empty store reaches.  The number counts the delivery tags
  that the history may have used.  The job engine \<open>'j\<close> changes only in the job commit.
\<close>

inductive engine_step :: "store \<Rightarrow> 'j \<Rightarrow> nat \<Rightarrow> store \<Rightarrow> 'j \<Rightarrow> bool" where
  do_declare: "queue_declare_ex s name dur mx dlq md = (rc, s') \<Longrightarrow> engine_step s j 0 s' j"
| do_publish: "queue_publish s name data ttl now t = (rc, mid, s') \<Longrightarrow> engine_step s j 0 s' j"
| do_consume: "queue_consume_for_owner s name vis ow now t t2 = (rc, out, s') \<Longrightarrow> engine_step s j 1 s' j"
| do_consume_as: "queue_consume_for_consumer s name cons vis now t t2 = (rc, out, s') \<Longrightarrow> engine_step s j 1 s' j"
| do_ack: "queue_ack_for_owner s name tag ow = (rc, s') \<Longrightarrow> engine_step s j 0 s' j"
| do_nack: "queue_nack_for_owner_delay s name tag ow rq delay now = (rc, s') \<Longrightarrow> engine_step s j 0 s' j"
| do_purge: "queue_purge_checked s name erev cond = (rc, k, s') \<Longrightarrow> engine_step s j 0 s' j"
| do_delete: "queue_delete_if_revision s name erev = (rc, k, s') \<Longrightarrow> engine_step s j 0 s' j"
| do_reap: "queue_reap s now t = s' \<Longrightarrow> engine_step s j 0 s' j"
| do_requeue_owner: "queue_requeue_owner s ow = s' \<Longrightarrow> engine_step s j 0 s' j"
| do_register: "queue_consumer_register s name = (res, s') \<Longrightarrow> engine_step s j 0 s' j"
| do_unregister: "queue_consumer_unregister s name = (rc, s') \<Longrightarrow> engine_step s j 0 s' j"
| do_publish_batch: "queue_publish_batch s name bodies now t = (rc, ids, s') \<Longrightarrow> engine_step s j 0 s' j"
| do_consume_batch: "queue_consume_batch s name vis ow mx now t mono_at = (rc, outs, s') \<Longrightarrow> engine_step s j mx s' j"
| do_ack_batch: "queue_ack_batch s name ow fb tags = (rc, k, s') \<Longrightarrow> engine_step s j 0 s' j"
| do_nack_batch: "queue_nack_batch s name ow fb tags rq = (rc, k, s') \<Longrightarrow> engine_step s j 0 s' j"
| do_ex_declare: "exchange_declare s name dur type ae = (rc, s') \<Longrightarrow> engine_step s j 0 s' j"
| do_ex_bind: "exchange_bind s ex queue key = (rc, s') \<Longrightarrow> engine_step s j 0 s' j"
| do_ex_unbind: "exchange_unbind_checked s ex queue key erev cond = (rc, s') \<Longrightarrow> engine_step s j 0 s' j"
| do_ex_delete: "exchange_delete_if_revision s name erev = (rc, s') \<Longrightarrow> engine_step s j 0 s' j"
| do_ex_alternate: "exchange_set_alternate_if_revision s name alt erev = (rc, s') \<Longrightarrow> engine_step s j 0 s' j"
| do_ex_publish: "exchange_publish s ex key data ttl now mono_at = (rc, k, s') \<Longrightarrow> engine_step s j 0 s' j"
| do_tx_prepare: "queue_tx_prepare s ex key data tid now mono_at = (res, s') \<Longrightarrow> engine_step s j 0 s' j"
| do_tx_commit: "queue_tx_commit s tx = (rc, k, s') \<Longrightarrow> engine_step s j 0 s' j"
| do_tx_resolve: "queue_tx_resolve s tid committed = (rc, s') \<Longrightarrow> engine_step s j 0 s' j"
| do_job_complete: "queue_job_commit s spec t t2 j = (rc, st, rp, j', s') \<Longrightarrow> engine_step s j 0 s' j'"
| do_job_append: "queue_job_record_append_sync s op name rid aux data = (rc, s') \<Longrightarrow> engine_step s j 0 s' j"
| do_checkpoint: "queue_checkpoint_body e h j s force = (rc, named, s') \<Longrightarrow> engine_step s j 0 s' j"

inductive engine_reach :: "store_env \<Rightarrow> nat \<Rightarrow> store \<Rightarrow> 'j \<Rightarrow> bool" where
  init: "engine_reach env 0 (store_init b w env) j"
| step: "engine_reach env n s j \<Longrightarrow> engine_step s j k s' j' \<Longrightarrow> engine_reach env (n + k) s' j'"

lemma create_exchange_frame: "create_exchange s name dur type ae = (ok, s') \<Longrightarrow> frame s s'"
  by (auto simp: create_exchange_def split: prod.splits if_splits dest: allocs_frame)

lemma add_binding_frame: "add_binding_locked s x queue key = (rc, s') \<Longrightarrow> frame s s'"
proof -
  assume e: "add_binding_locked s x queue key = (rc, s')"
  obtain ok s1 where a: "alloc_binding s = (ok, s1)" by (rule prod.exhaust)
  have f: "frame s s1"
    using a by (auto simp: alloc_binding_def split: prod.splits if_splits dest!: alloc_frame intro: frame_trans)
  have "s' = s \<or> s' = s1 \<or> (\<exists>f. s' = upd_exchange s1 (x_name x) f)"
    using e a by (auto simp: add_binding_locked_def split: if_splits)
  then show ?thesis using f frame_trans [OF f frame_upd_exchange] by auto
qed

lemma exchange_declare_frame: "exchange_declare s name dur type ae = (rc, s') \<Longrightarrow> frame s s'"
  unfolding exchange_declare_def
  by (auto split: option.splits prod.splits if_splits dest!: append_store_frame create_exchange_frame
      intro: frame_trans)

lemma exchange_bind_frame: "exchange_bind s ex queue key = (rc, s') \<Longrightarrow> frame s s'"
  unfolding exchange_bind_def Let_def
  by (auto split: option.splits prod.splits if_splits dest!: append_store_frame add_binding_frame
      intro: frame_trans frame_trans [OF _ frame_upd_exchange])

lemma exchange_unbind_frame: "exchange_unbind_checked s ex queue key erev cond = (rc, s') \<Longrightarrow> frame s s'"
  unfolding exchange_unbind_checked_def Let_def
  by (auto split: option.splits prod.splits if_splits dest!: append_store_frame
      intro: frame_trans [OF _ frame_upd_exchange] frame_upd_exchange)

lemma exchange_delete_frame: "exchange_delete_if_revision s name erev = (rc, s') \<Longrightarrow> frame s s'"
  unfolding exchange_delete_if_revision_def
  by (auto split: option.splits prod.splits if_splits dest!: append_store_frame)

lemma exchange_alternate_frame: "exchange_set_alternate_if_revision s name alt erev = (rc, s') \<Longrightarrow> frame s s'"
  unfolding exchange_set_alternate_if_revision_def Let_def
  by (auto split: option.splits prod.splits if_splits dest!: append_store_frame alloc_frame
      intro: frame_trans frame_trans [OF _ frame_upd_exchange])

lemma checkpoint_frame: "frame s (snd (snd (queue_checkpoint_body e h j s force)))"
  by (auto simp: queue_checkpoint_body_def Let_def frame_def split: prod.splits option.splits)

text \<open>One call: the invariant, and the tags used up.\<close>

definition tag_step :: "store \<Rightarrow> nat \<Rightarrow> store \<Rightarrow> bool" where
  "tag_step s n s' \<longleftrightarrow> store_ok s' \<and> unat (s_next_delivery_tag s') \<le> unat (s_next_delivery_tag s) + n"

lemma tag_step_evolves: "store_ok s' \<and> evolves s s' \<Longrightarrow> tag_step s 0 s'"
  using evolves_tag [of s s'] by (simp add: tag_step_def)

lemma tag_step_frame: "store_ok s \<Longrightarrow> frame s s' \<Longrightarrow> tag_step s 0 s'"
  by (rule tag_step_evolves) (simp add: frameD frame_evolves)

lemma tag_succ:
  assumes "unat t + 1 < 2 ^ 64"
  shows "t + 1 \<noteq> (0 :: u64)"
proof -
  have "unat (t + 1) = unat t + 1" using assms by (simp add: unat_word_ariths)
  then show ?thesis by (metis add_is_0 unat_0 zero_neq_one)
qed

lemma store_init_ok: "\<forall>n. se_calloc env n \<Longrightarrow> store_ok (store_init b w env)"
  by (simp add: store_ok_def store_init_def live_names_def)

lemma consume_as_cases:
  "queue_consume_for_consumer s name cons vis now t t2 = (rc, out, s') \<Longrightarrow>
     s' = s \<or> (\<exists>ow. queue_consume_for_owner s name vis ow now t t2 = (rc, out, s'))"
  by (auto simp: queue_consume_for_consumer_def split: if_splits option.splits)

lemma consume_tag_step:
  assumes "store_ok s" and "unat (s_next_delivery_tag s) + 1 < 2 ^ 64"
    and "queue_consume_for_owner s name vis ow now t t2 = (rc, out, s')"
  shows "tag_step s 1 s'"
  using consume_ok [OF assms(1) tag_succ [OF assms(2)] assms(3)] by (simp add: tag_step_def)

lemma ack_batch_cases:
  "queue_ack_batch s name ow fb tags = (rc, k, s') \<Longrightarrow>
     s' = s \<or> (\<exists>qid. ack_nack_batch_locked s qid ow fb tags False = (rc, k, s'))"
  "queue_nack_batch s name ow fb tags rq = (rc, k, s') \<Longrightarrow>
     s' = s \<or> (\<exists>qid. ack_nack_batch_locked s qid ow fb tags rq = (rc, k, s'))"
  by (auto simp: queue_ack_batch_def queue_nack_batch_def split: if_splits option.splits)

lemma batch_tag_step:
  "store_ok s \<Longrightarrow> s' = s \<or> (\<exists>qid. ack_nack_batch_locked s qid ow fb tags rq = (rc, k, s')) \<Longrightarrow> tag_step s 0 s'"
  by (rule tag_step_evolves) (use ack_nack_batch_ok in auto)

lemma engine_step_ok:
  assumes "engine_step s j n s' j'" and "store_ok s" and "unat (s_next_delivery_tag s) + n < 2 ^ 64"
  shows "tag_step s n s'"
  using assms
proof (induction rule: engine_step.induct)
  case (do_consume_as s name cons vis now t t2 rc out s' j)
  then show ?case using consume_as_cases [OF do_consume_as(1)] consume_tag_step [OF do_consume_as(2,3)]
    by (auto simp: tag_step_def)
next
  case (do_delete s name erev rc k s' j)
  then show ?case using queue_delete_ok [OF do_delete(2,1)] by (simp add: tag_step_def)
next
  case (do_consume_batch s name vis ow mx now t mono_at rc outs s' j)
  then show ?case using queue_consume_batch_ok [OF do_consume_batch(2,3,1)] by (simp add: tag_step_def)
next
  case (do_reap s now t s' j)
  then show ?case using queue_reap_ok [of s now t] by (intro tag_step_evolves) simp
next
  case (do_requeue_owner s ow s' j)
  then show ?case using queue_requeue_owner_ok [of s ow] by (intro tag_step_evolves) simp
next
  case (do_ex_publish s ex key data ttl now mono_at rc k s' j)
  then show ?case using exchange_publish_cases [OF do_ex_publish(2,1)] by (intro tag_step_evolves) simp
next
  case (do_publish_batch s name bodies now t rc ids s' j)
  then show ?case using queue_publish_batch_cases [OF do_publish_batch(2,1)] by (intro tag_step_evolves) simp
next
  case do_declare
  show ?case by (rule tag_step_evolves) (rule conjI; rule queue_declare_ex_ok [OF do_declare(2,1)])
next
  case do_publish
  show ?case by (rule tag_step_evolves) (rule conjI; rule queue_publish_ok [OF do_publish(2,1)])
next
  case do_ack
  show ?case by (rule tag_step_evolves) (rule conjI; rule queue_ack_ok [OF do_ack(2,1)])
next
  case do_nack
  show ?case by (rule tag_step_evolves) (rule conjI; rule queue_nack_ok [OF do_nack(2,1)])
next
  case do_purge
  show ?case by (rule tag_step_evolves) (rule conjI; rule queue_purge_checked_ok [OF do_purge(2,1)])
next
  case do_register
  show ?case by (rule tag_step_evolves) (rule conjI; rule queue_consumer_register_ok [OF do_register(2,1)])
next
  case do_unregister
  show ?case by (rule tag_step_evolves) (rule conjI; rule queue_consumer_unregister_ok [OF do_unregister(2,1)])
next
  case do_tx_prepare
  show ?case by (rule tag_step_evolves) (rule conjI; rule queue_tx_prepare_ok [OF do_tx_prepare(2,1)])
next
  case do_tx_commit
  show ?case by (rule tag_step_evolves) (rule conjI; rule queue_tx_commit_ok [OF do_tx_commit(2,1)])
next
  case do_tx_resolve
  show ?case by (rule tag_step_evolves) (rule conjI; rule queue_tx_resolve_ok [OF do_tx_resolve(2,1)])
next
  case do_job_complete
  show ?case by (rule tag_step_evolves) (rule conjI; rule queue_job_commit_ok [OF do_job_complete(2,1)])
next
  case do_ex_declare
  show ?case by (rule tag_step_frame [OF do_ex_declare(2) exchange_declare_frame [OF do_ex_declare(1)]])
next
  case do_ex_bind
  show ?case by (rule tag_step_frame [OF do_ex_bind(2) exchange_bind_frame [OF do_ex_bind(1)]])
next
  case do_ex_unbind
  show ?case by (rule tag_step_frame [OF do_ex_unbind(2) exchange_unbind_frame [OF do_ex_unbind(1)]])
next
  case do_ex_delete
  show ?case by (rule tag_step_frame [OF do_ex_delete(2) exchange_delete_frame [OF do_ex_delete(1)]])
next
  case do_ex_alternate
  show ?case by (rule tag_step_frame [OF do_ex_alternate(2) exchange_alternate_frame [OF do_ex_alternate(1)]])
next
  case (do_consume s name vis ow now t t2 rc out s' j)
  show ?case by (rule consume_tag_step [OF do_consume(2,3,1)])
next
  case do_ack_batch
  show ?case by (rule batch_tag_step [OF do_ack_batch(2) ack_batch_cases(1) [OF do_ack_batch(1)]])
next
  case do_nack_batch
  show ?case by (rule batch_tag_step [OF do_nack_batch(2) ack_batch_cases(2) [OF do_nack_batch(1)]])
next
  case (do_job_append s op name rid aux data rc s' j)
  show ?case by (rule tag_step_frame [OF do_job_append(2) append_store_frame [OF do_job_append(1) [unfolded queue_job_record_append_sync_def]]])
next
  case (do_checkpoint e h j s force rc named s')
  have "frame s s'" using checkpoint_frame [of s e h j force] do_checkpoint(1) by simp
  then show ?case by (rule tag_step_frame [OF do_checkpoint(2)])
qed

subsection \<open>Properties\<close>

text \<open>A store for the instances: memory and locks are always available, the log is closed.\<close>

definition easy_env :: store_env where
  "easy_env = \<lparr>se_malloc = (\<lambda>_. True), se_calloc = (\<lambda>_. True), se_trylock = (\<lambda>_. True)\<rparr>"

definition closed_wal :: wal where
  "closed_wal = calm_wal\<lparr>w_fd := False\<rparr>"

definition demo_store :: store where
  "demo_store = snd (queue_declare_ex (store_init False closed_wal easy_env) [113] False 0 [] 0)"

lemma engine_reach_tags:
  assumes "engine_reach env n s j" and "\<forall>i. se_calloc env i" and "n + 1 < 2 ^ 64"
  shows "store_ok s \<and> unat (s_next_delivery_tag s) \<le> n + 1"
  using assms
proof (induction rule: engine_reach.induct)
  case (init env b w j)
  then show ?case by (simp add: store_init_ok) (simp add: store_init_def)
next
  case (step env n s j k s' j')
  then have IH: "store_ok s" "unat (s_next_delivery_tag s) \<le> n + 1" by simp_all
  have "unat (s_next_delivery_tag s) + k < 2 ^ 64" using IH(2) step.prems(2) by simp
  from engine_step_ok [OF step.hyps(2) IH(1) this] show ?case using IH(2) by (simp add: tag_step_def)
qed



end
