(* ===== verification/Engine_Props.thy ===== *)
theory Engine_Props
  imports Engine_Calls
begin

text \<open>
  What the operations on single messages do, stated on the lists of messages: the retention
  walk, consumption, acknowledgement, dead-lettering, purge and deletion.
\<close>

subsection \<open>Stores for the instances\<close>

definition one_store :: "queue \<Rightarrow> store" where
  "one_store q = (store_init False closed_wal easy_env)
     \<lparr>s_queues := [q], s_next_lock_id := 2, s_next_ref := 1, s_next_delivery_tag := 10\<rparr>"

lemma one_store_ok:
  assumes "queue_ok q" and "length (q_msgs q) \<le> 1" and "\<forall>m \<in> set (q_msgs q). m_ref m = 0 \<and> m_tag m < 10"
    and "q_lock_id q = 1" and "q_name q \<noteq> []" and "q_dlq_name q \<noteq> q_name q" and "hint_tight q"
  shows "store_ok (one_store q)"
proof -
  have "sorted_wrt (<) (refs (q_msgs q))" using assms(2) by (cases "q_msgs q") auto
  then show ?thesis
    using assms by (simp add: store_ok_def one_store_def store_init_def queue_in_def live_names_def easy_env_def)
qed

lemma one_message_sel [simp]:
  "q_lock_id one_message = 1" "q_name one_message = [113]" "q_dlq_name one_message = []" "q_durable one_message = False"
  "q_max_deliveries one_message = 0" "q_deleted one_message = False"
  by (simp_all add: one_message_def blank_queue_def)

lemma one_delivered_sel [simp]:
  "q_lock_id one_delivered = 1" "q_name one_delivered = [113]" "q_dlq_name one_delivered = []"
  "q_durable one_delivered = False" "q_max_deliveries one_delivered = 0" "q_deleted one_delivered = False"
  by (simp_all add: one_delivered_def)

lemma one_delivered_msgs:
  "q_msgs one_delivered = [(message_create 0 7 0 [104, 105])\<lparr>m_state := MESSAGE_INFLIGHT, m_sched := 30000,
     m_deliveries := 1, m_owner := 5, m_tag := 9\<rparr>]"
  by (simp add: one_delivered_def one_message_msgs delivered_def leased_def charged_def message_create_def)

lemma one_message_tight: "hint_tight one_message"
  unfolding one_message_def
  by (rule hint_tight_link [OF blank_queue_ok]) (simp_all add: hint_tight_def blank_queue_def message_create_def)

lemma ready_store_ok: "store_ok (one_store one_message)"
  by (rule one_store_ok [OF one_message_ok]) (simp_all add: one_message_msgs message_create_def one_message_tight)

lemma leased_store_ok: "store_ok (one_store one_delivered)"
proof (rule one_store_ok [OF one_delivered_ok])
  show "hint_tight one_delivered" unfolding one_delivered_def by (rule hint_tight_deliver [OF one_message_tight])
qed (simp_all add: one_delivered_msgs message_create_def)

lemma one_store_get: "q_lock_id q = Suc 0 \<Longrightarrow> get_queue (one_store q) (Suc 0) = Some q"
  by (simp add: get_queue_def one_store_def)

lemma one_store_find: "\<not> q_deleted q \<Longrightarrow> find_queue (one_store q) (q_name q) = Some q"
  by (simp add: find_queue_def one_store_def)

lemma one_store_tag [simp]: "s_next_delivery_tag (one_store q) = 10"
  by (simp add: one_store_def)

subsection \<open>The retention walk\<close>

lemma reaped_all: "reaped (m_ref ` set ms) {} now t ms = map (lapsed t) (filter (\<lambda>m. \<not> expired now m) ms)"
  unfolding reaped_def by (rule map_cong) (auto intro!: filter_cong)



subsection \<open>Consumption\<close>

text \<open>The list a consumer looks at: what the retention walk leaves.\<close>

definition visible :: "u64 \<Rightarrow> u64 \<Rightarrow> queue \<Rightarrow> message list" where
  "visible now t q = map (lapsed t) (filter (\<lambda>m. \<not> expired now m) (q_msgs q))"

lemma find_in_suffix:
  assumes "\<forall>m \<in> set pre. \<not> P m" shows "find P (pre @ ms) = find P ms"
  using assms by (induction pre) auto

lemma delivered_cong: "q_durable q = q_durable q' \<Longrightarrow> q_name q = q_name q' \<Longrightarrow> delivered q r dl ow tg = delivered q' r dl ow tg"
  by (intro ext) (simp add: delivered_def charged_def)

lemma consume_plain:
  assumes ok: "store_ok s" and nt: "s_next_delivery_tag s + 1 \<noteq> 0"
    and q0: "find_queue s name = Some q0" "q_max_deliveries q0 = 0" "q_dlq_name q0 = []"
    and e: "queue_consume_for_owner s name vis ow now t t2 = (rc, out, s')"
  obtains (none) q where "find (deliverable now) (visible now t q0) = None" "rc = 0"
      "get_queue s' (q_lock_id q0) = Some q" "q_msgs q = visible now t q0" "store_ok s'" "evolves s s'" "static q = static q0"
    | (some) m s1 q delayed where "find (deliverable now) (visible now t q0) = Some m"
      "store_ok s1" "get_queue s1 (q_lock_id q0) = Some q" "q_msgs q = visible now t q0" "static q = static q0"
      "evolves s s1" "find_msg q (m_ref m) = Some m"
      "consume_deliver s1 (q_lock_id q0) (m_ref m) delayed vis ow t2 = (rc, out, s')"
      "\<And>d. delayed = Some d \<Longrightarrow> d \<in> set (refs (q_msgs q))"
      "\<And>dl tg. all_before (\<lambda>m. m_state m = MESSAGE_INFLIGHT) (map (delivered q (m_ref m) dl ow tg) (q_msgs q))
        (next_hint (deliver_message True q (m_ref m) dl ow tg) (m_ref m) delayed)"
proof -
  let ?id = "q_lock_id q0" let ?s1 = "reap_queue_locked s ?id now t False [?id]"
  obtain q K where r: "store_ok ?s1" "evolves s ?s1" "keeps (set [?id] - {?id}) s ?s1" "get_queue ?s1 ?id = Some q"
    "static q = static q0" "q_msgs q = reaped (set (refs (q_msgs q0))) K now t (q_msgs q0)"
    "K \<subseteq> set (refs (q_msgs q0))" "q_dlq_name q0 = [] \<longrightarrow> K = {}"
    by (rule reap_queue_ok [OF ok find_queue_get [OF ok q0(1)]])
  have vis: "q_msgs q = visible now t q0" using r(6,8) q0(3) by (simp add: visible_def reaped_all)
  have mz: "q_max_deliveries q = 0" using r(5) q0(2) by (simp add: static_eq)
  have qo: "queue_ok q" by (rule get_queue_ok [OF r(1,4)])
  then have d: "distinct (refs (q_msgs q))" by (simp add: queue_ok_def)
  have ht: "hint_tight q" using get_queue_in [OF r(1,4)] mz by (simp add: queue_in_def)
  note e1 = e [unfolded queue_consume_for_owner_def q0(1) option.case Let_def r(4)]
  show ?thesis
  proof (cases "q_ready_hint q")
    case None
    then have "\<forall>m \<in> set (q_msgs q). m_state m = MESSAGE_INFLIGHT" using ht by (simp add: hint_tight_def all_before_None)
    then have "find (deliverable now) (q_msgs q) = None" by (auto simp: find_None_iff deliverable_def)
    moreover have "rc = 0" "s' = ?s1" using e1 None by simp_all
    ultimately show ?thesis using none vis r by simp
  next
    case (Some h)
    obtain pre where pre: "q_msgs q = pre @ msgs_from q (Some h)" "\<forall>m \<in> set pre. m_state m = MESSAGE_INFLIGHT"
      by (rule hint_split [OF qo ht Some])
    have fs: "find (deliverable now) (visible now t q0) = find (deliverable now) (msgs_from q (Some h))"
      unfolding vis [symmetric] by (subst pre(1)) (rule find_in_suffix, use pre(2) in \<open>auto simp: deliverable_def\<close>)
    have nl: "\<not> over_limit q x" for x using mz by (simp add: over_limit_def)
    note pl = consume_scan_plain [OF r(4) d nl pre(1), of now None]
    let ?dly = "map_option m_ref (find (\<lambda>m. m_state m = MESSAGE_READY) (takeWhile (\<lambda>m. \<not> deliverable now m) (msgs_from q (Some h))))"
    have e2: "(case map_option m_ref (find (deliverable now) (msgs_from q (Some h))) of None \<Rightarrow> (0, no_message, ?s1)
        | Some r \<Rightarrow> consume_deliver ?s1 ?id r ?dly vis ow t2) = (rc, out, s')"
      using e1 Some pl by simp
    show ?thesis
    proof (cases "find (deliverable now) (msgs_from q (Some h))")
      case None
      then show ?thesis using none [of q] e2 fs vis r by simp
    next
      case fm: (Some m)
      have mm: "m \<in> set (q_msgs q)" using find_Some_mem [OF fm] arg_cong [OF pre(1), of set] by auto
      show ?thesis
      proof (rule some [of m ?s1 q ?dly])
        show "find_msg q (m_ref m) = Some m" by (rule find_msg_mem [OF d mm])
        show "consume_deliver ?s1 ?id (m_ref m) ?dly vis ow t2 = (rc, out, s')" using e2 fm by simp
        show "x \<in> set (refs (q_msgs q))" if "?dly = Some x" for x
          using that arg_cong [OF pre(1), of set] by (auto dest!: find_Some_mem set_takeWhileD)
        show "all_before (\<lambda>m. m_state m = MESSAGE_INFLIGHT) (map (delivered q (m_ref m) dl ow tg) (q_msgs q))
          (next_hint (deliver_message True q (m_ref m) dl ow tg) (m_ref m) ?dly)" for dl tg
          by (rule consume_hint_tight [OF d pre fm refl])
      qed (use fs fm r vis in simp_all)
    qed
  qed
qed

lemma consume_deliver_mem:
  assumes "get_queue s qid = Some q" and "find_msg q r = Some m" and "\<not> q_durable q" and "\<And>i. se_malloc (s_env s) i"
    and "consume_deliver s qid r delayed vis ow t = (rc, out, s')"
  shows "rc = 1"
  using assms by (simp add: consume_deliver_def alloc_def Let_def split: prod.splits)

lemma consume_serves:
  assumes ok: "store_ok s" and nt: "s_next_delivery_tag s + 1 \<noteq> 0" and q: "find_queue s name = Some q"
    and nd: "q_max_deliveries q = 0" "q_dlq_name q = []"
    and e: "queue_consume_for_owner s name vis ow now t t2 = (rc, out, s')"
  shows "store_ok s' \<and> grows s s' \<and> (case find (deliverable now) (visible now t q) of
      None \<Rightarrow> rc = 0 \<and> evolves s s' \<and> map_option q_msgs (get_queue s' (q_lock_id q)) = Some (visible now t q)
    | Some m \<Rightarrow> rc = -1 \<and> (q_durable q \<or> (\<exists>i. \<not> se_malloc (s_env s) i)) \<or>
        rc = 1 \<and> o_id out = m_id m \<and> o_data out = m_data m \<and> o_owner out = ow \<and>
        o_tag out = s_next_delivery_tag s \<and> o_deadline out = t2 + (if vis \<noteq> 0 then vis else 30000) \<and>
        s_next_delivery_tag s' = s_next_delivery_tag s + 1 \<and> map_option q_msgs (get_queue s' (q_lock_id q)) =
          Some (map (delivered q (m_ref m) (o_deadline out) ow (o_tag out)) (visible now t q)))"
proof (rule consume_plain [OF assms])
  fix q' assume "find (deliverable now) (visible now t q) = None" "rc = 0"
    "get_queue s' (q_lock_id q) = Some q'" "q_msgs q' = visible now t q" "store_ok s'" "evolves s s'"
  then show ?thesis by (simp add: evolves_grows)
next
  fix m s1 q1 delayed
  assume f: "find (deliverable now) (visible now t q) = Some m" and s1: "store_ok s1"
    "get_queue s1 (q_lock_id q) = Some q1" "q_msgs q1 = visible now t q" "static q1 = static q"
    "evolves s s1" "find_msg q1 (m_ref m) = Some m"
    and c: "consume_deliver s1 (q_lock_id q) (m_ref m) delayed vis ow t2 = (rc, out, s')"
    and D: "\<And>d. delayed = Some d \<Longrightarrow> d \<in> set (refs (q_msgs q1))"
    and T: "\<And>dl tg. all_before (\<lambda>m. m_state m = MESSAGE_INFLIGHT) (map (delivered q1 (m_ref m) dl ow tg) (q_msgs q1))
      (next_hint (deliver_message True q1 (m_ref m) dl ow tg) (m_ref m) delayed)"
  have st: "m_state m = MESSAGE_READY" using find_Some_mem [OF f] by (simp add: deliverable_def)
  have env: "s_env s1 = s_env s" "s_next_delivery_tag s1 = s_next_delivery_tag s"
    using s1(5) by (simp_all add: evolves_def grows_def ahead_def)
  have nt1: "s_next_delivery_tag s1 + 1 \<noteq> 0" using nt env(2) by simp
  note cd = consume_deliver_ok [OF s1(1,2,6) st D T nt1 c]
  have "delivered q1 r dl ow tg = delivered q r dl ow tg" for r dl tg
    by (rule delivered_cong) (use s1(4) in \<open>simp_all add: static_eq\<close>)
  moreover have "q_durable q \<or> (\<exists>i. \<not> se_malloc (s_env s) i)" if "rc = -1"
  proof (rule ccontr)
    assume "\<not> ?thesis"
    then have "rc = 1"
      using s1(4) env by (intro consume_deliver_mem [OF s1(2,6) _ _ c]) (simp_all add: static_eq)
    then show False using that by simp
  qed
  moreover have "grows s s'" by (rule grows_trans [OF evolves_grows [OF s1(5)] cd(2)])
  ultimately show ?thesis using f cd(1,3,5) s1(3) env by auto
qed




subsection \<open>Acknowledgement\<close>

text \<open>What an acknowledgement may settle: the delivery that carries the tag, to that owner.\<close>

definition delivery_of :: "queue \<Rightarrow> u64 \<Rightarrow> u64 \<Rightarrow> message option" where
  "delivery_of q tag ow = find (\<lambda>m. m_tag m = tag \<and> m_state m = MESSAGE_INFLIGHT \<and> m_owner m = ow) (q_msgs q)"

lemma find_conj:
  assumes "find P xs = Some x" and "\<And>y. y \<in> set xs \<Longrightarrow> P y \<Longrightarrow> y = x"
  shows "find (\<lambda>y. P y \<and> Q y) xs = (if Q x then Some x else None)"
proof (cases "Q x")
  case True
  have "find (\<lambda>y. P y \<and> Q y) xs = Some x"
    using assms True by (induction xs) (auto split: if_splits)
  then show ?thesis using True by simp
next
  case False
  then show ?thesis using assms(2) by (auto simp: find_None_iff)
qed

lemma owned_delivery_of:
  assumes "queue_ok q" and "tag \<noteq> 0" shows "owned_delivery q tag ow = delivery_of q tag ow"
proof -
  have l: "tag_find q tag = find (\<lambda>m. m_tag m = tag) (q_msgs q)" using ti.lookup_linear [OF assms] by simp
  show ?thesis
  proof (cases "tag_find q tag")
    case None
    then have "\<forall>m \<in> set (q_msgs q). m_tag m \<noteq> tag" using l by (simp add: find_None_all)
    then have "delivery_of q tag ow = None" by (auto simp: delivery_of_def find_None_all)
    then show ?thesis using None by (simp add: owned_delivery_def)
  next
    case (Some m)
    then have f: "find (\<lambda>m. m_tag m = tag) (q_msgs q) = Some m" using l by simp
    have "y = m" if "y \<in> set (q_msgs q)" "m_tag y = tag" for y
      using find_Some_mem [OF f] that assms by (intro ti.tags_distinct [OF assms(1)]) auto
    then show ?thesis
      using Some find_conj [OF f, of "\<lambda>m. m_state m = MESSAGE_INFLIGHT \<and> m_owner m = ow"]
      by (simp add: owned_delivery_def delivery_of_def)
  qed
qed

lemma log_synced_mem: "\<not> q_durable q \<Longrightarrow> log_synced s op q i a = (0, s)"
  by (simp add: log_synced_def)



subsection \<open>Rejection and the dead-letter queue\<close>

text \<open>
  C17: a rejection without requeue on a queue with a dead-letter queue moves one message: the
  rejected delivery leaves its queue and one ready message with its body and its expiry joins
  the end of the dead-letter queue, which had room for it, and no other queue changes.  When
  the move is not possible (the target busy, full, deleted, out of memory, or the log failing)
  the answer is -1 and every queue is as it was.\<close>
theorem rejection_moves_one:
  assumes "store_ok s" and "find_queue s name = Some q" and "q_dlq_name q \<noteq> []" and "tag \<noteq> 0"
    and "delivery_of q tag ow = Some m"
    and "queue_nack_for_owner_delay s name tag ow False delay now = (rc, s')"
  shows "rc = 1 \<and> (\<exists>d dlq n. d \<noteq> q_lock_id q \<and> (get_queue s d = Some dlq \<or> get_queue s d = None \<and> q_msgs dlq = []) \<and>
      q_name dlq = q_dlq_name q \<and> \<not> queue_full dlq \<and>
      map_option q_msgs (get_queue s' (q_lock_id q)) = Some (filter (\<lambda>x. m_ref x \<noteq> m_ref m) (q_msgs q)) \<and>
      map_option q_msgs (get_queue s' d) = Some (q_msgs dlq @ [n]) \<and>
      m_data n = m_data m \<and> m_expires n = m_expires m \<and> m_state n = MESSAGE_READY \<and>
      (\<forall>x. x \<noteq> q_lock_id q \<longrightarrow> x \<noteq> d \<longrightarrow> keeps {x} s s')) \<or>
    rc = -1 \<and> keeps UNIV s s'"
proof -
  note g = find_queue_get [OF assms(1,2)]
  note qo = get_queue_ok [OF assms(1) g]
  have od: "owned_delivery q tag ow = Some m" using owned_delivery_of [OF qo assms(4)] assms(5) by simp
  note om = owned_delivery_Some [OF qo od]
  have "dead_letter_locked s (q_lock_id q) (m_ref m) False False [q_lock_id q] = (rc, s')"
    using assms(6) [unfolded queue_nack_for_owner_delay_def if_not_P [OF assms(4)] assms(2) od option.case] assms(3) by simp
  from dead_letter_ok [OF assms(1) g om(6) this] assms(3)
  have "rc = -1 \<and> keeps UNIV s s' \<or> rc = 1 \<and> routed s (q_lock_id q) (m_ref m) m False [q_lock_id q] s'" by blast
  then show ?thesis
  proof (elim disjE conjE)
    assume r1: "rc = 1" and "routed s (q_lock_id q) (m_ref m) m False [q_lock_id q] s'"
    then obtain q' d dlq n where r: "get_queue s (q_lock_id q) = Some q'" "d \<noteq> q_lock_id q"
      "get_queue s d = Some dlq \<or> get_queue s d = None \<and> q_msgs dlq = []" "q_name dlq = q_dlq_name q'" "\<not> queue_full dlq"
      "get_queue s' (q_lock_id q) = Some (remove_message q' (m_ref m))" "get_queue s' d = Some (message_link dlq n)"
      "m_data n = m_data m" "m_expires n = m_expires m" "m_state n = MESSAGE_READY"
      "\<forall>x y. x \<noteq> q_lock_id q \<and> x \<noteq> d \<and> get_queue s x = Some y \<longrightarrow> get_queue s' x = Some y"
      by (auto simp: routed_def)
    have "q' = q" using r(1) g by simp
    then show ?thesis
      using r r1 by (intro disjI1 [OF conjI] exI [of _ d] exI [of _ dlq] exI [of _ "linked_message dlq n"])
        (simp_all add: keeps_def)
  qed simp
qed

definition rejecting :: queue where
  "rejecting = one_delivered\<lparr>q_dlq_name := [100]\<rparr>"

lemma rejecting_sel [simp]:
  "q_lock_id rejecting = Suc 0" "q_name rejecting = [113]" "q_dlq_name rejecting = [100]"
  "q_durable rejecting = False" "q_max_deliveries rejecting = 0" "q_deleted rejecting = False"
  "q_msgs rejecting = q_msgs one_delivered"
  by (simp_all add: rejecting_def)

lemma rejecting_ok: "store_ok (one_store rejecting)"
proof (rule one_store_ok)
  have "queue_ok rejecting = queue_ok one_delivered"
    by (simp add: rejecting_def queue_ok_def index_sound_def index_full_def tags_ok_def leases_ok_def find_msg_def)
  then show "queue_ok rejecting" using one_delivered_ok by simp
  have "hint_tight rejecting = hint_tight one_delivered" by (simp add: rejecting_def hint_tight_def)
  then show "hint_tight rejecting" using hint_tight_deliver [OF one_message_tight] by (simp add: one_delivered_def)
qed (simp_all add: one_delivered_msgs message_create_def)

lemma rejecting_find: "find_queue (one_store rejecting) [113] = Some rejecting"
  using one_store_find [of rejecting] by simp

lemma rejecting_delivery:
  "delivery_of rejecting 9 5 = Some ((message_create 0 7 0 [104, 105])\<lparr>m_state := MESSAGE_INFLIGHT,
      m_sched := 30000, m_deliveries := 1, m_owner := 5, m_tag := 9\<rparr>)"
  by (simp add: delivery_of_def one_delivered_msgs)

lemma rejecting_rc: "fst (queue_nack_for_owner_delay (one_store rejecting) [113] 9 5 False 0 0) = 1"
proof -
  have "queue_ok rejecting" using rejecting_ok by (simp add: store_ok_def one_store_def queue_in_def)
  then have "owned_delivery rejecting 9 5 = delivery_of rejecting 9 5" by (rule owned_delivery_of) simp
  moreover have "allocs 2 s = allocs (Suc (Suc 0)) s" for s by (simp only: numeral_2_eq_2)
  ultimately show ?thesis
    by (simp add: queue_nack_for_owner_delay_def rejecting_find rejecting_delivery dead_letter_locked_def one_store_get
        find_msg_def one_delivered_msgs message_create_def try_lock_def one_store_def store_init_def easy_env_def
        dead_letter_queue_def find_queue_def create_queue_def alloc_def get_queue_def new_queue_def
        dead_letter_copy_def append_message_def Let_def)
qed

theorem rejection_moves_one_witness:
  "case queue_nack_for_owner_delay (one_store rejecting) [113] 9 5 False 0 0 of (rc, s') \<Rightarrow>
     rc = 1 \<and> map_option q_msgs (get_queue s' 1) = Some []"
proof -
  obtain rc s' where e: "queue_nack_for_owner_delay (one_store rejecting) [113] 9 5 False 0 0 = (rc, s')"
    by (rule prod.exhaust)
  then have "rc = 1" using rejecting_rc by simp
  then show ?thesis
    using rejection_moves_one [OF rejecting_ok rejecting_find _ _ rejecting_delivery e] e
    by (auto simp: one_delivered_msgs)
qed

end
