(* ===== verification/Queue_Fifo.thy ===== *)
theory Queue_Fifo
  imports Engine_Props
begin

text \<open>
  Sequences of calls on one queue.  Repeated consumption hands out every deliverable message
  once, in order; and publication against consume-and-acknowledge refines a plain list used
  as a first-in first-out queue, through the interface \<open>work_queue\<close>.
\<close>

subsection \<open>Repeated consumption\<close>

text \<open>Consuming \<open>n\<close> times at the same readings of the clocks; the answers in order.\<close>

fun consume_times :: "nat \<Rightarrow> store \<Rightarrow> bytes \<Rightarrow> u64 \<Rightarrow> u64 \<Rightarrow> u64 \<Rightarrow> u64 \<Rightarrow> u64 \<Rightarrow> (int \<times> queue_message) list \<times> store" where
  "consume_times 0 s name vis ow now t t2 = ([], s)"
| "consume_times (Suc n) s name vis ow now t t2 =
     (case queue_consume_for_owner s name vis ow now t t2 of (rc, out, s1) \<Rightarrow>
      case consume_times n s1 name vis ow now t t2 of (outs, s2) \<Rightarrow> ((rc, out) # outs, s2))"

text \<open>A producer's and a consumer's calls, run on any state, and on a plain list.\<close>

datatype queue_call = Put bytes | Take

fun run_calls :: "('s \<Rightarrow> bytes \<Rightarrow> 's) \<Rightarrow> ('s \<Rightarrow> bytes option \<times> 's) \<Rightarrow> queue_call list \<Rightarrow> 's \<Rightarrow> bytes option list" where
  "run_calls put take_one [] s = []"
| "run_calls put take_one (Put x # cs) s = run_calls put take_one cs (put s x)"
| "run_calls put take_one (Take # cs) s = (case take_one s of (r, s1) \<Rightarrow> r # run_calls put take_one cs s1)"

definition list_put :: "bytes list \<Rightarrow> bytes \<Rightarrow> bytes list" where
  "list_put xs x = xs @ [x]"

fun list_take :: "bytes list \<Rightarrow> bytes option \<times> bytes list" where
  "list_take [] = (None, [])"
| "list_take (x # xs) = (Some x, xs)"

definition plain_queue :: "store \<Rightarrow> bytes \<Rightarrow> queue \<Rightarrow> bool" where
  "plain_queue s name q \<longleftrightarrow> store_ok s \<and> find_queue s name = Some q \<and> q_max_deliveries q = 0 \<and> q_dlq_name q = [] \<and>
     \<not> q_durable q \<and> (\<forall>i. se_malloc (s_env s) i)"

lemma visible_again:
  assumes "\<forall>m \<in> set ms. \<not> expired now m" and "\<forall>m \<in> set ms. m_state m = MESSAGE_INFLIGHT \<longrightarrow> t < m_sched m"
    and "q_msgs q = ms"
  shows "visible now t q = ms"
proof -
  have "lapsed t m = m" if "m \<in> set ms" for m using assms(2) that by (auto simp: lapsed_def)
  moreover have "filter (\<lambda>m. \<not> expired now m) ms = ms" using assms(1) by (rule filter_True)
  ultimately show ?thesis using assms(3) by (simp add: visible_def map_idI)
qed

lemma visible_lives: "m \<in> set (visible now t q) \<Longrightarrow> \<not> expired now m"
  by (auto simp: visible_def expired_def)

lemma visible_leases: "m \<in> set (visible now t q) \<Longrightarrow> m_state m = MESSAGE_INFLIGHT \<Longrightarrow> t < m_sched m"
  by (auto simp: visible_def lapsed_def split: if_splits)

lemma visible_distinct: "distinct (refs (q_msgs q)) \<Longrightarrow> distinct (refs (visible now t q))"
  by (simp add: visible_def comp_def distinct_map_filter)

text \<open>Delivering the first deliverable message leaves the others deliverable, in their order.\<close>

lemma filter_delivered:
  assumes "distinct (refs ms)" and "find (deliverable now) ms = Some m"
  shows "filter (deliverable now) ms = m # filter (deliverable now) (map (delivered q (m_ref m) dl ow tg) ms)"
  using assms
proof (induction ms)
  case (Cons a ms)
  show ?case
  proof (cases "deliverable now a")
    case True
    then have a: "m = a" using Cons.prems by simp
    have "m_ref a \<notin> m_ref ` set ms" using Cons.prems(1) by simp
    then have "m_ref x \<noteq> m_ref m" if "x \<in> set ms" for x using a that by (metis imageI)
    then have "map (delivered q (m_ref m) dl ow tg) ms = ms"
      by (intro map_idI) (simp add: delivered_def leased_def charged_def)
    moreover have "\<not> deliverable now (delivered q (m_ref m) dl ow tg a)"
      using a by (simp add: deliverable_def delivered_def leased_def)
    ultimately show ?thesis using True a by simp
  next
    case False
    then have "find (deliverable now) ms = Some m" using Cons.prems by simp
    moreover from this have "m_ref a \<noteq> m_ref m" using Cons.prems by (auto dest!: find_Some_mem)
    moreover from this have "delivered q (m_ref m) dl ow tg a = a" by (simp add: delivered_def leased_def charged_def)
    ultimately show ?thesis using Cons False by simp
  qed
qed simp

lemma consume_plain_step:
  assumes p: "plain_queue s name q" and nt: "s_next_delivery_tag s + 1 \<noteq> 0"
    and w: "t < t2 + (if vis \<noteq> 0 then vis else 30000)"
    and e: "queue_consume_for_owner s name vis ow now t t2 = (rc, out, s')"
  obtains (empty) q' where "filter (deliverable now) (visible now t q) = []" "rc = 0" "plain_queue s' name q'"
      "visible now t q' = visible now t q" "s_next_delivery_tag s' = s_next_delivery_tag s" "q_max_depth q' = q_max_depth q"
    | (one) m q' where "filter (deliverable now) (visible now t q) = m # filter (deliverable now) (visible now t q')"
      "rc = 1" "o_data out = m_data m" "o_id out = m_id m" "plain_queue s' name q'" "o_tag out = s_next_delivery_tag s"
      "s_next_delivery_tag s' = s_next_delivery_tag s + 1" "o_owner out = ow"
      "find (deliverable now) (visible now t q) = Some m"
      "q_msgs q' = map (delivered q (m_ref m) (o_deadline out) ow (o_tag out)) (visible now t q)"
      "visible now t q' = q_msgs q'" "q_max_depth q' = q_max_depth q"
proof -
  have pq: "store_ok s" "find_queue s name = Some q" "q_max_deliveries q = 0" "q_dlq_name q = []" "\<not> q_durable q"
    "\<forall>i. se_malloc (s_env s) i" using p by (simp_all add: plain_queue_def)
  note g = find_queue_get [OF pq(1,2)] and fq = find_queue_Some [OF pq(2)]
  note cs = consume_serves [OF pq(1) nt pq(2-4) e]
  then have ok: "store_ok s'" and gr: "grows s s'" by simp_all
  obtain q' where q': "get_queue s' (q_lock_id q) = Some q'" "static q' = static q"
    using gr g by (auto simp: grows_def)
  have env: "s_env s' = s_env s" using gr by (simp add: grows_def ahead_def)
  have md: "q_max_depth q' = q_max_depth q" using q'(2) by (simp add: static_eq)
  have pl: "plain_queue s' name q'"
    using get_find_queue [OF ok q'(1)] q'(2) fq pq env ok by (simp add: plain_queue_def static_eq)
  have d: "distinct (refs (visible now t q))"
    by (rule visible_distinct) (use get_queue_ok [OF pq(1) g] in \<open>simp add: queue_ok_def\<close>)
  show ?thesis
  proof (cases "find (deliverable now) (visible now t q)")
    case None
    then have e0: "filter (deliverable now) (visible now t q) = []" by (simp add: find_None_all filter_empty_conv)
    from cs None have r: "rc = 0" "evolves s s'" "q_msgs q' = visible now t q" using q'(1) by simp_all
    have "visible now t q' = visible now t q"
      by (rule visible_again [OF _ _ r(3)]) (auto dest: visible_lives visible_leases)
    then show ?thesis using empty [OF e0 r(1) pl] evolves_tag [OF r(2)] md by simp
  next
    case (Some m)
    have r: "rc = 1" "o_data out = m_data m" "o_id out = m_id m" "o_tag out = s_next_delivery_tag s" "o_owner out = ow"
      "o_deadline out = t2 + (if vis \<noteq> 0 then vis else 30000)" "s_next_delivery_tag s' = s_next_delivery_tag s + 1"
      "q_msgs q' = map (delivered q (m_ref m) (o_deadline out) ow (o_tag out)) (visible now t q)"
      using cs Some q'(1) pq(5,6) by auto
    have vq: "visible now t q' = q_msgs q'"
      by (rule visible_again [OF _ _ refl]) (use w r(6,8) in \<open>auto dest: visible_lives visible_leases
        simp: delivered_def leased_def expired_def split: if_splits\<close>)
    then have "filter (deliverable now) (visible now t q) = m # filter (deliverable now) (visible now t q')"
      using filter_delivered [OF d Some, of q "o_deadline out" ow "o_tag out"] r(8) by simp
    then show ?thesis using one r pl Some vq md by blast
  qed
qed

lemma consume_times_serves:
  assumes "plain_queue s name q" and "unat (s_next_delivery_tag s) + n < 2 ^ 64"
    and "t < t2 + (if vis \<noteq> 0 then vis else 30000)"
  shows "map (\<lambda>(rc, out). (rc, if rc = 1 then o_data out else [])) (fst (consume_times n s name vis ow now t t2)) =
    map (\<lambda>m. (1, m_data m)) (take n (filter (deliverable now) (visible now t q))) @
    replicate (n - length (filter (deliverable now) (visible now t q))) (0, [])"
  using assms(1,2)
proof (induction n arbitrary: s q)
  case (Suc n)
  obtain rc out s1 where e: "queue_consume_for_owner s name vis ow now t t2 = (rc, out, s1)" by (rule prod_cases3)
  have nt: "s_next_delivery_tag s + 1 \<noteq> 0" using Suc.prems(2) by (intro tag_succ) simp
  have un: "unat (s_next_delivery_tag s + 1) = Suc (unat (s_next_delivery_tag s))"
    using Suc.prems(2) by (simp add: unat_word_ariths)
  obtain outs s2 where c: "consume_times n s1 name vis ow now t t2 = (outs, s2)" by (rule prod.exhaust)
  show ?case
  proof (rule consume_plain_step [OF Suc.prems(1) nt assms(3) e])
    fix q' assume "filter (deliverable now) (visible now t q) = []" "rc = 0" "plain_queue s1 name q'"
      "visible now t q' = visible now t q" "s_next_delivery_tag s1 = s_next_delivery_tag s"
    then show ?thesis using Suc.IH [of s1 q'] Suc.prems(2) e c by simp
  next
    fix m q' assume "filter (deliverable now) (visible now t q) = m # filter (deliverable now) (visible now t q')"
      "rc = 1" "o_data out = m_data m" "plain_queue s1 name q'" "s_next_delivery_tag s1 = s_next_delivery_tag s + 1"
    then show ?thesis using Suc.IH [of s1 q'] Suc.prems(2) e c un by simp
  qed
qed simp




subsection \<open>Publication and settlement on a plain queue\<close>

lemma append_message_mem:
  assumes "\<And>i. se_malloc (s_env s) i" shows "fst (append_message s qid mid ex data) = 0"
  using assms by (simp add: append_message_def alloc_def Let_def)

lemma publish_plain:
  assumes p: "plain_queue s name q" "q_max_depth q = 0" and n: "name_valid name" "length x \<le> QUEUE_MESSAGE_MAX"
    and e: "queue_publish s name x 0 now t = (rc, mid, s')"
  obtains q' m where "plain_queue s' name q'" "q_max_depth q' = 0"
    "s_next_delivery_tag s' = s_next_delivery_tag s"
    "visible now t q' = visible now t q @ [m]" "m_data m = x" "m_state m = MESSAGE_READY" "m_sched m = 0" "m_id m = mid"
proof -
  have pq: "store_ok s" "find_queue s name = Some q" "q_dlq_name q = []" "\<not> q_durable q"
    "\<forall>i. se_malloc (s_env s) i" using p by (simp_all add: plain_queue_def)
  note g = find_queue_get [OF pq(1,2)] and fq = find_queue_Some [OF pq(2)]
  obtain rc1 mid1 s1 where p1: "publish_one_locked s (q_lock_id q) x 0 now t = (rc1, mid1, s1)" by (rule prod_cases3)
  obtain q1 K where r: "store_ok s1" "evolves s s1" "static q1 = static q"
    "q_msgs q1 = reaped (set (refs (q_msgs q))) K now t (q_msgs q)" "q_dlq_name q = [] \<longrightarrow> K = {}"
    "rc1 = 0 \<and> (\<exists>ref. get_queue s1 (q_lock_id q) = Some (message_link q1 (message_create ref mid1 0 x))) \<or>
     rc1 = -1 \<and> get_queue s1 (q_lock_id q) = Some q1"
    by (rule publish_one_ok [OF pq(1) g p1]) auto
  have v: "q_msgs q1 = visible now t q" using r(4,5) pq(3) by (simp add: visible_def reaped_all)
  let ?s0 = "reap_queue_locked s (q_lock_id q) now t False [q_lock_id q]"
  obtain q0 K0 where r0: "evolves s ?s0" "get_queue ?s0 (q_lock_id q) = Some q0" "static q0 = static q"
    by (rule reap_queue_ok [OF pq(1) g])
  have "se_malloc (s_env ?s0) i" for i using r0(1) pq(5) by (simp add: evolves_def grows_def ahead_def)
  then have "rc1 = 0"
    using p1 r0(2,3) p(2) pq(4) append_message_mem [of "?s0\<lparr>s_next_id := s_next_id ?s0 + 1\<rparr>" "q_lock_id q" "s_next_id ?s0" 0 x]
    by (auto simp: publish_one_locked_def Let_def queue_full_def static_eq split: prod.splits if_splits)
  then obtain ref where l: "get_queue s1 (q_lock_id q) = Some (message_link q1 (message_create ref mid1 0 x))" using r(6) by auto
  let ?q' = "message_link q1 (message_create ref mid1 0 x)" and ?m = "linked_message q1 (message_create ref mid1 0 x)"
  obtain rc2 s2 where f: "finish_durable s1 (w_seq (s_wal s)) = (rc2, s2)" by (rule prod.exhaust)
  have e2: "s' = s2" "mid = mid1"
    using e n pq(2) p1 f \<open>rc1 = 0\<close> by (simp_all add: queue_publish_def Let_def)
  note fd = frameD [OF finish_durable_frame [OF f]]
  have st: "static ?q' = static q" using r(3) by simp
  have ok': "store_ok s'" and g': "get_queue s' (q_lock_id q) = Some ?q'" and env: "s_env s' = s_env s"
    "s_next_delivery_tag s' = s_next_delivery_tag s"
    using e2 fd r(1,2) l by (simp_all add: evolves_def grows_def ahead_def)
  have "visible now t ?q' = visible now t q @ [?m]"
  proof (rule visible_again)
    show "q_msgs ?q' = visible now t q @ [?m]" using v by simp
  qed (auto simp: message_create_def expired_def dest: visible_lives [unfolded expired_def] visible_leases)
  moreover have "plain_queue s' name ?q'"
    using get_find_queue [OF ok' g'] st fq p(1) env ok' by (simp add: plain_queue_def static_eq)
  moreover have "q_max_depth ?q' = 0" using st p(2) by (simp add: static_eq)
  ultimately show ?thesis using e2(2) env(2) by (intro that [of ?q' ?m]) (simp_all add: message_create_def)
qed

lemma ack_plain:
  assumes p: "plain_queue s name q" and m: "m \<in> set (q_msgs q)" "m_state m = MESSAGE_INFLIGHT" "m_owner m = ow"
    and t0: "m_tag m \<noteq> 0" and e: "queue_ack_for_owner s name (m_tag m) ow = (rc, s')"
  obtains q' where "rc = 1" "plain_queue s' name q'" "q_max_depth q' = q_max_depth q"
    "s_next_delivery_tag s' = s_next_delivery_tag s" "q_msgs q' = filter (\<lambda>x. m_ref x \<noteq> m_ref m) (q_msgs q)"
proof -
  have pq: "store_ok s" "find_queue s name = Some q" "\<not> q_durable q" using p by (simp_all add: plain_queue_def)
  note g = find_queue_get [OF pq(1,2)] and fq = find_queue_Some [OF pq(2)]
  note qo = get_queue_ok [OF pq(1) g]
  have o: "owned_delivery q (m_tag m) ow = Some m"
    using ti.lookup_unique [OF qo m(1) t0] m by (simp add: owned_delivery_def)
  have "rc = 1" using e o pq t0 by (auto simp: queue_ack_for_owner_def log_synced_mem)
  with queue_ack_cases [OF pq(1) e] o pq(2) have c: "store_ok s'" "evolves s s'"
    "get_queue s' (q_lock_id q) = Some (remove_message q (m_ref m))" by auto
  have "plain_queue s' name (remove_message q (m_ref m))"
    using get_find_queue [OF c(1,3)] fq p c by (simp add: plain_queue_def evolves_def grows_def ahead_def)
  then show ?thesis
    using \<open>rc = 1\<close> evolves_tag [OF c(2)] by (intro that [of "remove_message q (m_ref m)"]) simp_all
qed

subsection \<open>The interface of a work queue\<close>

text \<open>
  A work queue: what is put in comes out once, in order.  \<open>usable n s\<close> says that the state can
  serve \<open>n\<close> more takes.
\<close>

locale work_queue =
  fixes usable :: "nat \<Rightarrow> 's \<Rightarrow> bool" and contents :: "'s \<Rightarrow> bytes list"
    and put :: "'s \<Rightarrow> bytes \<Rightarrow> 's" and take_one :: "'s \<Rightarrow> bytes option \<times> 's"
  assumes put: "usable n s \<Longrightarrow> length x \<le> QUEUE_MESSAGE_MAX \<Longrightarrow> usable n (put s x) \<and> contents (put s x) = contents s @ [x]"
    and take_none: "usable (Suc n) s \<Longrightarrow> contents s = [] \<Longrightarrow>
      fst (take_one s) = None \<and> usable n (snd (take_one s)) \<and> contents (snd (take_one s)) = []"
    and take_some: "usable (Suc n) s \<Longrightarrow> contents s = x # xs \<Longrightarrow>
      fst (take_one s) = Some x \<and> usable n (snd (take_one s)) \<and> contents (snd (take_one s)) = xs"
    and fewer: "usable (Suc n) s \<Longrightarrow> usable n s"
begin

lemma runs_like_a_list:
  assumes "usable (length cs) s" and "\<forall>x. Put x \<in> set cs \<longrightarrow> length x \<le> QUEUE_MESSAGE_MAX"
  shows "run_calls put take_one cs s = run_calls list_put list_take cs (contents s)"
  using assms
proof (induction cs arbitrary: s)
  case (Cons c cs)
  note IH = Cons.IH and u = Cons.prems(1) [simplified] and l = Cons.prems(2)
  show ?case
  proof (cases c)
    case (Put x)
    then have "usable (length cs) (put s x)" "contents (put s x) = contents s @ [x]"
      using put [OF fewer [OF u], of x] l by simp_all
    then show ?thesis using IH l Put by (simp add: list_put_def)
  next
    case Take
    show ?thesis
    proof (cases "contents s")
      case Nil
      then show ?thesis using take_none [OF u Nil] IH l Take by (simp add: case_prod_unfold)
    next
      case (Cons x xs)
      then show ?thesis using take_some [OF u Cons] IH l Take by (simp add: case_prod_unfold)
    qed
  qed
qed simp

end

text \<open>The calls of a producer and of a consumer that settles every delivery.\<close>

definition queue_view :: "bytes \<Rightarrow> u64 \<Rightarrow> u64 \<Rightarrow> store \<Rightarrow> bytes list" where
  "queue_view name now t s = (case find_queue s name of None \<Rightarrow> []
     | Some q \<Rightarrow> map m_data (filter (deliverable now) (visible now t q)))"

definition queue_usable :: "bytes \<Rightarrow> u64 \<Rightarrow> u64 \<Rightarrow> u64 \<Rightarrow> nat \<Rightarrow> store \<Rightarrow> bool" where
  "queue_usable name vis t t2 n s \<longleftrightarrow> name_valid name \<and> t < t2 + (if vis \<noteq> 0 then vis else 30000) \<and>
     (\<exists>q. plain_queue s name q \<and> q_max_depth q = 0) \<and> unat (s_next_delivery_tag s) + n < 2 ^ 64"

definition publish_call :: "bytes \<Rightarrow> u64 \<Rightarrow> u64 \<Rightarrow> store \<Rightarrow> bytes \<Rightarrow> store" where
  "publish_call name now t s x = snd (snd (queue_publish s name x 0 now t))"

definition settle_call :: "bytes \<Rightarrow> u64 \<Rightarrow> u64 \<Rightarrow> u64 \<Rightarrow> u64 \<Rightarrow> u64 \<Rightarrow> store \<Rightarrow> bytes option \<times> store" where
  "settle_call name vis ow now t t2 s =
     (case queue_consume_for_owner s name vis ow now t t2 of (rc, out, s1) \<Rightarrow>
      if rc \<noteq> 1 then (None, s1)
      else (Some (o_data out), snd (queue_ack_for_owner s1 name (o_tag out) ow)))"

lemma filter_settled:
  assumes "\<And>x. x \<in> set ms \<Longrightarrow> m_ref x = r \<Longrightarrow> \<not> P x"
  shows "filter P (filter (\<lambda>x. m_ref x \<noteq> r) ms) = filter P ms"
  using assms by (induction ms) auto

lemma settle_some:
  assumes u: "plain_queue s name q" "q_max_depth q = 0" and n: "unat (s_next_delivery_tag s) + Suc n < 2 ^ 64"
    and w: "name_valid name" "t < t2 + (if vis \<noteq> 0 then vis else 30000)"
  shows "(case filter (deliverable now) (visible now t q) of
      [] \<Rightarrow> fst (settle_call name vis ow now t t2 s) = None \<and> queue_view name now t (snd (settle_call name vis ow now t t2 s)) = []
    | m # ms \<Rightarrow> fst (settle_call name vis ow now t t2 s) = Some (m_data m) \<and>
        queue_view name now t (snd (settle_call name vis ow now t t2 s)) = map m_data ms) \<and>
    queue_usable name vis t t2 n (snd (settle_call name vis ow now t t2 s))"
proof -
  obtain rc out s1 where e: "queue_consume_for_owner s name vis ow now t t2 = (rc, out, s1)" by (rule prod_cases3)
  have nt: "s_next_delivery_tag s + 1 \<noteq> 0" using n by (intro tag_succ) simp
  have un: "unat (s_next_delivery_tag s + 1) = Suc (unat (s_next_delivery_tag s))" using n by (simp add: unat_word_ariths)
  have t0: "s_next_delivery_tag s \<noteq> 0" using u by (auto simp: plain_queue_def store_ok_def)
  show ?thesis
  proof (rule consume_plain_step [OF u(1) nt w(2) e])
    fix q' assume a: "filter (deliverable now) (visible now t q) = []" "rc = 0" "plain_queue s1 name q'"
      "visible now t q' = visible now t q" "s_next_delivery_tag s1 = s_next_delivery_tag s" "q_max_depth q' = q_max_depth q"
    then have f: "find_queue s1 name = Some q'" by (simp add: plain_queue_def)
    have "settle_call name vis ow now t t2 s = (None, s1)" using e a by (simp add: settle_call_def)
    moreover have "queue_usable name vis t t2 n s1" using a u n w by (auto simp: queue_usable_def)
    ultimately show ?thesis using a f by (simp add: queue_view_def)
  next
    fix m q' assume a: "filter (deliverable now) (visible now t q) = m # filter (deliverable now) (visible now t q')"
      "rc = 1" "o_data out = m_data m" "plain_queue s1 name q'" "o_tag out = s_next_delivery_tag s"
      "s_next_delivery_tag s1 = s_next_delivery_tag s + 1" "find (deliverable now) (visible now t q) = Some m"
      and q': "q_msgs q' = map (delivered q (m_ref m) (o_deadline out) ow (o_tag out)) (visible now t q)"
      "visible now t q' = q_msgs q'" "q_max_depth q' = q_max_depth q"
    let ?m = "delivered q (m_ref m) (o_deadline out) ow (o_tag out) m"
    have mm: "?m \<in> set (q_msgs q')" using find_Some_mem [OF a(7)] q'(1) by simp
    have ms: "m_state ?m = MESSAGE_INFLIGHT" "m_owner ?m = ow" "m_tag ?m = o_tag out" "m_ref ?m = m_ref m"
      by (simp_all add: delivered_def leased_def)
    obtain rc2 s2 where k: "queue_ack_for_owner s1 name (m_tag ?m) ow = (rc2, s2)" by (rule prod.exhaust)
    show ?thesis
    proof (rule ack_plain [OF a(4) mm ms(1,2) _ k])
      show "m_tag ?m \<noteq> 0" using ms a t0 by simp
      fix q'' assume b: "plain_queue s2 name q''" "q_max_depth q'' = q_max_depth q'"
        "s_next_delivery_tag s2 = s_next_delivery_tag s1" "q_msgs q'' = filter (\<lambda>x. m_ref x \<noteq> m_ref ?m) (q_msgs q')"
      have "visible now t q'' = q_msgs q''"
        by (rule visible_again [OF _ _ refl]) (use b(4) q'(2) visible_lives [of _ now t q'] visible_leases [of _ now t q'] in auto)
      moreover have "filter (deliverable now) (filter (\<lambda>x. m_ref x \<noteq> m_ref m) (q_msgs q')) = filter (deliverable now) (q_msgs q')"
        by (rule filter_settled) (auto simp: q'(1) deliverable_def delivered_this)
      ultimately have "filter (deliverable now) (visible now t q'') = filter (deliverable now) (visible now t q')"
        by (simp only: b(4) q'(2) ms(4))
      moreover have "settle_call name vis ow now t t2 s = (Some (m_data m), s2)"
        using e a k ms by (simp add: settle_call_def)
      moreover have "queue_usable name vis t t2 n s2" using b a un n u q'(3) w by (auto simp: queue_usable_def)
      moreover have "find_queue s2 name = Some q''" using b(1) by (simp add: plain_queue_def)
      ultimately show ?thesis using a(1) by (simp add: queue_view_def)
    qed
  qed
qed


interpretation wq: work_queue "queue_usable name vis t t2" "queue_view name now t" "publish_call name now t"
  "settle_call name vis ow now t t2"
proof
  fix n s and x :: bytes assume u: "queue_usable name vis t t2 n s" and l: "length x \<le> QUEUE_MESSAGE_MAX"
  then obtain q where q: "plain_queue s name q" "q_max_depth q = 0" and nv: "name_valid name" by (auto simp: queue_usable_def)
  obtain rc mid s' where e: "queue_publish s name x 0 now t = (rc, mid, s')" by (rule prod_cases3)
  show "queue_usable name vis t t2 n (publish_call name now t s x) \<and>
      queue_view name now t (publish_call name now t s x) = queue_view name now t s @ [x]"
  proof (rule publish_plain [OF q nv l e])
    fix q' m assume a: "plain_queue s' name q'" "q_max_depth q' = 0" "s_next_delivery_tag s' = s_next_delivery_tag s"
      "visible now t q' = visible now t q @ [m]" "m_data m = x" "m_state m = MESSAGE_READY" "m_sched m = 0"
    have "find_queue s' name = Some q'" "find_queue s name = Some q" using a(1) q(1) by (simp_all add: plain_queue_def)
    then show ?thesis
      using a u e by (auto simp: queue_usable_def queue_view_def publish_call_def deliverable_def)
  qed
next
  fix n s x xs assume u: "queue_usable name vis t t2 (Suc n) s"
  then obtain q where q: "plain_queue s name q" "q_max_depth q = 0" "unat (s_next_delivery_tag s) + Suc n < 2 ^ 64"
    "name_valid name" "t < t2 + (if vis \<noteq> 0 then vis else 30000)" by (auto simp: queue_usable_def)
  note st = settle_some [OF q, where now = now and ow = ow]
  have v: "queue_view name now t s = map m_data (filter (deliverable now) (visible now t q))"
    using q(1) by (simp add: queue_view_def plain_queue_def)
  show "fst (settle_call name vis ow now t t2 s) = None \<and> queue_usable name vis t t2 n (snd (settle_call name vis ow now t t2 s)) \<and>
      queue_view name now t (snd (settle_call name vis ow now t t2 s)) = []" if "queue_view name now t s = []"
    using st v that by simp
  show "fst (settle_call name vis ow now t t2 s) = Some x \<and> queue_usable name vis t t2 n (snd (settle_call name vis ow now t t2 s)) \<and>
      queue_view name now t (snd (settle_call name vis ow now t t2 s)) = xs" if "queue_view name now t s = x # xs"
    using st v that by auto
  show "queue_usable name vis t t2 n s" using u by (auto simp: queue_usable_def)
qed



end
