(* ===== verification/Routing_Props.thy ===== *)
theory Routing_Props
  imports Engine_Props Queue_Views
begin

text \<open>
  Routing: the well-formedness of exchanges, the targets of a publication, the copies of a
  fan-out, the depth limit, the order of the locks, and the views for browsing and counting.
\<close>

subsection \<open>Well-formed exchanges\<close>

definition exchange_ok :: "exchange \<Rightarrow> bool" where
  "exchange_ok x \<longleftrightarrow> x_binding_count x = length (x_bindings x) \<and> x_binding_count x \<le> EXCHANGE_BINDINGS_MAX \<and>
     distinct (map (\<lambda>b. (b_queue b, b_key b)) (x_bindings x)) \<and>
     x_name x \<noteq> [] \<and> length (x_name x) \<le> EXCHANGE_NAME_MAX \<and> x_ae_name x \<noteq> x_name x \<and>
     (x_type x = EXCHANGE_TOPIC \<longrightarrow> (\<forall>b \<in> set (x_bindings x). topic_word_count (b_key b) \<le> TOPIC_WORDS_MAX))"

definition exchanges_ok :: "store \<Rightarrow> bool" where
  "exchanges_ok s \<longleftrightarrow> distinct (map x_name (s_exchanges s)) \<and> (\<forall>x \<in> set (s_exchanges s). exchange_ok x)"

text \<open>The calls that change exchanges, in one step relation.\<close>

inductive exchange_call :: "store \<Rightarrow> store \<Rightarrow> bool" where
  ex_declare: "exchange_declare s name dur type ae = (rc, s') \<Longrightarrow> exchange_call s s'"
| ex_bind: "exchange_bind s name queue key = (rc, s') \<Longrightarrow> exchange_call s s'"
| ex_unbind: "exchange_unbind_checked s name queue key rv cond = (rc, s') \<Longrightarrow> exchange_call s s'"
| ex_delete: "exchange_delete_if_revision s name rv = (rc, s') \<Longrightarrow> exchange_call s s'"
| ex_alternate: "exchange_set_alternate_if_revision s name ae rv = (rc, s') \<Longrightarrow> exchange_call s s'"

lemma append_store_exchanges: "append_store s r f d = (rc, s') \<Longrightarrow> s_exchanges s' = s_exchanges s"
  by (auto simp: append_store_def split: prod.splits)

lemma append_cond_exchanges: "(if c then append_store s r f d else (0, s)) = (rc, s') \<Longrightarrow> s_exchanges s' = s_exchanges s"
  by (auto split: if_splits dest: append_store_exchanges)

lemma alloc_exchanges: "alloc s = (ok, s') \<Longrightarrow> s_exchanges s' = s_exchanges s"
  by (auto simp: alloc_def)

lemma allocs_exchanges: "allocs n s = (ok, s') \<Longrightarrow> s_exchanges s' = s_exchanges s"
  by (induction n arbitrary: s) (auto split: prod.splits if_splits dest: alloc_exchanges)

lemma alloc_binding_exchanges: "alloc_binding s = (ok, s') \<Longrightarrow> s_exchanges s' = s_exchanges s"
  by (auto simp: alloc_binding_def split: prod.splits if_splits dest!: alloc_exchanges)

lemmas exchanges_kept = append_store_exchanges append_cond_exchanges alloc_exchanges allocs_exchanges alloc_binding_exchanges

lemma find_exchange_Some: "find_exchange s name = Some x \<Longrightarrow> x \<in> set (s_exchanges s) \<and> x_name x = name"
  unfolding find_exchange_def by (drule find_Some_mem) simp

lemma find_exchange_None: "find_exchange s name = None \<Longrightarrow> name \<notin> set (map x_name (s_exchanges s))"
  by (auto simp: find_exchange_def find_None_all)

lemma exchanges_cong: "s_exchanges s' = s_exchanges s \<Longrightarrow> exchanges_ok s' = exchanges_ok s"
  by (simp add: exchanges_ok_def)

lemma exchanges_ok_find: "exchanges_ok s \<Longrightarrow> find_exchange s name = Some x \<Longrightarrow> exchange_ok x"
  by (auto simp: exchanges_ok_def dest!: find_exchange_Some)

text \<open>Replacing the one exchange of a name.\<close>

lemma exchanges_ok_upd:
  assumes "exchanges_ok s" and "find_exchange s name = Some x" and "\<And>y. x_name (f y) = x_name y" and "exchange_ok (f x)"
  shows "exchanges_ok (upd_exchange s name f)"
proof -
  have x: "x \<in> set (s_exchanges s)" "x_name x = name" using find_exchange_Some [OF assms(2)] by simp_all
  have u: "y = x" if "y \<in> set (s_exchanges s)" "x_name y = name" for y
    using assms(1) x that by (auto simp: exchanges_ok_def distinct_map inj_on_def)
  have n: "map x_name (map (\<lambda>y. if x_name y = name then f y else y) (s_exchanges s)) = map x_name (s_exchanges s)"
    using assms(3) by simp
  show ?thesis
    using assms(1,4) u n by (auto simp: exchanges_ok_def upd_exchange_def simp del: map_map)
qed


lemma exchange_declare_wf:
  assumes ok: "exchanges_ok s" and e: "exchange_declare s name dur type ae = (rc, s')"
  shows "exchanges_ok s'"
proof (cases "s_exchanges s' = s_exchanges s")
  case True
  then show ?thesis using ok by (simp add: exchanges_ok_def)
next
  case False
  then have c: "exchange_payload_valid name []" "ae = [] \<or> ae \<noteq> name" "find_exchange s name = None"
    using e by (auto simp: exchange_declare_def split: if_splits option.splits)
  have "s_exchanges s' = new_exchange name dur type ae # s_exchanges s"
    using e c False
    by (auto simp: exchange_declare_def create_exchange_def split: if_splits option.splits prod.splits dest!: exchanges_kept)
  moreover have "exchange_ok (new_exchange name dur type ae)"
    using c by (auto simp: exchange_ok_def new_exchange_def exchange_payload_valid_def)
  ultimately show ?thesis
    using ok find_exchange_None [OF c(3)] by (simp add: exchanges_ok_def new_exchange_def)
qed

lemma exchange_bind_wf:
  assumes ok: "exchanges_ok s" and e: "exchange_bind s name queue key = (rc, s')"
  shows "exchanges_ok s'"
proof (cases "s_exchanges s' = s_exchanges s")
  case True
  then show ?thesis using ok by (simp add: exchanges_ok_def)
next
  case False
  then obtain x where x: "find_exchange s name = Some x" and nb: "find_binding x queue key = None"
    and tw: "x_type x = EXCHANGE_TOPIC \<longrightarrow> topic_word_count key \<le> TOPIC_WORDS_MAX"
    using e by (auto simp: exchange_bind_def split: if_splits option.splits)
  let ?b = "\<lparr>b_queue = queue, b_key = key, b_footprint = 0\<rparr>"
  let ?f = "\<lambda>x. x\<lparr>x_bindings := ?b # x_bindings x, x_binding_count := Suc (x_binding_count x)\<rparr>"
  let ?g = "\<lambda>y. y\<lparr>x_revision := x_revision x + 1\<rparr>"
  obtain rc1 s1 where l: "(if x_durable x then append_store s (exchange_record LOG_EXBIND (x_name x) (x_revision x + 1)
      (binding_payload queue key)) True False else (0, s)) = (rc1, s1)" by (rule prod.exhaust)
  note k1 = append_cond_exchanges [OF l]
  obtain ab s2 where a: "alloc_binding s1 = (ab, s2)" by (rule prod.exhaust)
  note k2 = alloc_binding_exchanges [OF a]
  have s': "s' = upd_exchange (upd_exchange s2 (x_name x) ?f) (x_name x) ?g" and room: "x_binding_count x < EXCHANGE_BINDINGS_MAX"
    using e False x nb l k1 k2 a
    by (auto simp: exchange_bind_def Let_def add_binding_locked_def not_less split: if_splits prod.splits option.splits)
  have eq: "upd_exchange (upd_exchange s2 (x_name x) ?f) (x_name x) ?g = upd_exchange s2 (x_name x) (?g \<circ> ?f)"
    by (auto simp: upd_exchange_def)
  have n: "(queue, key) \<notin> (\<lambda>b. (b_queue b, b_key b)) ` set (x_bindings x)"
    using nb by (auto simp: find_binding_def find_None_all)
  have "exchange_ok (?f x)"
    using exchanges_ok_find [OF ok x] room tw n by (auto simp: exchange_ok_def)
  then have ok': "exchange_ok ((?g \<circ> ?f) x)" by (simp add: exchange_ok_def)
  have fx: "find_exchange s2 (x_name x) = Some x" using x k1 k2 find_exchange_Some [OF x] by (simp add: find_exchange_def)
  have "exchanges_ok s2" using ok k1 k2 by (simp add: exchanges_ok_def)
  then show ?thesis unfolding s' eq by (rule exchanges_ok_upd [OF _ fx]) (use ok' in simp_all)
qed

lemma drop_binding_length: "find (\<lambda>b. b_queue b = queue \<and> b_key b = key) bs = Some b \<Longrightarrow>
    length (drop_binding queue key bs) = length bs - 1 \<and> bs \<noteq> []"
  by (induction bs) (auto split: if_splits simp: Suc_diff_le dest: find_Some_mem)

lemma drop_binding_distinct: "distinct (map g bs) \<Longrightarrow> distinct (map g (drop_binding queue key bs)) \<and>
    set (drop_binding queue key bs) \<subseteq> set bs"
  by (induction bs) auto

lemma exchange_unbind_wf:
  assumes ok: "exchanges_ok s" and e: "exchange_unbind_checked s name queue key rv cond = (rc, s')"
  shows "exchanges_ok s'"
proof (cases "s_exchanges s' = s_exchanges s")
  case True
  then show ?thesis using ok by (simp add: exchanges_ok_def)
next
  case False
  then obtain x b where x: "find_exchange s name = Some x" and fb: "find_binding x queue key = Some b"
    using e by (auto simp: exchange_unbind_checked_def split: if_splits option.splits)
  let ?f = "\<lambda>y. y\<lparr>x_bindings := drop_binding queue key (x_bindings y), x_binding_count := x_binding_count y - 1,
      x_revision := x_revision x + 1\<rparr>"
  obtain rc1 s1 where l: "(if x_durable x then append_store s (exchange_record LOG_EXUNBIND (x_name x) (x_revision x + 1)
      (binding_payload queue key)) True False else (0, s)) = (rc1, s1)" by (rule prod.exhaust)
  note k1 = append_cond_exchanges [OF l]
  have s': "s' = upd_exchange s1 (x_name x) ?f"
    using e False x fb l k1 by (auto simp: exchange_unbind_checked_def Let_def split: if_splits)
  note d = drop_binding_length [OF fb [unfolded find_binding_def]]
  note dd = drop_binding_distinct [of "\<lambda>b. (b_queue b, b_key b)" "x_bindings x" queue key]
  have ok': "exchange_ok (?f x)"
    using exchanges_ok_find [OF ok x] d dd by (auto simp: exchange_ok_def)
  have fx: "find_exchange s1 (x_name x) = Some x" using x k1 find_exchange_Some [OF x] by (simp add: find_exchange_def)
  have "exchanges_ok s1" using ok k1 by (simp add: exchanges_ok_def)
  then show ?thesis unfolding s' by (rule exchanges_ok_upd [OF _ fx]) (use ok' in simp_all)
qed

lemma drop_exchange_subset: "distinct (map x_name xs) \<Longrightarrow> distinct (map x_name (drop_exchange name xs)) \<and>
    set (drop_exchange name xs) \<subseteq> set xs"
  by (induction xs) auto

lemma exchange_delete_wf:
  assumes ok: "exchanges_ok s" and e: "exchange_delete_if_revision s name rv = (rc, s')"
  shows "exchanges_ok s'"
proof -
  have "s_exchanges s' = s_exchanges s \<or> s_exchanges s' = drop_exchange name (s_exchanges s)"
    using e by (auto simp: exchange_delete_if_revision_def split: if_splits option.splits prod.splits dest!: exchanges_kept)
  then show ?thesis using ok drop_exchange_subset [of "s_exchanges s" name] by (auto simp: exchanges_ok_def)
qed

lemma exchange_alternate_wf:
  assumes ok: "exchanges_ok s" and e: "exchange_set_alternate_if_revision s name ae rv = (rc, s')"
  shows "exchanges_ok s'"
proof (cases "s_exchanges s' = s_exchanges s")
  case True
  then show ?thesis using ok by (simp add: exchanges_ok_def)
next
  case False
  then obtain x where x: "find_exchange s name = Some x" and ae: "ae \<noteq> name"
    using e by (auto simp: exchange_set_alternate_if_revision_def split: if_splits option.splits)
  let ?f = "\<lambda>y. y\<lparr>x_ae_name := ae, x_revision := x_revision x + 1\<rparr>"
  obtain s1 where s1: "s' = upd_exchange s1 name ?f" "s_exchanges s1 = s_exchanges s"
    using e False x
    by (auto simp: exchange_set_alternate_if_revision_def Let_def split: if_splits prod.splits dest!: exchanges_kept)
  have ok': "exchange_ok (?f x)"
    using exchanges_ok_find [OF ok x] ae find_exchange_Some [OF x] by (simp add: exchange_ok_def)
  have fx: "find_exchange s1 name = Some x" using x s1 by (simp add: find_exchange_def)
  have "exchanges_ok s1" using ok s1 by (simp add: exchanges_ok_def)
  then show ?thesis unfolding s1(1) by (rule exchanges_ok_upd [OF _ fx]) (use ok' in simp_all)
qed


text \<open>
  C20: every call that changes exchanges keeps them well formed: the binding count is the
  length of the list and within the limit, no route occurs twice, topic patterns stay within
  the word limit, names are unique and in range, and no exchange is its own alternate.\<close>
theorem exchange_calls_typed:
  assumes "exchanges_ok s" and "exchange_call\<^sup>*\<^sup>* s s'"
  shows "exchanges_ok s'"
  using assms(2,1)
proof (induction rule: rtranclp_induct)
  case (step s1 s2)
  from step(2) step(3)[OF step(4)] show ?case
    by (cases rule: exchange_call.cases)
      (rule exchange_declare_wf exchange_bind_wf exchange_unbind_wf exchange_delete_wf exchange_alternate_wf; assumption)+
qed

theorem exchange_calls_typed_witness:
  "exchanges_ok (snd (exchange_declare (store_init False closed_wal easy_env) [120] False EXCHANGE_TOPIC []))"
proof (rule exchange_calls_typed [of "store_init False closed_wal easy_env"])
  show "exchange_call\<^sup>*\<^sup>* (store_init False closed_wal easy_env)
      (snd (exchange_declare (store_init False closed_wal easy_env) [120] False EXCHANGE_TOPIC []))"
    by (rule r_into_rtranclp) (rule ex_declare, rule surjective_pairing)
qed (simp add: exchanges_ok_def store_init_def)

subsection \<open>The targets of a publication\<close>

definition routes :: "store \<Rightarrow> exchange \<Rightarrow> bytes \<Rightarrow> nat set" where
  "routes s x key = {q_lock_id q | b q. b \<in> set (x_bindings x) \<and> binding_matches x key b \<and> find_queue s (b_queue b) = Some q}"

lemma collect_targets_set:
  assumes "length targets + length bs \<le> EXCHANGE_BINDINGS_MAX"
  shows "set (collect_targets s x key bs targets) = set targets \<union>
      {q_lock_id q | b q. b \<in> set bs \<and> binding_matches x key b \<and> find_queue s (b_queue b) = Some q} \<and>
    length (collect_targets s x key bs targets) \<le> length targets + length bs"
  using assms
proof (induction bs arbitrary: targets)
  case (Cons b bs)
  show ?case
  proof (cases "binding_matches x key b \<and> find_queue s (b_queue b) \<noteq> None")
    case False
    then show ?thesis using Cons.IH [of targets] Cons.prems by (auto split: option.splits)
  next
    case True
    then obtain q where q: "find_queue s (b_queue b) = Some q" by auto
    let ?t = "if q_lock_id q \<notin> set targets then targets @ [q_lock_id q] else targets"
    have "set (collect_targets s x key bs ?t) = set ?t \<union>
      {q_lock_id q | b q. b \<in> set bs \<and> binding_matches x key b \<and> find_queue s (b_queue b) = Some q} \<and>
      length (collect_targets s x key bs ?t) \<le> length ?t + length bs"
      by (rule Cons.IH) (use Cons.prems in auto)
    moreover have "collect_targets s x key (b # bs) targets = collect_targets s x key bs ?t"
      using True q Cons.prems by simp
    ultimately show ?thesis using True q by auto
  qed
qed simp

lemma collect_routes:
  assumes "exchange_ok x" shows "set (collect_targets s x key (x_bindings x) []) = routes s x key"
  using collect_targets_set [of "[]" "x_bindings x" s x key] assms by (simp add: exchange_ok_def routes_def)

text \<open>
  C19: route resolution finds exactly the live queues that a matching binding of the exchange
  names, each once; when there is none, exactly those of its alternate exchange, and no
  further hop is taken; the default exchange routes by queue name.\<close>
theorem resolve_exact:
  assumes "exchanges_ok s"
  shows "pred_option distinct (exchange_resolve_locked s ex key) \<and> map_option set (exchange_resolve_locked s ex key) =
      (if ex = [] then Some (if key = [] then {} else case find_queue s key of None \<Rightarrow> {} | Some q \<Rightarrow> {q_lock_id q})
       else case find_exchange s ex of None \<Rightarrow> None
       | Some x \<Rightarrow> Some (if routes s x key \<noteq> {} \<or> x_ae_name x = [] then routes s x key
           else case find_exchange s (x_ae_name x) of None \<Rightarrow> {} | Some ax \<Rightarrow> routes s ax key))"
proof (rule conjI)
  show "pred_option distinct (exchange_resolve_locked s ex key)"
    using resolve_distinct [of s ex key] by (cases "exchange_resolve_locked s ex key") simp_all
  show "map_option set (exchange_resolve_locked s ex key) =
      (if ex = [] then Some (if key = [] then {} else case find_queue s key of None \<Rightarrow> {} | Some q \<Rightarrow> {q_lock_id q})
       else case find_exchange s ex of None \<Rightarrow> None
       | Some x \<Rightarrow> Some (if routes s x key \<noteq> {} \<or> x_ae_name x = [] then routes s x key
           else case find_exchange s (x_ae_name x) of None \<Rightarrow> {} | Some ax \<Rightarrow> routes s ax key))"
  proof (cases "ex = [] \<or> find_exchange s ex = None")
    case True
    then show ?thesis
      by (cases "ex = []"; cases "find_queue s key") (simp_all add: exchange_resolve_locked_def resolve_default_def)
  next
    case False
    then obtain x where ne: "ex \<noteq> []" and x: "find_exchange s ex = Some x" by auto
    note r = collect_routes [OF exchanges_ok_find [OF assms x], of s key]
    have em: "collect_targets s x key (x_bindings x) [] = [] \<longleftrightarrow> routes s x key = {}"
      unfolding r [symmetric] by simp
    show ?thesis
    proof (cases "routes s x key \<noteq> {} \<or> x_ae_name x = [] \<or> find_exchange s (x_ae_name x) = None")
      case True
      then show ?thesis
        using ne x em r by (cases "routes s x key = {}") (auto simp: exchange_resolve_locked_def)
    next
      case al: False
      then obtain ax where ax: "find_exchange s (x_ae_name x) = Some ax" by auto
      note ra = collect_routes [OF exchanges_ok_find [OF assms ax], of s key]
      show ?thesis using ne x em al ax ra by (simp add: exchange_resolve_locked_def)
    qed
  qed
qed


definition fan_exchange :: exchange where
  "fan_exchange = \<lparr>x_name = [102], x_type = EXCHANGE_FANOUT, x_durable = False, x_ae_name = [],
     x_bindings = [\<lparr>b_queue = [113], b_key = [], b_footprint = 0\<rparr>], x_binding_count = 1, x_revision = 1,
     x_publish_attempts = 0, x_unroutable = 0\<rparr>"

definition fan_store :: store where
  "fan_store = (one_store one_message)\<lparr>s_exchanges := [fan_exchange]\<rparr>"

lemma fan_store_ok: "store_ok fan_store" "exchanges_ok fan_store"
  using ready_store_ok
  by (simp_all add: fan_store_def exchanges_ok_def exchange_ok_def fan_exchange_def EXCHANGE_BINDINGS_MAX_def EXCHANGE_NAME_MAX_def)

lemma fan_store_find: "find_exchange fan_store [102] = Some fan_exchange" "find_queue fan_store [113] = Some one_message"
  using one_store_find [of one_message] by (simp_all add: fan_store_def find_exchange_def fan_exchange_def find_queue_def)

lemma fan_store_routes: "routes fan_store fan_exchange [1] = {1}"
  using fan_store_find(2) by (auto simp: routes_def fan_exchange_def binding_matches_def)

theorem resolve_exact_witness:
  "map_option set (exchange_resolve_locked fan_store [102] [1]) = Some {1}"
  using resolve_exact [OF fan_store_ok(2), of "[102]" "[1]"] fan_store_find fan_store_routes by simp

subsection \<open>The copies of a fan-out\<close>

lemma link_depth: "q_depth (message_link q m) = Suc (q_depth q)"
  by (simp add: message_link_def Let_def)

lemma below_limit:
  assumes "q_max_depth q \<noteq> 0" and "\<not> queue_full q" and "q_depth q < 2 ^ 64"
  shows "Suc (q_depth q) \<le> unat (q_max_depth q)"
proof -
  have "word_of_nat (q_depth q) < q_max_depth q" using assms by (simp add: queue_full_def not_le)
  then have "unat (word_of_nat (q_depth q) :: u64) < unat (q_max_depth q)" by (simp add: word_less_nat_alt)
  then show ?thesis using assms(3) by (simp add: unat_of_nat)
qed



lemma fan_store_publish:
  "fst (exchange_publish fan_store [102] [1] [9] 0 0 (\<lambda>_. 0)) = 0 \<and>
   fst (snd (exchange_publish fan_store [102] [1] [9] 0 0 (\<lambda>_. 0))) = 1"
proof -
  have r: "exchange_resolve_locked fan_store [102] [1] = Some [Suc 0]"
    using fan_store_find by (simp add: exchange_resolve_locked_def) (simp add: fan_exchange_def binding_matches_def EXCHANGE_BINDINGS_MAX_def)
  let ?s = "count_attempt fan_store [102] False"
  have g: "get_queue ?s (Suc 0) = Some one_message" "s_env ?s = easy_env"
    by (simp_all add: count_attempt_def upd_exchange_def fan_store_def one_store_def get_queue_def store_init_def)
  have sk: "reap_queue_locked ?s (Suc 0) 0 0 False [Suc 0] = ?s"
    by (simp add: reap_queue_locked_def g) (simp add: one_message_def blank_queue_def message_link_def message_create_def)
  have nf: "\<not> queue_full one_message" by (simp add: queue_full_def one_message_def blank_queue_def)
  show ?thesis
    by (simp add: exchange_publish_def r sort_targets_sort sk g nf EXCHANGE_NAME_MAX_def ROUTING_KEY_MAX_def QUEUE_MESSAGE_MAX_def
        append_message_def alloc_def easy_env_def Let_def finish_durable_def)
qed


subsection \<open>The depth limit\<close>

lemma reaped_length: "length (reaped R K now t ms) \<le> length ms"
  by (simp add: reaped_def)

text \<open>
  C21: a publication never fills a queue beyond its limit: whatever the outcome, the queue is
  afterwards no longer than its limit or than it was before.\<close>
theorem publish_respects_limit:
  assumes "store_ok s" and "find_queue s name = Some q" and "q_max_depth q \<noteq> 0" and "length (q_msgs q) < 2 ^ 64"
    and "queue_publish s name data ttl now t = (rc, mid, s')"
  shows "\<exists>q'. get_queue s' (q_lock_id q) = Some q' \<and>
    length (q_msgs q') \<le> max (length (q_msgs q)) (unat (q_max_depth q))"
proof (cases "\<not> name_valid name \<or> length data > QUEUE_MESSAGE_MAX")
  case True
  then show ?thesis using assms find_queue_get [OF assms(1,2)] by (auto simp: queue_publish_def)
next
  case False
  note g = find_queue_get [OF assms(1,2)]
  obtain rc1 mid1 s1 where p: "publish_one_locked s (q_lock_id q) data ttl now t = (rc1, mid1, s1)" by (rule prod_cases3)
  obtain q1 K where r: "static q1 = static q" "q_msgs q1 = reaped (set (refs (q_msgs q))) K now t (q_msgs q)" "queue_ok q1"
    "rc1 = 0 \<and> \<not> queue_full q1 \<and> (\<exists>ref. get_queue s1 (q_lock_id q) =
        Some (message_link q1 (message_create ref mid1 (if ttl \<noteq> 0 then now + ttl else 0) data))) \<or>
     rc1 = -1 \<and> get_queue s1 (q_lock_id q) = Some q1"
    by (rule publish_one_ok [OF assms(1) g p])
  have d: "q_depth q1 = length (q_msgs q1)" using r(3) by (simp add: queue_ok_def)
  have l: "length (q_msgs q1) \<le> length (q_msgs q)" unfolding r(2) by (rule reaped_length)
  have "get_queue s' (q_lock_id q) = get_queue s1 (q_lock_id q)"
    using assms(5) False assms(2) p
    by (auto simp: queue_publish_def Let_def split: if_splits prod.splits dest!: finish_durable_frame frameD(2))
  then show ?thesis
    using r(4) l below_limit [of q1] r(1) d assms(3,4) by (auto simp: static_eq)
qed

theorem publish_respects_limit_witness:
  "\<exists>q'. get_queue (snd (snd (queue_publish (one_store (one_message\<lparr>q_max_depth := 1\<rparr>)) [113] [9] 0 0 0))) 1 = Some q' \<and>
     length (q_msgs q') \<le> 1"
proof -
  let ?q = "one_message\<lparr>q_max_depth := 1\<rparr>"
  have "queue_ok ?q = queue_ok one_message" "hint_tight ?q = hint_tight one_message"
    by (simp_all add: queue_ok_def index_sound_def index_full_def tags_ok_def leases_ok_def find_msg_def hint_tight_def)
  then have ok: "store_ok (one_store ?q)"
    using one_message_ok one_message_tight by (intro one_store_ok) (simp_all add: one_message_msgs message_create_def)
  have f: "find_queue (one_store ?q) [113] = Some ?q" using one_store_find [of ?q] by simp
  obtain rc mid s' where e: "queue_publish (one_store ?q) [113] [9] 0 0 0 = (rc, mid, s')" by (rule prod_cases3)
  show ?thesis using publish_respects_limit [OF ok f _ _ e] e by (simp add: one_message_msgs)
qed




subsection \<open>The order of the locks\<close>




subsection \<open>Browsing and counting\<close>

definition body_bytes :: "snapshot \<Rightarrow> nat" where
  "body_bytes p = (case p_data p of None \<Rightarrow> 0 | Some d \<Rightarrow> length d)"

lemma peek_loop_exact:
  assumes "peek_loop ms s room aid wn msk bodies budget = (Some ps, s')"
  shows "map p_id ps = map m_id (take room (filter (peek_wanted aid wn msk) ms)) \<and>
    sum_list (map body_bytes ps) \<le> budget \<and>
    list_all2 (\<lambda>p m. p_data p = None \<or> p_data p = Some (m_data m)) ps (take room (filter (peek_wanted aid wn msk) ms))"
  using assms
proof (induction ms s room aid wn msk bodies budget arbitrary: ps rule: peek_loop.induct)
  case (2 m ms s room aid wn msk bodies budget)
  show ?case
  proof (cases "room = 0 \<or> \<not> peek_wanted aid wn msk m")
    case True
    then show ?thesis using 2 by (auto split: if_splits)
  next
    case False
    let ?c = "bodies \<and> length (m_data m) \<le> budget" and ?left = "if bodies \<and> length (m_data m) \<le> budget then budget - length (m_data m) else budget"
    obtain ok s1 where a: "(if ?c then alloc s else (True, s)) = (ok, s1)" by (rule prod.exhaust)
    obtain r s2 where l: "peek_loop ms s1 (room - 1) aid wn msk bodies ?left = (r, s2)" by (rule prod.exhaust)
    have ok: ok and r: "r \<noteq> None" using "2.prems" False a l by (auto simp: Let_def split: if_splits option.splits)
    then obtain ps' where ps': "r = Some ps'" by blast
    let ?p = "if \<not> bodies then snapshot_of wn m else if length (m_data m) > budget then (snapshot_of wn m)\<lparr>p_omitted := True\<rparr>
        else (snapshot_of wn m)\<lparr>p_data := Some (m_data m)\<rparr>"
    have ps: "ps = ?p # ps'" "s2 = s'" using "2.prems" False a l ok ps' by (simp_all add: Let_def)
    have IH: "map p_id ps' = map m_id (take (room - 1) (filter (peek_wanted aid wn msk) ms)) \<and>
      sum_list (map body_bytes ps') \<le> ?left \<and>
      list_all2 (\<lambda>p m. p_data p = None \<or> p_data p = Some (m_data m)) ps' (take (room - 1) (filter (peek_wanted aid wn msk) ms))"
      by (rule "2.IH"(2) [OF _ _ refl refl a [symmetric]]) (use False ok l ps' ps(2) in simp_all)
    have t: "take room (filter (peek_wanted aid wn msk) (m # ms)) = m # take (room - 1) (filter (peek_wanted aid wn msk) ms)"
      using False by (cases room) simp_all
    have "p_id ?p = m_id m" "p_data ?p = None \<or> p_data ?p = Some (m_data m)" "body_bytes ?p + ?left \<le> budget"
      by (simp_all add: snapshot_of_def body_bytes_def)
    then show ?thesis unfolding ps(1) t using IH by simp
  qed
qed simp

text \<open>
  C23: a page of a queue holds exactly the first messages, up to the requested number, that
  come after the cursor, have not expired and are in one of the wanted states, in the order
  of the queue; every body shown is that of its message, and all bodies together stay within
  the byte budget.\<close>
theorem peek_page_exact:
  assumes "find_queue s name = Some q" and "queue_peek_after s name aid msk n bodies budget wn = (1, ps, rv, s')"
  shows "map p_id ps = map m_id (take n (filter (peek_wanted aid wn msk) (q_msgs q))) \<and> length ps \<le> n \<and>
    sum_list (map body_bytes ps) \<le> budget \<and>
    list_all2 (\<lambda>p m. p_data p = None \<or> p_data p = Some (m_data m)) ps (take n (filter (peek_wanted aid wn msk) (q_msgs q))) \<and>
    rv = q_revision q"
proof -
  obtain s1 where l: "peek_loop (q_msgs q) s1 n aid wn msk bodies budget = (Some ps, s')" and "rv = q_revision q"
    using assms by (auto simp: queue_peek_after_def split: if_splits prod.splits option.splits)
  moreover note peek_loop_exact [OF l]
  moreover from this have "length ps \<le> n" by (metis length_map length_take min.cobounded2)
  ultimately show ?thesis by simp
qed

theorem peek_page_exact_witness:
  "case queue_peek_after (one_store one_message) [113] 0 {QUEUE_PEEK_READY} 5 True 10 0 of (rc, ps, rv, s') \<Rightarrow>
     rc = 1 \<and> map p_id ps = [7]"
proof -
  have f: "find_queue (one_store one_message) [113] = Some one_message" using one_store_find [of one_message] by simp
  have "fst (queue_peek_after (one_store one_message) [113] 0 {QUEUE_PEEK_READY} 5 True 10 0) = 1"
    by (simp add: queue_peek_after_def f name_valid_def QUEUE_NAME_MAX_def alloc_def one_message_msgs message_create_def
        peek_wanted_def peek_state_of_def Let_def) (simp add: one_store_def store_init_def easy_env_def)
  then obtain ps rv s' where e: "queue_peek_after (one_store one_message) [113] 0 {QUEUE_PEEK_READY} 5 True 10 0 = (1, ps, rv, s')"
    by (metis prod.collapse)
  show ?thesis
    using peek_page_exact [OF f e] e by (simp add: one_message_msgs peek_wanted_def peek_state_of_def message_create_def)
qed

lemma index_refs:
  assumes "queue_ok q"
  shows "set (concat (q_tag_buckets q)) = m_ref ` {m \<in> set (q_msgs q). m_state m = MESSAGE_INFLIGHT}"
proof -
  have snd: "index_sound (q_tag_mask q) (q_msgs q) (q_tag_buckets q)" and fl: "index_full (q_tag_mask q) (q_msgs q) (q_tag_buckets q)"
    and tg: "m \<in> set (q_msgs q) \<Longrightarrow> m_tag m \<noteq> 0 \<longleftrightarrow> m_state m = MESSAGE_INFLIGHT" for m
    using assms by (auto simp: queue_ok_def tags_ok_def)
  show ?thesis
  proof (intro set_eqI iffI)
    fix r assume "r \<in> set (concat (q_tag_buckets q))"
    then obtain b where "b \<in> set (q_tag_buckets q)" "r \<in> set b" by auto
    then obtain i where "i < length (q_tag_buckets q)" "r \<in> set (q_tag_buckets q ! i)" by (metis in_set_conv_nth)
    then have "entry_ok (q_tag_mask q) (q_msgs q) i r" using snd by (auto simp: index_sound_def)
    then show "r \<in> m_ref ` {m \<in> set (q_msgs q). m_state m = MESSAGE_INFLIGHT}" using tg by (auto simp: entry_ok_def)
  next
    fix r assume "r \<in> m_ref ` {m \<in> set (q_msgs q). m_state m = MESSAGE_INFLIGHT}"
    then obtain m where m: "m \<in> set (q_msgs q)" "m_tag m \<noteq> 0" "r = m_ref m" using tg by auto
    then have b: "q_tag_buckets q \<noteq> []" "r \<in> set (q_tag_buckets q ! tag_slot (q_tag_mask q) (m_tag m))"
      using fl by (auto simp: index_full_def)
    have "tag_slot (q_tag_mask q) (m_tag m) < length (q_tag_buckets q)"
      using b(1) snd tag_slot_le [of "q_tag_mask q" "m_tag m"] by (simp add: index_sound_def)
    then show "r \<in> set (concat (q_tag_buckets q))" using b(2) by (auto intro!: bexI [OF _ nth_mem])
  qed
qed

lemma owner_inflight_list:
  assumes ok: "queue_ok q" shows "owner_inflight_in q ow = length (filter (owned_by ow) (q_msgs q))"
proof -
  have d: "distinct (refs (q_msgs q))" and n: "q_inflight q = length (filter (\<lambda>m. m_state m = MESSAGE_INFLIGHT) (q_msgs q))"
    and c: "q_tag_count q = length (concat (q_tag_buckets q))"
    using ok by (simp_all add: queue_ok_def inflight_total_def)
  have inj: "inj_on m_ref (set (q_msgs q))" and dm: "distinct (q_msgs q)" using d by (simp_all add: distinct_map)
  have cnt: "length (filter P (q_msgs q)) = card (m_ref ` {m \<in> set (q_msgs q). P m})" for P
    using inj dm distinct_card [of "filter P (q_msgs q)"]
    by (simp add: card_image inj_on_subset [OF inj] Collect_conj_eq [symmetric])
  show ?thesis
  proof (cases "q_inflight q = 0")
    case True
    then have "\<forall>m \<in> set (q_msgs q). \<not> owned_by ow m" using n by (auto simp: owned_by_def filter_empty_conv)
    then have "filter (owned_by ow) (q_msgs q) = []" by (simp add: filter_empty_conv)
    then show ?thesis using True by (simp add: owner_inflight_in_def)
  next
    case False
    let ?P = "\<lambda>r. case find_msg q r of None \<Rightarrow> False | Some m \<Rightarrow> owned_by ow m"
    have "length (filter ?P (concat (q_tag_buckets q))) = length (filter (owned_by ow) (q_msgs q))"
      if tc: "q_tag_count q = q_inflight q"
    proof -
      have "distinct (concat (q_tag_buckets q))"
        using tc c n cnt by (intro card_distinct) (simp only: index_refs [OF ok])
      then have "length (filter ?P (concat (q_tag_buckets q))) = card (set (filter ?P (concat (q_tag_buckets q))))"
        by (intro distinct_card [symmetric] distinct_filter)
      also have "set (filter ?P (concat (q_tag_buckets q))) = m_ref ` {m \<in> set (q_msgs q). owned_by ow m}"
        unfolding set_filter index_refs [OF ok] using find_msg_mem [OF d]
        by (auto simp: owned_by_def split: option.splits)
      finally show ?thesis by (simp only: cnt)
    qed
    then show ?thesis using False by (simp add: owner_inflight_in_def)
  qed
qed

text \<open>
  C24: the number of deliveries an owner holds, which the engine counts over the tag index, is
  the number of messages in flight to that owner over all message lists.\<close>
theorem owner_inflight_exact:
  assumes "store_ok s" and "owner \<noteq> 0"
  shows "queue_owner_inflight s owner =
    length (filter (\<lambda>m. m_state m = MESSAGE_INFLIGHT \<and> m_owner m = owner) (concat (map q_msgs (s_queues s))))"
proof -
  have ok: "queue_ok q" if "q \<in> set (s_queues s)" for q using assms(1) that by (auto simp: store_ok_def queue_in_def)
  have "(\<Sum>q\<leftarrow>s_queues s. owner_inflight_in q owner) = (\<Sum>q\<leftarrow>s_queues s. length (filter (owned_by owner) (q_msgs q)))"
    using owner_inflight_list [OF ok] by (intro arg_cong [of _ _ sum_list] map_cong) simp_all
  moreover have "owned_by owner = (\<lambda>m. m_state m = MESSAGE_INFLIGHT \<and> m_owner m = owner)" by (intro ext) (simp add: owned_by_def)
  ultimately show ?thesis
    using assms(2) by (simp add: queue_owner_inflight_def filter_concat length_concat comp_def)
qed

theorem owner_inflight_exact_witness:
  "queue_owner_inflight (one_store one_delivered) 5 = 1"
  using owner_inflight_exact [OF leased_store_ok, of 5] by (simp add: one_store_def one_delivered_msgs)

end
