(* ===== verification/Cache_Model.thy ===== *)
theory Cache_Model
  imports Byte_Codec
begin

unbundle bit_operations_syntax

text \<open>
  The sharded cache (\<open>kuttidb.c\<close>, \<open>kuttidb_int.h\<close>) outside the embedded mode.  A chain of
  entries is a list; the slab allocator is modelled by what its control flow reads: the
  number of slabs, the bytes left in the current one and the length of every free list.
  Byte counters that the code keeps in unsigned 64-bit atomics are 64-bit words.  The
  allocator and the clock are oracles; operations are atomic, except that a read of an
  expired key is two steps, as the code releases the shard lock between them.
\<close>

subsection \<open>Hashing\<close>

definition mix :: "u32 \<Rightarrow> u32 \<Rightarrow> u32" where
  "mix h k = (let x = (h + k) * 0xc2b2ae35 in push_bit 13 x OR drop_bit 19 x)"

fun hash_loop :: "u32 \<Rightarrow> bytes \<Rightarrow> u32" where
  "hash_loop h (a # b # c # d # rest) = hash_loop (mix h (get32 [a, b, c, d])) rest"
| "hash_loop h (a # rest) = hash_loop (mix h (ucast a)) rest"
| "hash_loop h [] = h"

definition hash_key :: "bytes \<Rightarrow> u32" where
  "hash_key data =
     (let h0 = hash_loop (word_of_nat (length data)) data;
          h1 = h0 XOR drop_bit 16 h0; h2 = h1 * 0x85ebca6b;
          h3 = h2 XOR drop_bit 13 h2; h4 = h3 * 0xc2b2ae35
      in h4 XOR drop_bit 16 h4)"

subsection \<open>Growable vectors\<close>

definition SIZE_MAX :: nat where "SIZE_MAX = 2 ^ 64 - 1"

record kutti_vec =
  v_data :: bytes
  v_cap :: nat

text \<open>
  The growth loop; the overflow test ends it with the exact size.  A capacity of zero never
  enters it: the first size is at least 2.
\<close>

function vec_grow :: "nat \<Rightarrow> nat \<Rightarrow> nat" where
  "vec_grow ncap need =
     (if need \<le> ncap \<or> ncap = 0 then ncap
      else let grow = (if ncap \<ge> 2 ^ 20 then ncap div 2 else ncap)
           in if grow > SIZE_MAX - ncap then need else vec_grow (ncap + grow) need)"
  by pat_completeness auto
termination
  by (relation "measure (\<lambda>(ncap, need). need - ncap)") auto

declare vec_grow.simps [simp del]

definition vec_first :: "nat \<Rightarrow> nat \<Rightarrow> nat" where
  "vec_first cap need =
     (if cap = 0 then 4096
      else if cap \<ge> 2 ^ 20
      then (let grow = cap div 2 in if grow > SIZE_MAX - cap then need else cap + grow)
      else if cap > SIZE_MAX div 2 then need else cap * 2)"

definition kuttidb_vec_reserve :: "kutti_vec \<Rightarrow> nat \<Rightarrow> bool \<Rightarrow> int \<times> kutti_vec" where
  "kuttidb_vec_reserve v extra realloc_ok =
     (if extra > SIZE_MAX - length (v_data v) then (-1, v)
      else
        let need = length (v_data v) + extra
        in if need \<le> v_cap v then (0, v)
           else if \<not> realloc_ok then (-1, v)
           else (0, v\<lparr>v_cap := vec_grow (vec_first (v_cap v) need) need\<rparr>))"

subsection \<open>The state\<close>

definition SIZEOF_ENTRY :: nat where "SIZEOF_ENTRY = 32"
definition SIZEOF_PTR :: nat where "SIZEOF_PTR = 8"
definition SLAB_SIZE :: nat where "SLAB_SIZE = 16 * 1024"
definition SLAB_MAX_ENTRY :: nat where "SLAB_MAX_ENTRY = 4096"
definition DIRECT_CLS :: nat where "DIRECT_CLS = 0xFFFF"
definition NCLASS :: nat where "NCLASS = 27"

definition class_sz :: "nat list" where
  "class_sz = [48, 64, 80, 96, 128, 160, 192, 256, 320, 384, 512, 640, 768,
     1024, 1280, 1536, 2048, 3072, 4096, 6144, 8192, 12288, 16384,
     24576, 32768, 49152, 65536]"

record entry =
  e_exp :: u32
  e_hash :: u32
  e_key :: bytes
  e_val :: bytes
  e_cls :: nat

record shard =
  sh_buckets :: "entry list list"
  sh_count :: nat
  sh_mem :: u64
  sh_slabs :: nat
  sh_left :: nat
  sh_free :: "nat list"

record cache =
  k_shards :: "shard list"
  k_bits :: nat
  k_budget :: u64
  k_total :: u64
  k_allocated :: u64
  k_expired :: u64
  k_evicted :: u64
  k_ttl :: u64
  k_rseed :: u64
  k_revision :: u64
  k_cursor :: u64
  k_malloc :: "nat \<Rightarrow> bool"
  k_calls :: nat

definition nshards :: "cache \<Rightarrow> nat" where
  "nshards c = length (k_shards c)"

definition shard_at :: "cache \<Rightarrow> nat \<Rightarrow> shard" where
  "shard_at c i = k_shards c ! i"

definition upd_shard :: "cache \<Rightarrow> nat \<Rightarrow> (shard \<Rightarrow> shard) \<Rightarrow> cache" where
  "upd_shard c i f = c\<lparr>k_shards := (k_shards c)[i := f (k_shards c ! i)]\<rparr>"

definition nbuckets :: "shard \<Rightarrow> nat" where
  "nbuckets s = length (sh_buckets s)"

text \<open>The index of a hash among \<open>2 ^ bits\<close> shards (its top bits) and among \<open>n\<close> buckets (its low ones).\<close>

definition lane :: "nat \<Rightarrow> u32 \<Rightarrow> nat" where
  "lane bits h = unat (drop_bit (32 - bits) h)"

definition slot :: "nat \<Rightarrow> u32 \<Rightarrow> nat" where
  "slot n h = (unat h) AND (n - 1)"

definition shard_for :: "cache \<Rightarrow> u32 \<Rightarrow> nat" where
  "shard_for c h = lane (k_bits c) h"

definition bucket_for :: "shard \<Rightarrow> u32 \<Rightarrow> nat" where
  "bucket_for s h = slot (nbuckets s) h"

definition bucket_at :: "cache \<Rightarrow> nat \<Rightarrow> nat \<Rightarrow> entry list" where
  "bucket_at c i b = sh_buckets (shard_at c i) ! b"

definition set_bucket :: "cache \<Rightarrow> nat \<Rightarrow> nat \<Rightarrow> entry list \<Rightarrow> cache" where
  "set_bucket c i b es = upd_shard c i (\<lambda>s. s\<lparr>sh_buckets := (sh_buckets s)[b := es]\<rparr>)"

text \<open>The link \<open>pp\<close> of the code is a position in a chain.\<close>

definition entry_match :: "u32 \<Rightarrow> bytes \<Rightarrow> entry \<Rightarrow> bool" where
  "entry_match h key e \<longleftrightarrow> e_hash e = h \<and> e_key e = key"

definition find_pos :: "u32 \<Rightarrow> bytes \<Rightarrow> entry list \<Rightarrow> nat option" where
  "find_pos h key es =
     (let n = length (takeWhile (\<lambda>e. \<not> entry_match h key e) es) in if n < length es then Some n else None)"

definition is_expired :: "u32 \<Rightarrow> entry \<Rightarrow> bool" where
  "is_expired now e \<longleftrightarrow> e_exp e \<noteq> 0 \<and> e_exp e \<le> now"

subsection \<open>Allocation\<close>

definition block_alloc :: "cache \<Rightarrow> nat \<Rightarrow> bool \<times> cache" where
  "block_alloc c sz =
     (let ok = k_malloc c (k_calls c); c1 = c\<lparr>k_calls := Suc (k_calls c)\<rparr>
      in (ok, if ok then c1\<lparr>k_allocated := k_allocated c1 + word_of_nat sz\<rparr> else c1))"

definition shard_slab_free_all :: "cache \<Rightarrow> nat \<Rightarrow> cache" where
  "shard_slab_free_all c i =
     (upd_shard c i (\<lambda>s. s\<lparr>sh_slabs := 0, sh_left := 0, sh_free := replicate NCLASS 0\<rparr>))
       \<lparr>k_allocated := k_allocated c - word_of_nat (sh_slabs (shard_at c i) * SLAB_SIZE)\<rparr>"

definition charge :: "cache \<Rightarrow> nat \<Rightarrow> nat \<Rightarrow> cache" where
  "charge c i got =
     (upd_shard c i (\<lambda>s. s\<lparr>sh_mem := sh_mem s + word_of_nat got\<rparr>))
       \<lparr>k_total := k_total c + word_of_nat got\<rparr>"

definition class_for :: "nat \<Rightarrow> nat" where
  "class_for need = length (takeWhile (\<lambda>sz. sz < need) class_sz)"

text \<open>The class of the new entry, or \<open>None\<close> when memory is refused.\<close>

definition entry_alloc :: "cache \<Rightarrow> nat \<Rightarrow> nat \<Rightarrow> nat option \<times> cache" where
  "entry_alloc c i need =
     (if need > SLAB_MAX_ENTRY
      then (case block_alloc c need of (ok, c1) \<Rightarrow>
              if \<not> ok then (None, c1) else (Some DIRECT_CLS, charge c1 i need))
      else
        let cls = class_for need; csz = class_sz ! cls; s = shard_at c i
        in if sh_free s ! cls \<noteq> 0
           then (Some cls, charge (upd_shard c i (\<lambda>s. s\<lparr>sh_free := (sh_free s)[cls := sh_free s ! cls - 1]\<rparr>)) i csz)
           else
             case (if sh_left s < csz
                   then (case block_alloc c SLAB_SIZE of (ok, c1) \<Rightarrow>
                           (ok, if ok then upd_shard c1 i (\<lambda>s. s\<lparr>sh_slabs := Suc (sh_slabs s),
                                                              sh_left := SLAB_SIZE - SIZEOF_PTR\<rparr>)
                                else c1))
                   else (True, c)) of (ok, c2) \<Rightarrow>
               if \<not> ok then (None, c2)
               else (Some cls, charge (upd_shard c2 i (\<lambda>s. s\<lparr>sh_left := sh_left s - csz\<rparr>)) i csz))"

definition entry_size :: "entry \<Rightarrow> nat" where
  "entry_size e = SIZEOF_ENTRY + length (e_key e) + length (e_val e)"

definition entry_capacity :: "entry \<Rightarrow> nat" where
  "entry_capacity e = (if e_cls e = DIRECT_CLS then entry_size e else class_sz ! e_cls e)"

definition entry_free :: "cache \<Rightarrow> nat \<Rightarrow> entry \<Rightarrow> cache" where
  "entry_free c i e =
     (let c1 = (if e_exp e \<noteq> 0 then c\<lparr>k_ttl := k_ttl c - 1\<rparr> else c); got = entry_capacity e;
          c2 = (if e_cls e = DIRECT_CLS then c1\<lparr>k_allocated := k_allocated c1 - word_of_nat got\<rparr>
                else upd_shard c1 i (\<lambda>s. s\<lparr>sh_free := (sh_free s)[e_cls e := Suc (sh_free s ! e_cls e)]\<rparr>))
      in (upd_shard c2 i (\<lambda>s. s\<lparr>sh_mem := sh_mem s - word_of_nat got\<rparr>))
           \<lparr>k_total := k_total c2 - word_of_nat got\<rparr>)"

definition kuttidb_rand :: "cache \<Rightarrow> u32 \<times> cache" where
  "kuttidb_rand c =
     (let x0 = k_rseed c; x1 = (x0 XOR drop_bit 30 x0) * 0xbf58476d1ce4e5b9;
          x2 = (x1 XOR drop_bit 27 x1) * 0x94d049bb133111eb; x3 = x2 XOR drop_bit 31 x2
      in (ucast (drop_bit 32 x3), c\<lparr>k_rseed := k_rseed c + 0x9e3779b97f4a7c15\<rparr>))"

subsection \<open>Creation\<close>

text \<open>Rounding up to a power of two, by the two loops of the code.\<close>

function round_buckets :: "nat \<Rightarrow> nat \<Rightarrow> nat" where
  "round_buckets rounded want =
     (if rounded < want \<and> rounded \<le> SIZE_MAX div 2 \<and> rounded \<noteq> 0 then round_buckets (rounded * 2) want else rounded)"
  by pat_completeness auto
termination
  by (relation "measure (\<lambda>(rounded, want). want - rounded)") auto

declare round_buckets.simps [simp del]

function shard_bits_for :: "nat \<Rightarrow> nat \<Rightarrow> nat" where
  "shard_bits_for bits want = (if 2 ^ bits < want then shard_bits_for (Suc bits) want else bits)"
  by pat_completeness auto
termination
proof (relation "measure (\<lambda>(bits, want). want - 2 ^ bits)", goal_cases)
  case (2 bits want)
  then have "(2::nat) ^ bits < 2 ^ Suc bits" by simp
  then show ?case using 2 by (simp add: diff_less_mono2)
qed simp

declare shard_bits_for.simps [simp del]

definition fresh_shard :: "nat \<Rightarrow> shard" where
  "fresh_shard nb = \<lparr>sh_buckets = replicate nb [], sh_count = 0, sh_mem = word_of_nat (nb * SIZEOF_PTR),
     sh_slabs = 0, sh_left = 0, sh_free = replicate NCLASS 0\<rparr>"

fun init_loop :: "nat \<Rightarrow> nat \<Rightarrow> cache \<Rightarrow> bool \<times> cache" where
  "init_loop 0 nb c = (True, c)"
| "init_loop (Suc n) nb c =
     (case block_alloc c (nb * SIZEOF_PTR) of (ok, c1) \<Rightarrow>
        if \<not> ok then (False, c1)
        else init_loop n nb (c1\<lparr>k_shards := k_shards c1 @ [fresh_shard nb]\<rparr>))"

definition init_shards :: "cache \<Rightarrow> nat \<Rightarrow> nat \<Rightarrow> bool \<times> cache" where
  "init_shards c n initial_buckets =
     (let want = max 16 initial_buckets; rounded = round_buckets 16 want
      in if rounded < want then (False, c)
         else case init_loop n rounded c of (ok, c1) \<Rightarrow>
           (ok, if ok then c1\<lparr>k_total := k_total c1 + word_of_nat (n * rounded * SIZEOF_PTR)\<rparr> else c1))"

text \<open>\<open>None\<close> is the null pointer; \<open>seed\<close> is the clock reading of the code.\<close>

definition kuttidb_create :: "nat \<Rightarrow> nat \<Rightarrow> u64 \<Rightarrow> (nat \<Rightarrow> bool) \<Rightarrow> cache option" where
  "kuttidb_create n initial_buckets seed mem =
     (let want = (if n = 0 then 16 else n); bits = shard_bits_for 1 want;
          c0 = \<lparr>k_shards = [], k_bits = bits, k_budget = 0, k_total = 0, k_allocated = 0, k_expired = 0,
                k_evicted = 0, k_ttl = 0, k_rseed = push_bit 32 seed OR 0x1234abcd, k_revision = 0,
                k_cursor = 0, k_malloc = mem, k_calls = 2\<rparr>
      in if \<not> mem 0 \<or> \<not> mem 1 then None
         else case init_shards c0 (2 ^ bits) initial_buckets of (ok, c1) \<Rightarrow> if ok then Some c1 else None)"

subsection \<open>Resizing\<close>

definition rehash_into :: "entry list list \<Rightarrow> entry \<Rightarrow> entry list list" where
  "rehash_into nb e = (let idx = slot (length nb) (e_hash e) in nb[idx := e # nb ! idx])"

definition maybe_resize :: "cache \<Rightarrow> nat \<Rightarrow> cache" where
  "maybe_resize c i =
     (let s = shard_at c i
      in if sh_count s \<le> nbuckets s * 2 then c
         else
           let newn = nbuckets s * 2
           in case block_alloc c (newn * SIZEOF_PTR) of (ok, c1) \<Rightarrow>
              if \<not> ok then c1
              else
                let nb = foldl rehash_into (replicate newn []) (concat (sh_buckets s));
                    delta = newn * SIZEOF_PTR - nbuckets s * SIZEOF_PTR
                in (upd_shard c1 i (\<lambda>s. s\<lparr>sh_buckets := nb, sh_mem := sh_mem s + word_of_nat delta\<rparr>))
                     \<lparr>k_total := k_total c1 + word_of_nat delta,
                      k_allocated := k_allocated c1 - word_of_nat (nbuckets s * SIZEOF_PTR)\<rparr>)"

text \<open>The bytes still accounted when the cache is gone: what no step gave back.\<close>

definition kuttidb_destroy :: "cache \<Rightarrow> u64" where
  "kuttidb_destroy c =
     k_allocated (fold (\<lambda>i c. (shard_slab_free_all c i)
       \<lparr>k_allocated := k_allocated (shard_slab_free_all c i) - word_of_nat (nbuckets (shard_at c i) * SIZEOF_PTR)\<rparr>)
       [0..<nshards c] c)"

subsection \<open>Removal and eviction\<close>

text \<open>The n-th link of bucket \<open>b\<close> of shard \<open>i\<close> is unlinked and its entry given back.\<close>

definition remove_locked :: "cache \<Rightarrow> nat \<Rightarrow> nat \<Rightarrow> nat \<Rightarrow> cache" where
  "remove_locked c i b n =
     (let es = bucket_at c i b;
          c1 = entry_free (set_bucket c i b (take n es @ drop (Suc n) es)) i (es ! n);
          c2 = upd_shard c1 i (\<lambda>s. s\<lparr>sh_count := sh_count s - 1\<rparr>)
      in if sh_count (shard_at c2 i) = 0 then shard_slab_free_all c2 i else c2)"

definition kuttidb_set_budget :: "cache \<Rightarrow> u64 \<Rightarrow> cache" where
  "kuttidb_set_budget c budget_bytes = c\<lparr>k_budget := budget_bytes\<rparr>"

text \<open>The first non-empty bucket from a start, around the table.\<close>

definition probe_bucket :: "shard \<Rightarrow> nat \<Rightarrow> nat option" where
  "probe_bucket s idx =
     find (\<lambda>b. sh_buckets s ! b \<noteq> []) (map (\<lambda>probe. (idx + probe) AND (nbuckets s - 1)) [0..<nbuckets s])"

definition evict_one :: "cache \<Rightarrow> cache" where
  "evict_one c =
     (case kuttidb_rand c of (r1, c1) \<Rightarrow>
      let i = (unat r1) AND (nshards c1 - 1)
      in if sh_count (shard_at c1 i) = 0 then c1
         else case kuttidb_rand c1 of (r2, c2) \<Rightarrow>
           case probe_bucket (shard_at c2 i) ((unat r2) AND (nbuckets (shard_at c2 i) - 1)) of
             None \<Rightarrow> c2
           | Some b \<Rightarrow> let c3 = remove_locked c2 i b 0 in c3\<lparr>k_evicted := k_evicted c3 + 1\<rparr>)"

fun evict_loop :: "nat \<Rightarrow> u64 \<Rightarrow> cache \<Rightarrow> cache" where
  "evict_loop 0 budget c = c"
| "evict_loop (Suc n) budget c = (if k_total c \<le> budget then c else evict_loop n budget (evict_one c))"

definition evict_under_budget :: "cache \<Rightarrow> nat \<Rightarrow> cache" where
  "evict_under_budget c max_iter = (if k_budget c = 0 then c else evict_loop max_iter (k_budget c) c)"

subsection \<open>Writing\<close>

definition kuttidb_expiry_from_ttl :: "u64 \<Rightarrow> u64 \<Rightarrow> u32" where
  "kuttidb_expiry_from_ttl now ttl_ms =
     (if ttl_ms = 0 then 0
      else
        let secs = ttl_ms div 1000 + (if ttl_ms mod 1000 \<noteq> 0 then 1 else 0); max_add = 0xFFFFFFF0;
            target0 = now + (if secs > max_add then max_add else secs);
            target1 = (if target0 > 0xFFFFFFFF then 0xFFFFFFFF else target0);
            target2 = (if target1 \<le> now \<and> now < 0xFFFFFFFF then now + 1 else target1)
        in ucast target2)"

definition bump_revision :: "cache \<Rightarrow> cache" where
  "bump_revision c = c\<lparr>k_revision := k_revision c + 1\<rparr>"

definition count_ttl :: "u32 \<Rightarrow> cache \<Rightarrow> cache" where
  "count_ttl exp c = (if exp \<noteq> 0 then c\<lparr>k_ttl := k_ttl c + 1\<rparr> else c)"

definition evict_over :: "u64 \<Rightarrow> cache \<Rightarrow> cache" where
  "evict_over budget c =
     (if budget \<noteq> 0 \<and> k_total c > budget then evict_under_budget c (nshards c * 4) else c)"

text \<open>The three ways a put ends: in place, with a larger entry in the same link, at the head.\<close>

definition overwrite_entry :: "cache \<Rightarrow> nat \<Rightarrow> nat \<Rightarrow> nat \<Rightarrow> bytes \<Rightarrow> u32 \<Rightarrow> cache" where
  "overwrite_entry c i b n value exp =
     (let es = bucket_at c i b; e = es ! n;
          c1 = (if e_exp e = 0 \<and> exp \<noteq> 0 then c\<lparr>k_ttl := k_ttl c + 1\<rparr>
                else if e_exp e \<noteq> 0 \<and> exp = 0 then c\<lparr>k_ttl := k_ttl c - 1\<rparr> else c)
      in bump_revision (set_bucket c1 i b (es[n := e\<lparr>e_val := value, e_exp := exp\<rparr>])))"

definition replace_entry :: "cache \<Rightarrow> nat \<Rightarrow> nat \<Rightarrow> nat \<Rightarrow> entry \<Rightarrow> cache" where
  "replace_entry c i b n ne =
     (let es = bucket_at c i b
      in bump_revision (entry_free (set_bucket (count_ttl (e_exp ne) c) i b (es[n := ne])) i (es ! n)))"

definition insert_entry :: "cache \<Rightarrow> nat \<Rightarrow> nat \<Rightarrow> entry \<Rightarrow> cache" where
  "insert_entry c i b ne =
     (let c1 = set_bucket (count_ttl (e_exp ne) c) i b (ne # bucket_at c i b);
          c2 = upd_shard c1 i (\<lambda>s. s\<lparr>sh_count := Suc (sh_count s)\<rparr>)
      in bump_revision (maybe_resize c2 i))"

definition kuttidb_put_abs :: "cache \<Rightarrow> bytes \<Rightarrow> bytes \<Rightarrow> u32 \<Rightarrow> int \<times> cache" where
  "kuttidb_put_abs c0 key value exp =
     (let h = hash_key key; i = shard_for c0 h; budget = k_budget c0;
          c = (if budget \<noteq> 0 \<and> k_total c0 \<ge> budget then evict_under_budget c0 (nshards c0 * 2) else c0);
          b = bucket_for (shard_at c i) h; need = SIZEOF_ENTRY + length key + length value;
          ne = (\<lambda>cls. \<lparr>e_exp = exp, e_hash = h, e_key = key, e_val = value, e_cls = cls\<rparr>)
      in case find_pos h key (bucket_at c i b) of
           Some n \<Rightarrow>
             if need \<le> entry_capacity (bucket_at c i b ! n) then (0, overwrite_entry c i b n value exp)
             else (case entry_alloc c i need of
                 (None, c1) \<Rightarrow> (-1, c1)
               | (Some cls, c1) \<Rightarrow> (0, evict_over budget (replace_entry c1 i b n (ne cls))))
         | None \<Rightarrow>
             (case entry_alloc c i need of
                 (None, c1) \<Rightarrow> (-1, c1)
               | (Some cls, c1) \<Rightarrow> (0, evict_over budget (insert_entry c1 i b (ne cls)))))"

definition kuttidb_put_ex :: "cache \<Rightarrow> bytes \<Rightarrow> bytes \<Rightarrow> u64 \<Rightarrow> u64 \<Rightarrow> int \<times> cache" where
  "kuttidb_put_ex c key value ttl_ms now = kuttidb_put_abs c key value (kuttidb_expiry_from_ttl now ttl_ms)"

definition kuttidb_put :: "cache \<Rightarrow> bytes \<Rightarrow> bytes \<Rightarrow> u64 \<Rightarrow> int \<times> cache" where
  "kuttidb_put c key value now = kuttidb_put_ex c key value 0 now"

subsection \<open>Reading and deleting\<close>

definition cache_find :: "cache \<Rightarrow> bytes \<Rightarrow> entry option" where
  "cache_find c key =
     (let h = hash_key key; i = shard_for c h
      in find (entry_match h key) (bucket_at c i (bucket_for (shard_at c i) h)))"

text \<open>Where a read puts the value: a fresh copy, the end of a vector, or nowhere (null pointers).\<close>

datatype copy_dest = Copy_Null | Copy_Out "bytes option" | Copy_Vec kutti_vec

definition lookup_copy :: "cache \<Rightarrow> bytes \<Rightarrow> copy_dest \<Rightarrow> u32 \<Rightarrow> bool \<Rightarrow> int \<times> copy_dest" where
  "lookup_copy c key dest now mem_ok =
     (if dest = Copy_Null then (-1, dest)
      else case cache_find c key of None \<Rightarrow> (0, dest)
      | Some e \<Rightarrow>
          if is_expired now e then (-2, dest)
          else case dest of
              Copy_Vec v \<Rightarrow> (case kuttidb_vec_reserve v (length (e_val e)) mem_ok of (rc, v1) \<Rightarrow>
                if rc < 0 then (-1, Copy_Vec v1) else (1, Copy_Vec (v1\<lparr>v_data := v_data v1 @ e_val e\<rparr>)))
            | _ \<Rightarrow> if mem_ok then (1, Copy_Out (Some (e_val e))) else (-1, dest))"

text \<open>The removal after the lock was taken again; it does not look at the expiry a second time.\<close>

definition get_expire :: "cache \<Rightarrow> bytes \<Rightarrow> cache" where
  "get_expire c key =
     (let h = hash_key key; i = shard_for c h; b = bucket_for (shard_at c i) h
      in case find_pos h key (bucket_at c i b) of None \<Rightarrow> c
         | Some n \<Rightarrow> let c1 = remove_locked c i b n in c1\<lparr>k_expired := k_expired c1 + 1\<rparr>)"

text \<open>
  \<open>clock\<close> is asked when the caller gives no time; \<open>meanwhile\<close> is what other threads do
  between the two critical sections.
\<close>

definition get_common ::
  "cache \<Rightarrow> bytes \<Rightarrow> copy_dest \<Rightarrow> u32 \<Rightarrow> u32 \<Rightarrow> bool \<Rightarrow> (cache \<Rightarrow> cache) \<Rightarrow> int \<times> copy_dest \<times> cache" where
  "get_common c key dest now clock mem_ok meanwhile =
     (case lookup_copy c key dest (if now = 0 then clock else now) mem_ok of (rc, dest1) \<Rightarrow>
        if rc \<noteq> -2 then (rc, dest1, c) else (0, dest1, get_expire (meanwhile c) key))"

definition kuttidb_get :: "cache \<Rightarrow> bytes \<Rightarrow> copy_dest \<Rightarrow> u32 \<Rightarrow> bool \<Rightarrow> int \<times> copy_dest \<times> cache" where
  "kuttidb_get c key dest clock mem_ok =
     (if dest = Copy_Null then (-1, dest, c) else get_common c key dest 0 clock mem_ok (\<lambda>c. c))"

definition kuttidb_get_into :: "cache \<Rightarrow> bytes \<Rightarrow> kutti_vec \<Rightarrow> u32 \<Rightarrow> bool \<Rightarrow> int \<times> copy_dest \<times> cache" where
  "kuttidb_get_into c key v clock mem_ok = get_common c key (Copy_Vec v) 0 clock mem_ok (\<lambda>c. c)"

definition kuttidb_get_into_at ::
  "cache \<Rightarrow> bytes \<Rightarrow> kutti_vec \<Rightarrow> u32 \<Rightarrow> u32 \<Rightarrow> bool \<Rightarrow> int \<times> copy_dest \<times> cache" where
  "kuttidb_get_into_at c key v now_sec clock mem_ok = get_common c key (Copy_Vec v) now_sec clock mem_ok (\<lambda>c. c)"

definition kuttidb_delete :: "cache \<Rightarrow> bytes \<Rightarrow> int \<times> cache" where
  "kuttidb_delete c key =
     (let h = hash_key key; i = shard_for c h; b = bucket_for (shard_at c i) h
      in case find_pos h key (bucket_at c i b) of None \<Rightarrow> (0, c)
         | Some n \<Rightarrow> (1, bump_revision (remove_locked c i b n)))"

subsection \<open>The expiry sweep\<close>

function sweep_chain :: "u32 \<Rightarrow> nat \<Rightarrow> nat \<Rightarrow> nat \<Rightarrow> nat \<Rightarrow> cache \<Rightarrow> cache" where
  "sweep_chain now i b n 0 c = c"
| "sweep_chain now i b n (Suc left) c =
     (if is_expired now (bucket_at c i b ! n)
      then (let c1 = remove_locked c i b n
            in sweep_chain now i b n left (c1\<lparr>k_revision := k_revision c1 + 1, k_expired := k_expired c1 + 1\<rparr>))
      else sweep_chain now i b (Suc n) left c)"
  by pat_completeness auto
termination
  by (relation "measure (\<lambda>(now, i, b, n, left, c). left)") auto

text \<open>One ticket: the bucket it names is walked to its end.\<close>

definition sweep_bucket :: "u32 \<Rightarrow> cache \<Rightarrow> cache" where
  "sweep_bucket now c =
     (let ticket = k_cursor c; c1 = c\<lparr>k_cursor := ticket + 1\<rparr>;
          i = (unat ticket) AND (nshards c - 1);
          b = (unat ticket div nshards c) AND (nbuckets (shard_at c i) - 1)
      in sweep_chain now i b 0 (length (bucket_at c1 i b)) c1)"

definition kuttidb_sweep_expired :: "cache \<Rightarrow> nat \<Rightarrow> u32 \<Rightarrow> cache" where
  "kuttidb_sweep_expired c bucket_work now = (if k_ttl c = 0 then c else (sweep_bucket now ^^ bucket_work) c)"

subsection \<open>Counters\<close>

definition kuttidb_revision :: "cache \<Rightarrow> u64" where "kuttidb_revision c = k_revision c"

definition kuttidb_count :: "cache \<Rightarrow> nat" where
  "kuttidb_count c = sum_list (map sh_count (k_shards c))"

definition kuttidb_memusage :: "cache \<Rightarrow> u64" where "kuttidb_memusage c = k_total c"
definition kuttidb_allocated :: "cache \<Rightarrow> u64" where "kuttidb_allocated c = k_allocated c"
definition kuttidb_expired_count :: "cache \<Rightarrow> u64" where "kuttidb_expired_count c = k_expired c"
definition kuttidb_evicted_count :: "cache \<Rightarrow> u64" where "kuttidb_evicted_count c = k_evicted c"

subsection \<open>Iteration\<close>

text \<open>
  A shard is staged into a byte vector under its lock and the callback runs on the staged
  bytes afterwards.  The callback answers from what it is shown; the model returns the
  calls that were made.  \<open>grow\<close> answers the reallocations of the staging vector.
\<close>

definition stage_entry :: "entry \<Rightarrow> bytes" where
  "stage_entry e = put32 (word_of_nat (length (e_key e))) @ put32 (word_of_nat (length (e_val e)))
     @ put32 (e_exp e) @ e_key e @ e_val e"

fun stage_entries :: "u32 \<Rightarrow> (nat \<Rightarrow> bool) \<Rightarrow> entry list \<Rightarrow> kutti_vec \<times> nat \<Rightarrow> bool \<times> kutti_vec \<times> nat" where
  "stage_entries now grow [] (v, k) = (True, v, k)"
| "stage_entries now grow (e # es) (v, k) =
     (if is_expired now e then stage_entries now grow es (v, k)
      else case kuttidb_vec_reserve v (12 + length (e_key e) + length (e_val e)) (grow k) of (rc, v1) \<Rightarrow>
        if rc < 0 then (False, v1, Suc k)
        else stage_entries now grow es (v1\<lparr>v_data := v_data v1 @ stage_entry e\<rparr>, Suc k))"

type_synonym visit = "bytes \<times> bytes \<times> u32"

function run_staged :: "(visit \<Rightarrow> int) \<Rightarrow> bytes \<Rightarrow> visit list \<times> int" where
  "run_staged cb p =
     (if p = [] then ([], 0)
      else
        let klen = unat (get32 p); vlen = unat (get32 (drop 4 p)); exp = get32 (drop 8 p);
            k = take klen (drop 12 p); v = take vlen (drop (12 + klen) p); stop = cb (k, v, exp)
        in if stop \<noteq> 0 then ([(k, v, exp)], stop)
           else case run_staged cb (drop (12 + klen + vlen) p) of (seen, r) \<Rightarrow> ((k, v, exp) # seen, r))"
  by pat_completeness auto
termination
  by (relation "measure (\<lambda>(cb, p). length p)") auto

declare run_staged.simps [simp del]

fun foreach_shards ::
  "u32 \<Rightarrow> (nat \<Rightarrow> bool) \<Rightarrow> (visit \<Rightarrow> int) \<Rightarrow> shard list \<Rightarrow> kutti_vec \<times> nat \<Rightarrow> visit list \<times> int" where
  "foreach_shards now grow cb [] stage = ([], 0)"
| "foreach_shards now grow cb (s # ss) (v, k) =
     (case stage_entries now grow (concat (sh_buckets s)) (v\<lparr>v_data := []\<rparr>, k) of (ok, v1, k1) \<Rightarrow>
        if \<not> ok then ([], -1)
        else case run_staged cb (v_data v1) of (seen, stop) \<Rightarrow>
          if stop \<noteq> 0 then (seen, stop)
          else case foreach_shards now grow cb ss (v1, k1) of (rest, r) \<Rightarrow> (seen @ rest, r))"

definition kuttidb_foreach :: "cache \<Rightarrow> (visit \<Rightarrow> int) \<Rightarrow> u32 \<Rightarrow> (nat \<Rightarrow> bool) \<Rightarrow> visit list \<times> int" where
  "kuttidb_foreach c cb now grow = foreach_shards now grow cb (k_shards c) (\<lparr>v_data = [], v_cap = 0\<rparr>, 0)"

text \<open>Metadata callbacks answer whether to stop; the entries they saw and the count are returned.\<close>

fun metadata_walk :: "u32 \<Rightarrow> (entry \<Rightarrow> bool) \<Rightarrow> nat \<Rightarrow> entry list \<Rightarrow> entry list \<times> nat" where
  "metadata_walk now fn budget [] = ([], 0)"
| "metadata_walk now fn budget (e # es) =
     (if budget = 0 then ([], 0)
      else if is_expired now e then metadata_walk now fn budget es
      else if fn e then ([e], 0)
      else case metadata_walk now fn (budget - 1) es of (seen, delivered) \<Rightarrow> (e # seen, Suc delivered))"

definition kuttidb_foreach_metadata :: "cache \<Rightarrow> nat \<Rightarrow> (entry \<Rightarrow> bool) \<Rightarrow> u32 \<Rightarrow> (entry list \<times> nat) option" where
  "kuttidb_foreach_metadata c max_entries fn now =
     (if max_entries = 0 then None
      else Some (metadata_walk now fn max_entries (concat (map (\<lambda>s. concat (sh_buckets s)) (k_shards c)))))"

type_synonym cursor = "nat \<times> nat \<times> nat"

record page_state =
  p_pos :: cursor
  p_next :: "cursor option"
  p_seen :: "entry list"
  p_delivered :: nat
  p_more :: bool
  p_stop :: bool

fun page_entries ::
  "u32 \<Rightarrow> (entry \<Rightarrow> bool) \<Rightarrow> (entry \<Rightarrow> bool) \<Rightarrow> nat \<Rightarrow> nat \<Rightarrow> nat \<Rightarrow> nat \<Rightarrow> nat \<Rightarrow> entry list \<Rightarrow> page_state \<Rightarrow> page_state" where
  "page_entries now fn match max_entries i b skip entry_index [] st = st"
| "page_entries now fn match max_entries i b skip entry_index (e # es) st =
     (if entry_index < skip \<or> is_expired now e \<or> \<not> match e
      then page_entries now fn match max_entries i b skip (Suc entry_index) es st
      else if p_delivered st = max_entries then st\<lparr>p_more := True\<rparr>
      else
        let st1 = st\<lparr>p_seen := p_seen st @ [e]\<rparr>
        in if fn e then st1\<lparr>p_stop := True\<rparr>
           else page_entries now fn match max_entries i b skip (Suc entry_index) es
                  (st1\<lparr>p_delivered := Suc (p_delivered st), p_next := Some (i, b, Suc entry_index)\<rparr>))"

fun page_buckets ::
  "u32 \<Rightarrow> (entry \<Rightarrow> bool) \<Rightarrow> (entry \<Rightarrow> bool) \<Rightarrow> nat \<Rightarrow> nat \<Rightarrow> nat \<Rightarrow> entry list list \<Rightarrow> page_state \<Rightarrow> page_state" where
  "page_buckets now fn match max_entries i b [] st = st"
| "page_buckets now fn match max_entries i b (es # bs) st =
     (case p_pos st of (pi, pb, pe) \<Rightarrow>
      let skip = (if i = pi \<and> b = pb then pe else 0);
          st1 = page_entries now fn match max_entries i b skip 0 es st
      in if p_stop st1 \<or> p_more st1 then st1
         else page_buckets now fn match max_entries i (Suc b) bs (st1\<lparr>p_pos := (i, Suc b, 0)\<rparr>))"

fun page_shards ::
  "u32 \<Rightarrow> (entry \<Rightarrow> bool) \<Rightarrow> (entry \<Rightarrow> bool) \<Rightarrow> nat \<Rightarrow> nat \<Rightarrow> shard list \<Rightarrow> page_state \<Rightarrow> page_state" where
  "page_shards now fn match max_entries i [] st = st"
| "page_shards now fn match max_entries i (s # ss) st =
     (case p_pos st of (pi, pb, pe) \<Rightarrow>
      let first_bucket = (if i = pi then pb else 0);
          st1 = page_buckets now fn match max_entries i first_bucket (drop first_bucket (sh_buckets s)) st
      in if p_stop st1 \<or> p_more st1 then st1
         else page_shards now fn match max_entries (Suc i) ss (st1\<lparr>p_pos := (Suc i, 0, 0)\<rparr>))"

text \<open>What was seen, how many were delivered, and what the two result pointers were given, if anything.\<close>

definition kuttidb_foreach_metadata_page_filtered ::
  "cache \<Rightarrow> cursor option \<Rightarrow> nat \<Rightarrow> (entry \<Rightarrow> bool) \<Rightarrow> (entry \<Rightarrow> bool) \<Rightarrow> u32 \<Rightarrow>
   (entry list \<times> nat \<times> cursor option \<times> bool option) option" where
  "kuttidb_foreach_metadata_page_filtered c start max_entries fn match now =
     (if max_entries = 0 then None
      else
        let position = (case start of None \<Rightarrow> (0, 0, 0) | Some p \<Rightarrow> p)
        in if fst position \<ge> nshards c then Some ([], 0, Some position, Some False)
           else
             let st0 = \<lparr>p_pos = position, p_next = None, p_seen = [], p_delivered = 0, p_more = False, p_stop = False\<rparr>;
                 st = page_shards now fn match max_entries (fst position) (drop (fst position) (k_shards c)) st0
             in if p_stop st then Some (p_seen st, p_delivered st, p_next st, None)
                else Some (p_seen st, p_delivered st,
                           (if p_delivered st = 0 then Some (p_pos st) else p_next st), Some (p_more st)))"

definition kuttidb_foreach_metadata_page ::
  "cache \<Rightarrow> cursor option \<Rightarrow> nat \<Rightarrow> (entry \<Rightarrow> bool) \<Rightarrow> u32 \<Rightarrow> (entry list \<times> nat \<times> cursor option \<times> bool option) option" where
  "kuttidb_foreach_metadata_page c start max_entries fn now =
     kuttidb_foreach_metadata_page_filtered c start max_entries fn (\<lambda>e. True) now"

end
