(* ===== verification/Cache_Inv.thy ===== *)
theory Cache_Inv
  imports Cache_Model
begin

unbundle bit_operations_syntax

text \<open>
  The invariant of the cache.  Everything a key lookup depends on is the table of chains,
  so the invariant is stated on tables: they are powers of two, every entry sits in the
  chain its hash names, no chain holds a key twice and every entry fits the block it was
  given.  The counters agree with the tables.
\<close>

subsection \<open>Tables\<close>

type_synonym tables = "entry list list list"

definition tables_of :: "cache \<Rightarrow> tables" where
  "tables_of c = map sh_buckets (k_shards c)"

definition fits :: "entry \<Rightarrow> bool" where
  "fits e \<longleftrightarrow> entry_size e \<le> entry_capacity e"

definition placed :: "nat \<Rightarrow> nat \<Rightarrow> nat \<Rightarrow> nat \<Rightarrow> entry \<Rightarrow> bool" where
  "placed bits n i b e \<longleftrightarrow> e_hash e = hash_key (e_key e) \<and> lane bits (e_hash e) = i
     \<and> slot n (e_hash e) = b \<and> fits e"

definition chain_ok :: "nat \<Rightarrow> nat \<Rightarrow> nat \<Rightarrow> nat \<Rightarrow> entry list \<Rightarrow> bool" where
  "chain_ok bits n i b es \<longleftrightarrow> distinct (map e_key es) \<and> (\<forall>e\<in>set es. placed bits n i b e)"

definition table_ok :: "nat \<Rightarrow> nat \<Rightarrow> entry list list \<Rightarrow> bool" where
  "table_ok bits i t \<longleftrightarrow> (\<exists>k. length t = 2 ^ k) \<and> (\<forall>b<length t. chain_ok bits (length t) i b (t ! b))"

definition tables_ok :: "nat \<Rightarrow> tables \<Rightarrow> bool" where
  "tables_ok bits T \<longleftrightarrow> 1 \<le> bits \<and> bits \<le> 32 \<and> length T = 2 ^ bits \<and> (\<forall>i<length T. table_ok bits i (T ! i))"

definition tab_find :: "nat \<Rightarrow> tables \<Rightarrow> bytes \<Rightarrow> entry option" where
  "tab_find bits T key =
     (let h = hash_key key; t = T ! lane bits h
      in find (entry_match h key) (t ! slot (length t) h))"

definition all_entries :: "tables \<Rightarrow> entry list" where
  "all_entries T = concat (concat T)"

definition ttl_count :: "entry list \<Rightarrow> nat" where
  "ttl_count es = length (filter (\<lambda>e. e_exp e \<noteq> 0) es)"

definition counts_of :: "cache \<Rightarrow> nat list" where
  "counts_of c = map sh_count (k_shards c)"

definition mems_of :: "cache \<Rightarrow> u64 list" where
  "mems_of c = map sh_mem (k_shards c)"

definition balanced :: "cache \<Rightarrow> bool" where
  "balanced c \<longleftrightarrow> k_total c = sum_list (mems_of c)"

definition cache_ok :: "cache \<Rightarrow> bool" where
  "cache_ok c \<longleftrightarrow> tables_ok (k_bits c) (tables_of c)
     \<and> counts_of c = map (length \<circ> concat) (tables_of c)
     \<and> k_ttl c = word_of_nat (ttl_count (all_entries (tables_of c)))
     \<and> balanced c"

definition cache_map :: "cache \<Rightarrow> bytes \<rightharpoonup> bytes \<times> u32" where
  "cache_map c key = map_option (\<lambda>e. (e_val e, e_exp e)) (tab_find (k_bits c) (tables_of c) key)"

named_theorems cache_frame

subsection \<open>Indices stay in range\<close>

lemma and_pow2_less: "(n::nat) AND (2 ^ k - 1) < 2 ^ k"
proof -
  have "n AND (2 ^ k - 1) = take_bit k n" by (simp only: take_bit_eq_mask mask_eq_exp_minus_1)
  then show ?thesis by (simp add: take_bit_nat_less_exp)
qed

lemma and_less_of_pow2: "\<exists>k. m = (2::nat) ^ k \<Longrightarrow> n AND (m - 1) < m"
  using and_pow2_less by blast

lemma slot_less: "\<exists>k. m = 2 ^ k \<Longrightarrow> slot m h < m"
  unfolding slot_def by (rule and_less_of_pow2)

lemma lane_less:
  assumes "1 \<le> bits" "bits \<le> 32" shows "lane bits h < 2 ^ bits"
proof -
  have "unat h < 2 ^ bits * 2 ^ (32 - bits)"
    using unsigned_less [of h] assms by (simp flip: power_add)
  then show ?thesis
    unfolding lane_def unat_drop_bit_eq by (simp add: drop_bit_eq_div less_mult_imp_div_less)
qed

lemma tables_okD:
  assumes "tables_ok bits T"
  shows "lane bits h < length T"
    and "i < length T \<Longrightarrow> slot (length (T ! i)) h < length (T ! i)"
    and "i < length T \<Longrightarrow> b < length (T ! i) \<Longrightarrow> chain_ok bits (length (T ! i)) i b (T ! i ! b)"
  using assms lane_less [of bits h]
  by (auto simp: tables_ok_def table_ok_def intro!: slot_less)

subsection \<open>Chains\<close>

lemma find_posD:
  assumes "find_pos h key es = Some n"
  shows "n < length es" "entry_match h key (es ! n)" "find (entry_match h key) es = Some (es ! n)"
proof -
  let ?n = "length (takeWhile (\<lambda>e. \<not> entry_match h key e) es)"
  have n: "n = ?n" "?n < length es" using assms by (auto simp: find_pos_def Let_def split: if_splits)
  then show "n < length es" by simp
  show m: "entry_match h key (es ! n)" using n nth_length_takeWhile [of _ es] by fastforce
  have "\<forall>j<n. \<not> entry_match h key (es ! j)"
    using n by (metis nth_mem set_takeWhileD takeWhile_nth)
  then show "find (entry_match h key) es = Some (es ! n)"
    using n m by (auto simp: find_Some_iff)
qed

lemma takeWhile_short: "length (takeWhile P xs) < length xs \<longleftrightarrow> (\<exists>x\<in>set xs. \<not> P x)"
  by (induction xs) auto

lemma find_pos_None: "find_pos h key es = None \<longleftrightarrow> find (entry_match h key) es = None"
  unfolding find_pos_def Let_def takeWhile_short find_None_iff by auto

lemma chain_find: "chain_ok bits n i b es \<Longrightarrow> find (entry_match (hash_key key) key) es = find (\<lambda>e. e_key e = key) es"
  by (rule find_cong) (auto simp: chain_ok_def placed_def entry_match_def)

lemma chain_split:
  assumes "n < length es"
  obtains xs ys where "es = xs @ es ! n # ys" "length xs = n"
  using assms id_take_nth_drop [of n es] that [of "take n es" "drop (Suc n) es"] by simp

lemma chain_remove:
  assumes ok: "chain_ok bits m i b es" and n: "n < length es"
  shows "chain_ok bits m i b (take n es @ drop (Suc n) es)"
    and "find (\<lambda>e. e_key e = key) (take n es @ drop (Suc n) es) =
           (if key = e_key (es ! n) then None else find (\<lambda>e. e_key e = key) es)"
proof -
  obtain xs ys where s: "es = xs @ es ! n # ys" "length xs = n" using n by (rule chain_split)
  have r: "take n es @ drop (Suc n) es = xs @ ys" using s by (metis append_eq_conv_conj drop_Suc list.sel(3) tl_drop)
  have ok': "chain_ok bits m i b (xs @ es ! n # ys)" using ok s by simp
  show "chain_ok bits m i b (take n es @ drop (Suc n) es)"
    unfolding r using ok' by (auto simp: chain_ok_def)
  have k: "e_key (es ! n) \<notin> e_key ` (set xs \<union> set ys)" using ok' by (auto simp: chain_ok_def)
  then have "find (\<lambda>e. e_key e = e_key (es ! n)) (xs @ ys) = None"
    unfolding find_None_iff by (metis UnI1 UnI2 image_eqI Un_iff set_append)
  moreover have "find (\<lambda>e. e_key e = key) (xs @ es ! n # ys) = find (\<lambda>e. e_key e = key) (xs @ ys)"
    if "key \<noteq> e_key (es ! n)" using that by (auto simp: find_append split: option.splits)
  ultimately show "find (\<lambda>e. e_key e = key) (take n es @ drop (Suc n) es) =
           (if key = e_key (es ! n) then None else find (\<lambda>e. e_key e = key) es)"
    unfolding r using s(1) by auto
qed

lemma chain_update:
  assumes ok: "chain_ok bits m i b es" and n: "n < length es"
    and ne: "e_key ne = e_key (es ! n)" "placed bits m i b ne"
  shows "chain_ok bits m i b (es[n := ne])"
    and "find (\<lambda>e. e_key e = key) (es[n := ne]) =
           (if key = e_key ne then Some ne else find (\<lambda>e. e_key e = key) es)"
proof -
  obtain xs ys where s: "es = xs @ es ! n # ys" "length xs = n" using n by (rule chain_split)
  have r: "es[n := ne] = xs @ ne # ys" by (subst s(1)) (use s(2) in auto)
  have ok': "chain_ok bits m i b (xs @ es ! n # ys)" using ok s by simp
  show "chain_ok bits m i b (es[n := ne])"
    unfolding r using ok' ne by (auto simp: chain_ok_def)
  have "e_key ne \<notin> e_key ` set xs" using ok' ne(1) by (auto simp: chain_ok_def)
  then have "find (\<lambda>e. e_key e = e_key ne) xs = None" unfolding find_None_iff by (metis image_eqI)
  then have 1: "find (\<lambda>e. e_key e = e_key ne) (xs @ ne # ys) = Some ne" by (simp add: find_append)
  have 2: "find (\<lambda>e. e_key e = key) (xs @ es ! n # ys) = find (\<lambda>e. e_key e = key) (xs @ ne # ys)"
    if "key \<noteq> e_key ne" using that ne(1) by (auto simp: find_append split: option.splits)
  show "find (\<lambda>e. e_key e = key) (es[n := ne]) =
           (if key = e_key ne then Some ne else find (\<lambda>e. e_key e = key) es)"
    unfolding r using 1 2 s(1) by auto
qed

lemma chain_cons:
  assumes "chain_ok bits m i b es" "find (\<lambda>e. e_key e = e_key ne) es = None" "placed bits m i b ne"
  shows "chain_ok bits m i b (ne # es)"
  using assms by (auto simp: chain_ok_def find_None_iff)

subsection \<open>Replacing one chain\<close>

definition put_chain :: "tables \<Rightarrow> nat \<Rightarrow> nat \<Rightarrow> entry list \<Rightarrow> tables" where
  "put_chain T i b es = T[i := (T ! i)[b := es]]"

lemma put_chain_lens [simp]:
  "length (put_chain T i b es) = length T" "length (put_chain T i b es ! j) = length (T ! j)"
  by (simp_all add: put_chain_def list_update_beyond nth_list_update_neq nth_list_update linorder_not_less
      split: if_split) (metis length_list_update linorder_not_less list_update_beyond nth_list_update_eq nth_list_update_neq)

lemma put_chain_nth:
  "i < length T \<Longrightarrow> b < length (T ! i) \<Longrightarrow> put_chain T i b es ! j ! d = (if j = i \<and> d = b then es else T ! j ! d)"
  by (cases "i = j") (auto simp: put_chain_def nth_list_update)

lemma put_chain_ok:
  assumes "tables_ok bits T" "i < length T" "b < length (T ! i)" "chain_ok bits (length (T ! i)) i b es"
  shows "tables_ok bits (put_chain T i b es)"
  using assms by (auto simp: tables_ok_def table_ok_def put_chain_nth)

text \<open>A key is looked up in the new chain exactly when its hash names it.\<close>

lemma tab_find_put_chain:
  assumes T: "tables_ok bits T" and i: "i < length T" "b < length (T ! i)"
    and c: "chain_ok bits (length (T ! i)) i b es"
  shows "tab_find bits (put_chain T i b es) key =
    (if lane bits (hash_key key) = i \<and> slot (length (T ! i)) (hash_key key) = b
     then find (\<lambda>e. e_key e = key) es else tab_find bits T key)"
  unfolding tab_find_def Let_def put_chain_nth [OF i] put_chain_lens using chain_find [OF c, of key] by auto

lemma tab_find_chain:
  assumes T: "tables_ok bits T" and i: "i < length T" "b < length (T ! i)"
    and k: "lane bits (hash_key key) = i" "slot (length (T ! i)) (hash_key key) = b"
  shows "tab_find bits T key = find (\<lambda>e. e_key e = key) (T ! i ! b)"
  using chain_find [OF tables_okD(3) [OF T i], of key] k by (simp add: tab_find_def Let_def)

lemma placed_index:
  "placed bits m i b e \<Longrightarrow> lane bits (hash_key (e_key e)) = i \<and> slot m (hash_key (e_key e)) = b"
  by (auto simp: placed_def)

text \<open>The three changes of a chain, as changes of what every key finds.\<close>

lemma tab_remove:
  assumes T: "tables_ok bits T" and i: "i < length T" "b < length (T ! i)" "n < length (T ! i ! b)"
  defines "T' \<equiv> put_chain T i b (take n (T ! i ! b) @ drop (Suc n) (T ! i ! b))"
  shows "tables_ok bits T'" "tab_find bits T' = (tab_find bits T)(e_key (T ! i ! b ! n) := None)"
proof -
  note c = tables_okD(3) [OF T i(1,2)]
  note r = chain_remove [OF c i(3)]
  show "tables_ok bits T'" unfolding T'_def by (rule put_chain_ok [OF T i(1,2) r(1)])
  have p: "placed bits (length (T ! i)) i b (T ! i ! b ! n)" using c i(3) by (simp add: chain_ok_def)
  show "tab_find bits T' = (tab_find bits T)(e_key (T ! i ! b ! n) := None)"
    unfolding T'_def fun_eq_iff
    by (auto simp: tab_find_put_chain [OF T i(1,2) r(1)] r(2) tab_find_chain [OF T i(1,2)]
        placed_index [OF p])
qed

lemma tab_update:
  assumes T: "tables_ok bits T" and i: "i < length T" "b < length (T ! i)" "n < length (T ! i ! b)"
    and ne: "e_key ne = e_key (T ! i ! b ! n)" "placed bits (length (T ! i)) i b ne"
  defines "T' \<equiv> put_chain T i b ((T ! i ! b)[n := ne])"
  shows "tables_ok bits T'" "tab_find bits T' = (tab_find bits T)(e_key ne := Some ne)"
proof -
  note c = tables_okD(3) [OF T i(1,2)]
  note r = chain_update [OF c i(3) ne]
  show "tables_ok bits T'" unfolding T'_def by (rule put_chain_ok [OF T i(1,2) r(1)])
  show "tab_find bits T' = (tab_find bits T)(e_key ne := Some ne)"
    unfolding T'_def fun_eq_iff
    by (auto simp: tab_find_put_chain [OF T i(1,2) r(1)] r(2) tab_find_chain [OF T i(1,2)]
        placed_index [OF ne(2)])
qed

lemma tab_insert:
  assumes T: "tables_ok bits T" and i: "i < length T" "b < length (T ! i)"
    and ne: "tab_find bits T (e_key ne) = None" "placed bits (length (T ! i)) i b ne"
  defines "T' \<equiv> put_chain T i b (ne # T ! i ! b)"
  shows "tables_ok bits T'" "tab_find bits T' = (tab_find bits T)(e_key ne := Some ne)"
proof -
  note c = tables_okD(3) [OF T i(1,2)]
  have "find (\<lambda>e. e_key e = e_key ne) (T ! i ! b) = None"
    using ne tab_find_chain [OF T i, of "e_key ne"] placed_index [OF ne(2)] by simp
  then have r: "chain_ok bits (length (T ! i)) i b (ne # T ! i ! b)" by (rule chain_cons [OF c _ ne(2)])
  show "tables_ok bits T'" unfolding T'_def by (rule put_chain_ok [OF T i r])
  show "tab_find bits T' = (tab_find bits T)(e_key ne := Some ne)"
    unfolding T'_def fun_eq_iff
    by (auto simp: tab_find_put_chain [OF T i r] tab_find_chain [OF T i] placed_index [OF ne(2)])
qed

subsection \<open>What each primitive touches\<close>

lemma upd_shard_lists:
  "tables_of (upd_shard c i f) = (tables_of c)[i := sh_buckets (f (shard_at c i))]"
  "counts_of (upd_shard c i f) = (counts_of c)[i := sh_count (f (shard_at c i))]"
  "mems_of (upd_shard c i f) = (mems_of c)[i := sh_mem (f (shard_at c i))]"
  by (simp_all add: upd_shard_def tables_of_def counts_of_def mems_of_def shard_at_def map_update)

lemma same_shard:
  "(tables_of c)[i := sh_buckets (shard_at c i)] = tables_of c"
  "(counts_of c)[i := sh_count (shard_at c i)] = counts_of c"
  "(mems_of c)[i := sh_mem (shard_at c i)] = mems_of c"
  by (cases "i < nshards c"; simp add: tables_of_def counts_of_def mems_of_def nshards_def shard_at_def
      list_update_same_conv list_update_beyond)+

lemma upd_shard_keeps [cache_frame]:
  "(\<And>s. sh_buckets (f s) = sh_buckets s) \<Longrightarrow> tables_of (upd_shard c i f) = tables_of c"
  "(\<And>s. sh_count (f s) = sh_count s) \<Longrightarrow> counts_of (upd_shard c i f) = counts_of c"
  "(\<And>s. sh_mem (f s) = sh_mem s) \<Longrightarrow> mems_of (upd_shard c i f) = mems_of c"
  by (simp_all add: upd_shard_lists same_shard)

lemma upd_shard_frame [cache_frame]:
  "nshards (upd_shard c i f) = nshards c" "k_bits (upd_shard c i f) = k_bits c"
  "k_ttl (upd_shard c i f) = k_ttl c" "k_total (upd_shard c i f) = k_total c"
  "k_budget (upd_shard c i f) = k_budget c" "k_malloc (upd_shard c i f) = k_malloc c"
  "k_shards (upd_shard c i f) = (k_shards c)[i := f (shard_at c i)]"
  by (simp_all add: upd_shard_def nshards_def shard_at_def)

lemma shard_at_upd [cache_frame]: "i < nshards c \<Longrightarrow> shard_at (upd_shard c i f) i = f (shard_at c i)"
  by (simp add: upd_shard_def shard_at_def nshards_def)

text \<open>Fields outside the shards.\<close>

lemma field_frame [cache_frame]:
  "tables_of (c\<lparr>k_budget := v0\<rparr>) = tables_of c" "tables_of (c\<lparr>k_total := v\<rparr>) = tables_of c"
  "tables_of (c\<lparr>k_allocated := v\<rparr>) = tables_of c" "tables_of (c\<lparr>k_ttl := v\<rparr>) = tables_of c"
  "tables_of (c\<lparr>k_revision := v\<rparr>) = tables_of c" "tables_of (c\<lparr>k_expired := v\<rparr>) = tables_of c"
  "tables_of (c\<lparr>k_evicted := v\<rparr>) = tables_of c" "tables_of (c\<lparr>k_calls := n\<rparr>) = tables_of c"
  "tables_of (c\<lparr>k_rseed := v\<rparr>) = tables_of c" "tables_of (c\<lparr>k_cursor := v\<rparr>) = tables_of c"
  by (simp_all add: tables_of_def)

lemma field_counts [cache_frame]:
  "counts_of (c\<lparr>k_budget := v0\<rparr>) = counts_of c" "counts_of (c\<lparr>k_total := v\<rparr>) = counts_of c"
  "counts_of (c\<lparr>k_allocated := v\<rparr>) = counts_of c" "counts_of (c\<lparr>k_ttl := v\<rparr>) = counts_of c"
  "counts_of (c\<lparr>k_revision := v\<rparr>) = counts_of c" "counts_of (c\<lparr>k_expired := v\<rparr>) = counts_of c"
  "counts_of (c\<lparr>k_evicted := v\<rparr>) = counts_of c" "counts_of (c\<lparr>k_calls := n\<rparr>) = counts_of c"
  "counts_of (c\<lparr>k_rseed := v\<rparr>) = counts_of c" "counts_of (c\<lparr>k_cursor := v\<rparr>) = counts_of c"
  by (simp_all add: counts_of_def)

lemma field_mems [cache_frame]:
  "mems_of (c\<lparr>k_budget := v0\<rparr>) = mems_of c" "mems_of (c\<lparr>k_total := v\<rparr>) = mems_of c"
  "mems_of (c\<lparr>k_allocated := v\<rparr>) = mems_of c" "mems_of (c\<lparr>k_ttl := v\<rparr>) = mems_of c"
  "mems_of (c\<lparr>k_revision := v\<rparr>) = mems_of c" "mems_of (c\<lparr>k_expired := v\<rparr>) = mems_of c"
  "mems_of (c\<lparr>k_evicted := v\<rparr>) = mems_of c" "mems_of (c\<lparr>k_calls := n\<rparr>) = mems_of c"
  "mems_of (c\<lparr>k_rseed := v\<rparr>) = mems_of c" "mems_of (c\<lparr>k_cursor := v\<rparr>) = mems_of c"
  by (simp_all add: mems_of_def)

lemma field_shards [cache_frame]:
  "nshards (c\<lparr>k_budget := v0\<rparr>) = nshards c" "nshards (c\<lparr>k_total := v\<rparr>) = nshards c"
  "nshards (c\<lparr>k_allocated := v\<rparr>) = nshards c" "nshards (c\<lparr>k_ttl := v\<rparr>) = nshards c"
  "nshards (c\<lparr>k_revision := v\<rparr>) = nshards c" "nshards (c\<lparr>k_expired := v\<rparr>) = nshards c"
  "nshards (c\<lparr>k_evicted := v\<rparr>) = nshards c" "nshards (c\<lparr>k_calls := n\<rparr>) = nshards c"
  "nshards (c\<lparr>k_rseed := v\<rparr>) = nshards c" "nshards (c\<lparr>k_cursor := v\<rparr>) = nshards c"
  "shard_at (c\<lparr>k_budget := v0\<rparr>) i = shard_at c i" "shard_at (c\<lparr>k_total := v\<rparr>) i = shard_at c i"
  "shard_at (c\<lparr>k_allocated := v\<rparr>) i = shard_at c i" "shard_at (c\<lparr>k_ttl := v\<rparr>) i = shard_at c i"
  "shard_at (c\<lparr>k_revision := v\<rparr>) i = shard_at c i" "shard_at (c\<lparr>k_expired := v\<rparr>) i = shard_at c i"
  "shard_at (c\<lparr>k_evicted := v\<rparr>) i = shard_at c i" "shard_at (c\<lparr>k_calls := n\<rparr>) i = shard_at c i"
  "shard_at (c\<lparr>k_rseed := v\<rparr>) i = shard_at c i" "shard_at (c\<lparr>k_cursor := v\<rparr>) i = shard_at c i"
  by (simp_all add: nshards_def shard_at_def)

text \<open>Reading through the tables.\<close>

lemma tables_nth: "i < nshards c \<Longrightarrow> tables_of c ! i = sh_buckets (shard_at c i)"
  by (simp add: tables_of_def nshards_def shard_at_def)

lemma tables_length [simp]: "length (tables_of c) = nshards c"
  by (simp add: tables_of_def nshards_def)

lemma counts_length [simp]: "length (counts_of c) = nshards c"
  by (simp add: counts_of_def nshards_def)

lemma mems_length [simp]: "length (mems_of c) = nshards c"
  by (simp add: mems_of_def nshards_def)

lemma bucket_tables: "i < nshards c \<Longrightarrow> bucket_at c i b = tables_of c ! i ! b"
  by (simp add: bucket_at_def tables_nth)

lemma nbuckets_tables: "i < nshards c \<Longrightarrow> nbuckets (shard_at c i) = length (tables_of c ! i)"
  by (simp add: nbuckets_def tables_nth)

lemma set_bucket_tables [cache_frame]: "i < nshards c \<Longrightarrow> tables_of (set_bucket c i b es) = put_chain (tables_of c) i b es"
  by (simp add: set_bucket_def upd_shard_lists put_chain_def tables_nth)

lemma set_bucket_frame [cache_frame]:
  "counts_of (set_bucket c i b es) = counts_of c" "mems_of (set_bucket c i b es) = mems_of c"
  "nshards (set_bucket c i b es) = nshards c" "k_bits (set_bucket c i b es) = k_bits c"
  "k_ttl (set_bucket c i b es) = k_ttl c" "k_total (set_bucket c i b es) = k_total c"
  "k_budget (set_bucket c i b es) = k_budget c" "k_malloc (set_bucket c i b es) = k_malloc c"
  by (simp_all add: set_bucket_def cache_frame)

subsection \<open>Sums over tables\<close>

lemma additive_update:
  fixes f :: "'a list \<Rightarrow> nat"
  assumes add: "\<And>xs ys. f (xs @ ys) = f xs + f ys" and b: "b < length t"
  shows "f (concat (t[b := es])) + f (t ! b) = f (concat t) + f es"
  using b
proof (induction t arbitrary: b)
  case (Cons x t)
  then show ?case by (cases b) (auto simp: add)
qed simp

lemma ttl_count_simps [simp]:
  "ttl_count [] = 0" "ttl_count (xs @ ys) = ttl_count xs + ttl_count ys"
  "ttl_count (e # es) = (if e_exp e \<noteq> 0 then 1 else 0) + ttl_count es"
  by (simp_all add: ttl_count_def)

lemma ttl_put_chain:
  assumes "i < length T" "b < length (T ! i)"
  shows "ttl_count (all_entries (put_chain T i b es)) + ttl_count (T ! i ! b) = ttl_count (all_entries T) + ttl_count es"
  using additive_update [of "\<lambda>xs. ttl_count (concat xs)" i T "(T ! i)[b := es]"]
    additive_update [of ttl_count b "T ! i" es] assms
  by (simp add: all_entries_def put_chain_def)

lemma lengths_put_chain:
  assumes "i < length T" "b < length (T ! i)"
  shows "map (length \<circ> concat) (put_chain T i b es) =
    (map (length \<circ> concat) T)[i := length (concat (T ! i)) + length es - length (T ! i ! b)]"
proof -
  have "length (concat ((T ! i)[b := es])) = length (concat (T ! i)) + length es - length (T ! i ! b)"
    using additive_update [of length b "T ! i" es] assms by simp
  then show ?thesis by (simp add: put_chain_def map_update)
qed

lemma sum_list_update_add:
  "i < length xs \<Longrightarrow> sum_list (xs[i := y]) = sum_list xs + (y - xs ! i :: 'a::len word)"
proof (induction xs arbitrary: i)
  case (Cons x xs)
  then show ?case by (cases i) (auto simp: algebra_simps)
qed simp

lemma ttl_nth: "n < length es \<Longrightarrow> e_exp (es ! n) \<noteq> 0 \<Longrightarrow> 0 < ttl_count es"
  by (auto simp: ttl_count_def filter_empty_conv)

subsection \<open>The primitives of the allocator\<close>

lemma entry_free_frame [cache_frame]:
  "tables_of (entry_free c i e) = tables_of c" "counts_of (entry_free c i e) = counts_of c"
  "nshards (entry_free c i e) = nshards c" "k_bits (entry_free c i e) = k_bits c"
  "k_ttl (entry_free c i e) = (if e_exp e \<noteq> 0 then k_ttl c - 1 else k_ttl c)"
  "k_budget (entry_free c i e) = k_budget c" "k_malloc (entry_free c i e) = k_malloc c"
  by (simp_all add: entry_free_def Let_def cache_frame)

lemma mem_nth: "i < nshards c \<Longrightarrow> sh_mem (shard_at c i) = mems_of c ! i"
  by (simp add: mems_of_def nshards_def shard_at_def)

lemma entry_free_balanced: "i < nshards c \<Longrightarrow> balanced c \<Longrightarrow> balanced (entry_free c i e)"
  by (simp add: balanced_def entry_free_def Let_def upd_shard_lists(3) cache_frame sum_list_update_add mem_nth)

lemma free_all_frame [cache_frame]:
  "tables_of (shard_slab_free_all c i) = tables_of c" "counts_of (shard_slab_free_all c i) = counts_of c"
  "mems_of (shard_slab_free_all c i) = mems_of c" "k_total (shard_slab_free_all c i) = k_total c"
  "nshards (shard_slab_free_all c i) = nshards c" "k_bits (shard_slab_free_all c i) = k_bits c"
  "k_ttl (shard_slab_free_all c i) = k_ttl c"
  "k_budget (shard_slab_free_all c i) = k_budget c" "k_malloc (shard_slab_free_all c i) = k_malloc c"
  by (simp_all add: shard_slab_free_all_def cache_frame)

lemma charge_keeps [cache_frame]:
  "tables_of (charge c i g) = tables_of c" "counts_of (charge c i g) = counts_of c"
  "nshards (charge c i g) = nshards c" "k_bits (charge c i g) = k_bits c" "k_ttl (charge c i g) = k_ttl c"
  "k_budget (charge c i g) = k_budget c" "k_malloc (charge c i g) = k_malloc c"
  by (simp_all add: charge_def cache_frame)

lemma charge_balanced: "i < nshards c \<Longrightarrow> balanced c \<Longrightarrow> balanced (charge c i g)"
  by (simp add: balanced_def charge_def upd_shard_lists(3) cache_frame sum_list_update_add mem_nth)

lemma block_alloc_frame [cache_frame]:
  "tables_of (snd (block_alloc c n)) = tables_of c" "counts_of (snd (block_alloc c n)) = counts_of c"
  "mems_of (snd (block_alloc c n)) = mems_of c" "k_total (snd (block_alloc c n)) = k_total c"
  "nshards (snd (block_alloc c n)) = nshards c" "k_bits (snd (block_alloc c n)) = k_bits c"
  "k_ttl (snd (block_alloc c n)) = k_ttl c" "shard_at (snd (block_alloc c n)) i = shard_at c i"
  "k_budget (snd (block_alloc c n)) = k_budget c" "k_malloc (snd (block_alloc c n)) = k_malloc c"
  "fst (block_alloc c n) = k_malloc c (k_calls c)"
  by (simp_all add: block_alloc_def Let_def cache_frame)

text \<open>What an allocation leaves alone, and that its block is large enough.\<close>

definition same_view :: "cache \<Rightarrow> cache \<Rightarrow> bool" where
  "same_view c c' \<longleftrightarrow> tables_of c' = tables_of c \<and> counts_of c' = counts_of c \<and> k_ttl c' = k_ttl c
     \<and> k_bits c' = k_bits c \<and> k_budget c' = k_budget c \<and> k_malloc c' = k_malloc c"

lemma same_view_nshards: "same_view c c' \<Longrightarrow> nshards c' = nshards c"
  unfolding same_view_def by (metis tables_length)

lemma same_view_trans: "same_view a b \<Longrightarrow> same_view b c \<Longrightarrow> same_view a c"
  by (simp add: same_view_def)

lemma same_view_ok: "same_view c c' \<Longrightarrow> balanced c' \<Longrightarrow> cache_ok c \<Longrightarrow> cache_ok c'"
  by (simp add: same_view_def cache_ok_def)

lemma same_view_map: "same_view c c' \<Longrightarrow> cache_map c' = cache_map c"
  by (simp add: same_view_def cache_map_def fun_eq_iff)

lemma same_view_bucket: "same_view c c' \<Longrightarrow> i < nshards c \<Longrightarrow> bucket_at c' i b = bucket_at c i b"
  using same_view_nshards [of c c'] by (simp add: bucket_tables same_view_def)

lemma class_for_enough:
  assumes "need \<le> SLAB_MAX_ENTRY"
  shows "class_for need < NCLASS" "need \<le> class_sz ! class_for need"
proof -
  have "\<exists>x\<in>set class_sz. \<not> x < need" using assms by (auto simp: class_sz_def SLAB_MAX_ENTRY_def)
  then have l: "class_for need < length class_sz" unfolding class_for_def by (simp only: takeWhile_short)
  then show "class_for need < NCLASS" by (simp add: class_sz_def NCLASS_def)
  show "need \<le> class_sz ! class_for need"
    using nth_length_takeWhile [of "\<lambda>sz. sz < need" class_sz] l by (simp add: class_for_def)
qed

lemma entry_alloc_cases:
  assumes "entry_alloc c i need = (r, c1)" "i < nshards c"
  shows "same_view c c1" "balanced c \<Longrightarrow> balanced c1"
    and "r = Some cls \<Longrightarrow> cls = DIRECT_CLS \<or> cls < NCLASS \<and> need \<le> class_sz ! cls"
    and "\<forall>k. k_malloc c k \<Longrightarrow> r \<noteq> None"
proof -
  obtain ok a where a: "block_alloc c need = (ok, a)" by fastforce
  obtain ok' a' where a': "block_alloc c SLAB_SIZE = (ok', a')" by fastforce
  have fa: "same_view c a" "balanced c \<Longrightarrow> balanced a" "nshards a = nshards c" "ok = k_malloc c (k_calls c)"
    using block_alloc_frame [of c need] a by (simp_all add: same_view_def balanced_def)
  have fa': "same_view c a'" "balanced c \<Longrightarrow> balanced a'" "nshards a' = nshards c" "ok' = k_malloc c (k_calls c)"
    using block_alloc_frame [of c SLAB_SIZE] a' by (simp_all add: same_view_def balanced_def)
  have up: "same_view x (upd_shard x i f)" "balanced x \<Longrightarrow> balanced (upd_shard x i f)"
    if "\<And>s. sh_buckets (f s) = sh_buckets s" "\<And>s. sh_count (f s) = sh_count s" "\<And>s. sh_mem (f s) = sh_mem s" for x f
    using that by (simp_all add: same_view_def balanced_def cache_frame)
  have ch: "same_view x (charge x i g)" and refl: "same_view x x" for x g
    by (simp_all add: same_view_def cache_frame)
  note e = assms(1) [unfolded entry_alloc_def Let_def a a' prod.case]
  show "same_view c c1"
    using e fa(1) fa'(1)
    by (auto split: if_splits intro: refl intro!: same_view_trans [OF _ ch] same_view_trans [OF _ up(1)])
  show "balanced c \<Longrightarrow> balanced c1"
    using e fa fa' assms(2) by (auto split: if_splits intro!: charge_balanced up simp: cache_frame)
  show "r = Some cls \<Longrightarrow> cls = DIRECT_CLS \<or> cls < NCLASS \<and> need \<le> class_sz ! cls"
    using e class_for_enough [of need] by (auto split: if_splits)
  show "\<forall>k. k_malloc c k \<Longrightarrow> r \<noteq> None"
    using e fa(4) fa'(4) by (auto split: if_splits)
qed

end
