(* ===== verification/Cache_Calls.thy ===== *)
theory Cache_Calls
  imports Cache_Inv "HOL-Library.Multiset"
begin

unbundle bit_operations_syntax

text \<open>
  What every operation of the cache does to the invariant and to the map it stands for.
  All of them change one chain, or rebuild one table out of the same entries.
\<close>

definition same_env :: "cache \<Rightarrow> cache \<Rightarrow> bool" where
  "same_env c c' \<longleftrightarrow> k_budget c' = k_budget c \<and> k_malloc c' = k_malloc c \<and> k_bits c' = k_bits c"

lemma same_env_refl [simp]: "same_env c c"
  by (simp add: same_env_def)

lemma same_env_trans: "same_env a b \<Longrightarrow> same_env b c \<Longrightarrow> same_env a c"
  by (simp add: same_env_def)

lemma same_view_env: "same_view c c' \<Longrightarrow> same_env c c'"
  by (simp add: same_view_def same_env_def)

subsection \<open>Changing one chain\<close>

lemma cache_okD:
  assumes "cache_ok c"
  shows "tables_ok (k_bits c) (tables_of c)" "counts_of c = map (length \<circ> concat) (tables_of c)"
    "k_ttl c = word_of_nat (ttl_count (all_entries (tables_of c)))" "balanced c" "\<exists>k. nshards c = 2 ^ k"
    "i < nshards c \<Longrightarrow> \<exists>k. nbuckets (shard_at c i) = 2 ^ k"
  using assms by (auto simp: cache_ok_def tables_ok_def table_ok_def nbuckets_tables)

lemma cache_ok_chain:
  assumes ok: "cache_ok c" and i: "i < nshards c" "b < nbuckets (shard_at c i)"
    and T: "tables_of c' = put_chain (tables_of c) i b es'" "tables_ok (k_bits c) (put_chain (tables_of c) i b es')"
    and bits: "k_bits c' = k_bits c" and bal: "balanced c'"
    and cnt: "counts_of c' = (counts_of c)[i := counts_of c ! i + length es' - length (bucket_at c i b)]"
    and ttl: "k_ttl c' + word_of_nat (ttl_count (bucket_at c i b)) = k_ttl c + word_of_nat (ttl_count es')"
  shows "cache_ok c'"
proof -
  let ?T = "tables_of c"
  have l: "i < length ?T" "b < length (?T ! i)" using i by (simp_all add: nbuckets_tables)
  have "counts_of c' = map (length \<circ> concat) (tables_of c')"
    using cnt lengths_put_chain [OF l] cache_okD(2) [OF ok] i by (simp add: T(1) bucket_tables)
  moreover have "k_ttl c' = word_of_nat (ttl_count (all_entries (tables_of c')))"
  proof -
    have "of_nat (ttl_count (all_entries (tables_of c'))) + word_of_nat (ttl_count (bucket_at c i b)) =
        (k_ttl c' + word_of_nat (ttl_count (bucket_at c i b)) :: u64)"
      using arg_cong [OF ttl_put_chain [OF l, of es'], of "word_of_nat :: nat \<Rightarrow> u64"]
        ttl [unfolded cache_okD(3) [OF ok] bucket_tables [OF i(1)]]
      by (simp add: T(1) bucket_tables i)
    then show ?thesis by simp
  qed
  ultimately show ?thesis using T bits bal by (simp add: cache_ok_def)
qed

lemma ttl_remove_nth:
  "n < length es \<Longrightarrow> ttl_count es = ttl_count (take n es @ drop (Suc n) es) + (if e_exp (es ! n) \<noteq> 0 then 1 else 0)"
  by (subst (1) id_take_nth_drop [of n es]) simp_all

lemma ttl_update_nth:
  "n < length es \<Longrightarrow> ttl_count (es[n := e]) + (if e_exp (es ! n) \<noteq> 0 then 1 else 0) = ttl_count es + (if e_exp e \<noteq> 0 then 1 else 0)"
proof (induction es arbitrary: n)
  case (Cons x xs)
  then show ?case by (cases n) auto
qed simp

lemma count_nth: "i < nshards c \<Longrightarrow> sh_count (shard_at c i) = counts_of c ! i"
  by (simp add: counts_of_def nshards_def shard_at_def)

subsection \<open>Removal\<close>

lemma remove_locked_frame:
  fixes b n :: nat
  assumes i: "i < nshards c"
  defines "es \<equiv> bucket_at c i b"
  shows "tables_of (remove_locked c i b n) = put_chain (tables_of c) i b (take n es @ drop (Suc n) es)"
    and "counts_of (remove_locked c i b n) = (counts_of c)[i := counts_of c ! i - 1]"
    and "k_ttl (remove_locked c i b n) = (if e_exp (es ! n) \<noteq> 0 then k_ttl c - 1 else k_ttl c)"
    and "same_env c (remove_locked c i b n)" "balanced c \<Longrightarrow> balanced (remove_locked c i b n)"
proof -
  let ?a = "entry_free (set_bucket c i b (take n es @ drop (Suc n) es)) i (es ! n)"
  let ?u = "upd_shard ?a i (\<lambda>s. s\<lparr>sh_count := sh_count s - 1\<rparr>)"
  have r: "remove_locked c i b n = ?u \<or> remove_locked c i b n = shard_slab_free_all ?u i"
    by (simp add: remove_locked_def Let_def es_def)
  have cnt: "sh_count (shard_at ?a i) = counts_of c ! i"
    using i count_nth [of i ?a] by (simp add: cache_frame)
  have bal: "balanced ?u" if "balanced c"
  proof -
    have "balanced ?a" by (rule entry_free_balanced) (use i that in \<open>simp_all add: balanced_def cache_frame\<close>)
    then show ?thesis by (simp add: balanced_def cache_frame)
  qed
  note q = disjE [OF r]
  show "tables_of (remove_locked c i b n) = put_chain (tables_of c) i b (take n es @ drop (Suc n) es)"
    by (rule q) (simp_all add: cache_frame i)
  show "counts_of (remove_locked c i b n) = (counts_of c)[i := counts_of c ! i - 1]"
    by (rule q) (simp_all add: cache_frame upd_shard_lists(2) cnt)
  show "k_ttl (remove_locked c i b n) = (if e_exp (es ! n) \<noteq> 0 then k_ttl c - 1 else k_ttl c)"
    by (rule q) (simp_all add: cache_frame)
  show "same_env c (remove_locked c i b n)"
    by (rule q) (simp_all add: same_env_def cache_frame)
  show "balanced (remove_locked c i b n)" if "balanced c"
    by (rule q) (use bal [OF that] in \<open>simp_all add: balanced_def free_all_frame\<close>)
qed

lemma remove_locked_ok:
  assumes ok: "cache_ok c" and i: "i < nshards c" "b < nbuckets (shard_at c i)" "n < length (bucket_at c i b)"
  shows "cache_ok (remove_locked c i b n)"
    "cache_map (remove_locked c i b n) = (cache_map c)(e_key (bucket_at c i b ! n) := None)"
proof -
  let ?T = "tables_of c" and ?es = "bucket_at c i b"
  note T = cache_okD(1) [OF ok]
  have l: "i < length ?T" "b < length (?T ! i)" "n < length (?T ! i ! b)"
    using i by (simp_all add: nbuckets_tables bucket_tables)
  note r = tab_remove [OF T l, folded bucket_tables [OF i(1)]]
  note f = remove_locked_frame [OF i(1), of b n]
  show "cache_ok (remove_locked c i b n)"
  proof (rule cache_ok_chain [OF ok i(1,2) f(1) r(1)])
    show "k_bits (remove_locked c i b n) = k_bits c" using f(4) by (simp add: same_env_def)
    show "balanced (remove_locked c i b n)" by (rule f(5) [OF cache_okD(4) [OF ok]])
    show "counts_of (remove_locked c i b n) =
        (counts_of c)[i := counts_of c ! i + length (take n ?es @ drop (Suc n) ?es) - length ?es]"
      using i(3) f(2) by simp
    show "k_ttl (remove_locked c i b n) + word_of_nat (ttl_count ?es) =
        k_ttl c + word_of_nat (ttl_count (take n ?es @ drop (Suc n) ?es))"
      using f(3) by (subst ttl_remove_nth [OF i(3)]) simp
  qed
  show "cache_map (remove_locked c i b n) = (cache_map c)(e_key (bucket_at c i b ! n) := None)"
    using f(1,4) r(2) by (simp add: cache_map_def fun_eq_iff same_env_def)
qed

subsection \<open>Writing into a chain\<close>

lemma count_ttl_frame [cache_frame]:
  "tables_of (count_ttl exp c) = tables_of c" "counts_of (count_ttl exp c) = counts_of c"
  "mems_of (count_ttl exp c) = mems_of c" "k_total (count_ttl exp c) = k_total c"
  "nshards (count_ttl exp c) = nshards c" "k_bits (count_ttl exp c) = k_bits c"
  "k_budget (count_ttl exp c) = k_budget c" "k_malloc (count_ttl exp c) = k_malloc c"
  "k_ttl (count_ttl exp c) = k_ttl c + (if exp \<noteq> 0 then 1 else 0)"
  by (simp_all add: count_ttl_def cache_frame)

lemma bump_frame [cache_frame]:
  "tables_of (bump_revision c) = tables_of c" "counts_of (bump_revision c) = counts_of c"
  "mems_of (bump_revision c) = mems_of c" "k_total (bump_revision c) = k_total c" "k_ttl (bump_revision c) = k_ttl c"
  "nshards (bump_revision c) = nshards c" "k_bits (bump_revision c) = k_bits c"
  "k_budget (bump_revision c) = k_budget c" "k_malloc (bump_revision c) = k_malloc c"
  by (simp_all add: bump_revision_def cache_frame)

lemma shift_sums: "a' + x = a + y \<Longrightarrow> (k + y - x) + a = k + (a' :: 'a::ab_group_add)"
  by (metis add.commute add_diff_cancel_right' diff_add_eq group_cancel.add1)

text \<open>An entry put in the place of another one with the same key.\<close>

lemma update_ok:
  assumes ok: "cache_ok c" and i: "i < nshards c" "b < nbuckets (shard_at c i)" "n < length (bucket_at c i b)"
    and ne: "e_key ne = e_key (bucket_at c i b ! n)" "placed (k_bits c) (nbuckets (shard_at c i)) i b ne"
    and T: "tables_of c' = put_chain (tables_of c) i b ((bucket_at c i b)[n := ne])"
    and env: "same_env c c'" and bal: "balanced c'" and cnt: "counts_of c' = counts_of c"
    and ttl: "k_ttl c' = k_ttl c + (if e_exp ne \<noteq> 0 then 1 else 0) - (if e_exp (bucket_at c i b ! n) \<noteq> 0 then 1 else 0)"
  shows "cache_ok c'" "cache_map c' = (cache_map c)(e_key ne \<mapsto> (e_val ne, e_exp ne))"
proof -
  let ?T = "tables_of c" and ?es = "bucket_at c i b"
  have l: "i < length ?T" "b < length (?T ! i)" "n < length (?T ! i ! b)"
    using i by (simp_all add: nbuckets_tables bucket_tables)
  note r = tab_update [OF cache_okD(1) [OF ok] l, folded bucket_tables [OF i(1)] nbuckets_tables [OF i(1)], OF ne]
  show "cache_ok c'"
  proof (rule cache_ok_chain [OF ok i(1,2) T r(1)])
    show "k_bits c' = k_bits c" using env by (simp add: same_env_def)
    show "balanced c'" by (rule bal)
    show "counts_of c' = (counts_of c)[i := counts_of c ! i + length (?es[n := ne]) - length ?es]"
      using cnt by simp
    have "(of_nat (ttl_count (?es[n := ne])) + (if e_exp (?es ! n) \<noteq> 0 then 1 else 0) :: u64) =
        of_nat (ttl_count ?es) + (if e_exp ne \<noteq> 0 then 1 else 0)"
      using arg_cong [OF ttl_update_nth [OF i(3), of ne], of "word_of_nat :: nat \<Rightarrow> u64"] by (simp split: if_splits)
    then show "k_ttl c' + word_of_nat (ttl_count ?es) = k_ttl c + word_of_nat (ttl_count (?es[n := ne]))"
      unfolding ttl by (rule shift_sums)
  qed
  show "cache_map c' = (cache_map c)(e_key ne \<mapsto> (e_val ne, e_exp ne))"
    using T env r(2) by (simp add: cache_map_def fun_eq_iff same_env_def)
qed

lemma overwrite_ok:
  fixes exp :: u32
  assumes ok: "cache_ok c" and i: "i < nshards c" "b < nbuckets (shard_at c i)" "n < length (bucket_at c i b)"
    and fit: "SIZEOF_ENTRY + length (e_key (bucket_at c i b ! n)) + length value \<le> entry_capacity (bucket_at c i b ! n)"
  defines "c' \<equiv> overwrite_entry c i b n value exp"
  shows "cache_ok c'" "cache_map c' = (cache_map c)(e_key (bucket_at c i b ! n) \<mapsto> (value, exp))" "same_env c c'"
proof -
  let ?e = "bucket_at c i b ! n"
  let ?ne = "?e\<lparr>e_val := value, e_exp := exp\<rparr>"
  have "placed (k_bits c) (nbuckets (shard_at c i)) i b ?e"
    using tables_okD(3) [OF cache_okD(1) [OF ok]] i
    by (auto simp: nbuckets_tables bucket_tables chain_ok_def)
  then have p: "placed (k_bits c) (nbuckets (shard_at c i)) i b ?ne"
    using fit by (auto simp: placed_def fits_def entry_size_def entry_capacity_def split: if_splits)
  show env: "same_env c c'"
    by (simp add: c'_def overwrite_entry_def Let_def same_env_def cache_frame)
  have T: "tables_of c' = put_chain (tables_of c) i b ((bucket_at c i b)[n := ?ne])"
    using i by (simp add: c'_def overwrite_entry_def Let_def cache_frame)
  have bal: "balanced c'" and cnt: "counts_of c' = counts_of c"
    and ttl: "k_ttl c' = k_ttl c + (if e_exp ?ne \<noteq> 0 then 1 else 0) - (if e_exp ?e \<noteq> 0 then 1 else 0)"
    using cache_okD(4) [OF ok]
    by (simp_all add: c'_def overwrite_entry_def Let_def balanced_def cache_frame)
  show "cache_ok c'" "cache_map c' = (cache_map c)(e_key ?e \<mapsto> (value, exp))"
    using update_ok [OF ok i _ p T env bal cnt ttl] by simp_all
qed

lemma replace_ok:
  assumes ok: "cache_ok c" and i: "i < nshards c" "b < nbuckets (shard_at c i)" "n < length (bucket_at c i b)"
    and ne: "e_key ne = e_key (bucket_at c i b ! n)" "placed (k_bits c) (nbuckets (shard_at c i)) i b ne"
  defines "c' \<equiv> replace_entry c i b n ne"
  shows "cache_ok c'" "cache_map c' = (cache_map c)(e_key ne \<mapsto> (e_val ne, e_exp ne))" "same_env c c'"
proof -
  let ?e = "bucket_at c i b ! n"
  let ?a = "set_bucket (count_ttl (e_exp ne) c) i b ((bucket_at c i b)[n := ne])"
  have r: "c' = bump_revision (entry_free ?a i ?e)" by (simp add: c'_def replace_entry_def Let_def)
  show env: "same_env c c'" by (simp add: r same_env_def cache_frame)
  have T: "tables_of c' = put_chain (tables_of c) i b ((bucket_at c i b)[n := ne])"
    using i by (simp add: r cache_frame)
  have "balanced (entry_free ?a i ?e)"
    by (rule entry_free_balanced) (use i cache_okD(4) [OF ok] in \<open>simp_all add: balanced_def cache_frame\<close>)
  then have bal: "balanced c'" by (simp add: r balanced_def cache_frame)
  have cnt: "counts_of c' = counts_of c"
    and ttl: "k_ttl c' = k_ttl c + (if e_exp ne \<noteq> 0 then 1 else 0) - (if e_exp ?e \<noteq> 0 then 1 else 0)"
    by (simp_all add: r cache_frame)
  show "cache_ok c'" "cache_map c' = (cache_map c)(e_key ne \<mapsto> (e_val ne, e_exp ne))"
    using update_ok [OF ok i ne T env bal cnt ttl] by simp_all
qed

subsection \<open>Rebuilding a table\<close>

text \<open>Chains of different buckets share no key, so a table finds an entry exactly when it holds it.\<close>

lemma in_concatE:
  assumes "x \<in> set (concat t)" obtains b where "b < length t" "x \<in> set (t ! b)"
proof -
  obtain ys where "ys \<in> set t" "x \<in> set ys" using assms by auto
  then show ?thesis using that by (metis in_set_conv_nth)
qed

lemma distinct_concat_keys:
  assumes "\<And>b. b < length t \<Longrightarrow> distinct (map f (t ! b))" "\<And>b e. b < length t \<Longrightarrow> e \<in> set (t ! b) \<Longrightarrow> g (f e) = b"
  shows "distinct (map f (concat t))"
  using assms
proof (induction t rule: rev_induct)
  case (snoc es t)
  have "distinct (map f (concat t))"
  proof (rule snoc.IH)
    fix b assume "b < length t"
    then show "distinct (map f (t ! b))" using snoc.prems(1) [of b] by (simp add: nth_append)
  next
    fix b e assume "b < length t" "e \<in> set (t ! b)"
    then show "g (f e) = b" using snoc.prems(2) [of b e] by (simp add: nth_append)
  qed
  moreover have "distinct (map f es)" using snoc.prems(1) [of "length t"] by simp
  moreover have "f x \<noteq> f y" if x: "x \<in> set (concat t)" and y: "y \<in> set es" for x y
  proof -
    obtain b where b: "b < length t" "x \<in> set (t ! b)" using x by (rule in_concatE)
    then have "g (f x) = b" using snoc.prems(2) [of b x] by (simp add: nth_append)
    moreover have "g (f y) = length t" using snoc.prems(2) [of "length t" y] y by simp
    ultimately show ?thesis using b(1) by auto
  qed
  ultimately show ?case by (auto simp: image_iff)
qed simp

lemma table_keys_distinct:
  assumes "table_ok bits i t" shows "distinct (map e_key (concat t))"
proof (rule distinct_concat_keys [where g = "\<lambda>k. slot (length t) (hash_key k)"])
  fix b e assume "b < length t" "e \<in> set (t ! b)"
  then have "placed bits (length t) i b e" using assms by (auto simp: table_ok_def chain_ok_def)
  then show "slot (length t) (hash_key (e_key e)) = b" using placed_index by blast
qed (use assms in \<open>simp add: table_ok_def chain_ok_def\<close>)

lemma table_find_iff:
  assumes t: "table_ok bits i t" and k: "lane bits (hash_key key) = i"
  shows "find (entry_match (hash_key key) key) (t ! slot (length t) (hash_key key)) = Some e
    \<longleftrightarrow> e \<in> set (concat t) \<and> e_key e = key"
proof -
  let ?b = "slot (length t) (hash_key key)"
  have b: "?b < length t" using t by (auto simp: table_ok_def intro!: slot_less)
  then have c: "chain_ok bits (length t) i ?b (t ! ?b)" using t by (simp add: table_ok_def)
  show ?thesis unfolding chain_find [OF c]
  proof
    assume "find (\<lambda>e. e_key e = key) (t ! ?b) = Some e"
    then show "e \<in> set (concat t) \<and> e_key e = key" using find_Some_mem b by fastforce
  next
    assume e: "e \<in> set (concat t) \<and> e_key e = key"
    then have "e \<in> set (concat t)" by simp
    then obtain d where d: "d < length t" "e \<in> set (t ! d)" by (rule in_concatE)
    then have "placed bits (length t) i d e" using t by (auto simp: table_ok_def chain_ok_def)
    then have "d = ?b" using e placed_index by fastforce
    then have m: "e \<in> set (t ! ?b)" using d by simp
    then obtain x where x: "find (\<lambda>e. e_key e = key) (t ! ?b) = Some x"
      using e by (cases "find (\<lambda>e. e_key e = key) (t ! ?b)") (auto simp: find_None_iff)
    then have "x \<in> set (t ! ?b)" "e_key x = e_key e" using find_Some_mem [OF x] e by auto
    then have "x = e" using c m by (auto simp: chain_ok_def distinct_map dest: inj_onD)
    then show "find (\<lambda>e. e_key e = key) (t ! ?b) = Some e" using x by simp
  qed
qed

text \<open>Two tables with the same entries find the same.\<close>

lemma table_find_same:
  assumes "table_ok bits i t" "table_ok bits i t'" "set (concat t') = set (concat t)" "lane bits (hash_key key) = i"
  shows "find (entry_match (hash_key key) key) (t' ! slot (length t') (hash_key key)) =
    find (entry_match (hash_key key) key) (t ! slot (length t) (hash_key key))"
  using table_find_iff [OF assms(1,4)] table_find_iff [OF assms(2,4)] assms(3)
  by (metis not_Some_eq)

lemma rehash_mset:
  assumes "slot (length nb) (e_hash e) < length nb"
  shows "mset (concat (rehash_into nb e)) = add_mset e (mset (concat nb))"
proof -
  let ?b = "slot (length nb) (e_hash e)"
  have s: "nb = take ?b nb @ nb ! ?b # drop (Suc ?b) nb" using assms by (rule id_take_nth_drop)
  have "rehash_into nb e = take ?b nb @ (e # nb ! ?b) # drop (Suc ?b) nb"
    using assms by (simp add: rehash_into_def Let_def upd_conv_take_nth_drop)
  then show ?thesis by (subst (2) s) simp
qed

lemma rehash_fold:
  assumes "length nb = 2 ^ k" "\<forall>b<length nb. \<forall>e\<in>set (nb ! b). slot (2 ^ k) (e_hash e) = b"
  shows "length (foldl rehash_into nb es) = 2 ^ k
    \<and> (\<forall>b<2 ^ k. \<forall>e\<in>set (foldl rehash_into nb es ! b). slot (2 ^ k) (e_hash e) = b)
    \<and> mset (concat (foldl rehash_into nb es)) = mset (concat nb) + mset es"
  using assms
proof (induction es arbitrary: nb)
  case (Cons e es)
  have l: "slot (length nb) (e_hash e) < length nb" using Cons.prems(1) slot_less by blast
  have "\<forall>b<length (rehash_into nb e). \<forall>x\<in>set (rehash_into nb e ! b). slot (2 ^ k) (e_hash x) = b"
    using Cons.prems l by (auto simp: rehash_into_def Let_def nth_list_update)
  moreover have "length (rehash_into nb e) = 2 ^ k" using Cons.prems(1) by (simp add: rehash_into_def Let_def)
  ultimately have "length (foldl rehash_into (rehash_into nb e) es) = 2 ^ k
    \<and> (\<forall>b<2 ^ k. \<forall>x\<in>set (foldl rehash_into (rehash_into nb e) es ! b). slot (2 ^ k) (e_hash x) = b)
    \<and> mset (concat (foldl rehash_into (rehash_into nb e) es)) = mset (concat (rehash_into nb e)) + mset es"
    by (intro Cons.IH)
  then show ?case unfolding foldl_Cons rehash_mset [OF l] by simp
qed simp

lemma rehash_table:
  assumes t: "table_ok bits i t"
  defines "t' \<equiv> foldl rehash_into (replicate (length t * 2) []) (concat t)"
  shows "table_ok bits i t'" "mset (concat t') = mset (concat t)"
proof -
  obtain k where k: "length t = 2 ^ k" using t by (auto simp: table_ok_def)
  have r: "length t' = 2 ^ Suc k" "\<forall>b<2 ^ Suc k. \<forall>e\<in>set (t' ! b). slot (2 ^ Suc k) (e_hash e) = b"
    "mset (concat t') = mset (concat t)"
    using rehash_fold [of "replicate (length t * 2) []" "Suc k" "concat t"] k by (simp_all add: t'_def)
  have d: "distinct (map e_key (concat t'))"
    using table_keys_distinct [OF t] r(3) by (metis mset_eq_imp_distinct_iff mset_map)
  have "chain_ok bits (length t') i b (t' ! b)" if b: "b < length t'" for b
  proof -
    have "distinct (map e_key (t' ! b))"
      using d b by (metis concat_append concat.simps(2) distinct_append id_take_nth_drop map_append)
    moreover have "placed bits (length t') i b e" if e: "e \<in> set (t' ! b)" for e
    proof -
      have "e \<in> set (concat t')" using e b by auto
      then have "e \<in> set (concat t)" using r(3) by (metis mset_eq_setD)
      then obtain x where "x < length t" "e \<in> set (t ! x)" by (rule in_concatE)
      then have "placed bits (length t) i x e" using t by (auto simp: table_ok_def chain_ok_def)
      moreover have "slot (length t') (e_hash e) = b" using r b e by simp
      ultimately show ?thesis unfolding placed_def by blast
    qed
    ultimately show ?thesis by (simp add: chain_ok_def)
  qed
  then show "table_ok bits i t'" unfolding table_ok_def using r(1) by blast
  show "mset (concat t') = mset (concat t)" by (rule r(3))
qed

lemma tab_find_table:
  assumes T: "tables_ok bits T" and i: "i < length T" and t: "table_ok bits i t" "set (concat t) = set (concat (T ! i))"
  shows "tables_ok bits (T[i := t])" "tab_find bits (T[i := t]) = tab_find bits T"
proof -
  show "tables_ok bits (T[i := t])" using T t(1) i by (auto simp: tables_ok_def nth_list_update)
  have ti: "table_ok bits i (T ! i)" using T i by (simp add: tables_ok_def)
  show "tab_find bits (T[i := t]) = tab_find bits T"
  proof
    fix key
    show "tab_find bits (T[i := t]) key = tab_find bits T key"
      using i table_find_same [OF ti t, of key] by (cases "lane bits (hash_key key) = i") (auto simp: tab_find_def Let_def)
  qed
qed

lemma ttl_mset: "mset xs = mset ys \<Longrightarrow> ttl_count xs = ttl_count ys"
  unfolding ttl_count_def by (metis mset_filter size_mset)

lemma maybe_resize_ok:
  assumes ok: "cache_ok c" and i: "i < nshards c"
  shows "cache_ok (maybe_resize c i)" "cache_map (maybe_resize c i) = cache_map c" "same_env c (maybe_resize c i)"
proof -
  let ?t = "sh_buckets (shard_at c i)"
  let ?nb = "foldl rehash_into (replicate (nbuckets (shard_at c i) * 2) []) (concat ?t)"
  let ?dl = "nbuckets (shard_at c i) * 2 * SIZEOF_PTR - nbuckets (shard_at c i) * SIZEOF_PTR"
  obtain r a where a: "block_alloc c (nbuckets (shard_at c i) * 2 * SIZEOF_PTR) = (r, a)" by fastforce
  have va: "same_view c a" "shard_at a i = shard_at c i" "mems_of a = mems_of c" "k_total a = k_total c"
    using block_alloc_frame [of c "nbuckets (shard_at c i) * 2 * SIZEOF_PTR"] a by (simp_all add: same_view_def)
  note na = same_view_nshards [OF va(1)]
  define d where "d = (upd_shard a i (\<lambda>s. s\<lparr>sh_buckets := ?nb, sh_mem := sh_mem s + word_of_nat ?dl\<rparr>))
    \<lparr>k_total := k_total a + word_of_nat ?dl,
     k_allocated := k_allocated a - word_of_nat (nbuckets (shard_at c i) * SIZEOF_PTR)\<rparr>"
  have cs: "maybe_resize c i = c \<or> maybe_resize c i = a \<or> maybe_resize c i = d"
    by (simp add: maybe_resize_def Let_def a d_def va(2))
  have T: "tables_ok (k_bits c) (tables_of c)" by (rule cache_okD(1) [OF ok])
  have ti: "table_ok (k_bits c) i ?t" using T i by (simp add: tables_ok_def tables_nth)
  note rt = rehash_table [OF ti, folded nbuckets_def]
  have Td: "tables_of d = (tables_of c)[i := ?nb]" and cd: "counts_of d = counts_of c"
    and md: "mems_of d = (mems_of c)[i := sh_mem (shard_at c i) + word_of_nat ?dl]"
    and od: "k_bits d = k_bits c" "k_ttl d = k_ttl c" "k_total d = k_total c + word_of_nat ?dl" "same_env c d"
    using va(1,3,4) by (simp_all add: d_def cache_frame upd_shard_lists(1,3) va(2) same_view_def same_env_def)
  note f = tab_find_table [OF T _ rt(1), unfolded tables_length, OF i] mset_eq_setD [OF rt(2)]
  have ok_d: "cache_ok d"
  proof -
    have "map (length \<circ> concat) (tables_of d) = map (length \<circ> concat) (tables_of c)"
      using i mset_eq_length [OF rt(2)] by (simp add: Td map_update tables_nth list_update_same_conv)
    moreover have "ttl_count (all_entries (tables_of d)) = ttl_count (all_entries (tables_of c))"
      using additive_update [of "\<lambda>xs. ttl_count (concat xs)" i "tables_of c" ?nb] ttl_mset [OF rt(2)] i
      by (simp add: Td all_entries_def tables_nth)
    moreover have "balanced d"
      using cache_okD(4) [OF ok] i by (simp add: balanced_def od md sum_list_update_add mem_nth)
    ultimately show ?thesis
      using f ok i by (simp add: cache_ok_def od cd Td tables_nth)
  qed
  have map_d: "cache_map d = cache_map c"
    using f i by (simp add: cache_map_def fun_eq_iff od Td tables_nth)
  have ok_a: "cache_ok a"
    by (rule same_view_ok [OF va(1) _ ok]) (use cache_okD(4) [OF ok] va in \<open>simp add: balanced_def\<close>)
  show "cache_ok (maybe_resize c i)" using cs ok ok_a ok_d by (elim disjE) simp_all
  show "cache_map (maybe_resize c i) = cache_map c"
    using cs map_d same_view_map [OF va(1)] by (elim disjE) simp_all
  show "same_env c (maybe_resize c i)"
    using cs od(4) same_view_env [OF va(1)] by (elim disjE) simp_all
qed

lemma insert_ok:
  assumes ok: "cache_ok c" and i: "i < nshards c" "b < nbuckets (shard_at c i)"
    and ne: "tab_find (k_bits c) (tables_of c) (e_key ne) = None" "placed (k_bits c) (nbuckets (shard_at c i)) i b ne"
  defines "c' \<equiv> insert_entry c i b ne"
  shows "cache_ok c'" "cache_map c' = (cache_map c)(e_key ne \<mapsto> (e_val ne, e_exp ne))" "same_env c c'"
proof -
  let ?T = "tables_of c"
  let ?a = "set_bucket (count_ttl (e_exp ne) c) i b (ne # bucket_at c i b)"
  let ?d = "upd_shard ?a i (\<lambda>s. s\<lparr>sh_count := Suc (sh_count s)\<rparr>)"
  have l: "i < length ?T" "b < length (?T ! i)" using i by (simp_all add: nbuckets_tables)
  note r = tab_insert [OF cache_okD(1) [OF ok] l ne [unfolded nbuckets_tables [OF i(1)]], folded bucket_tables [OF i(1)]]
  have nd: "nshards ?d = nshards c" by (simp add: cache_frame)
  have T: "tables_of ?d = put_chain ?T i b (ne # bucket_at c i b)" using i by (simp add: cache_frame)
  have ok_d: "cache_ok ?d"
  proof (rule cache_ok_chain [OF ok i T r(1)])
    show "k_bits ?d = k_bits c" by (simp add: cache_frame)
    show "balanced ?d" using cache_okD(4) [OF ok] by (simp add: balanced_def cache_frame)
    show "counts_of ?d = (counts_of c)[i := counts_of c ! i + length (ne # bucket_at c i b) - length (bucket_at c i b)]"
      using i count_nth [of i ?a] by (simp add: cache_frame upd_shard_lists(2))
    show "k_ttl ?d + word_of_nat (ttl_count (bucket_at c i b)) = k_ttl c + word_of_nat (ttl_count (ne # bucket_at c i b))"
      by (simp add: cache_frame)
  qed
  have map_d: "cache_map ?d = (cache_map c)(e_key ne \<mapsto> (e_val ne, e_exp ne))"
    using T r(2) by (simp add: cache_map_def fun_eq_iff cache_frame)
  have e: "c' = bump_revision (maybe_resize ?d i)" by (simp add: c'_def insert_entry_def Let_def)
  have v: "same_view (maybe_resize ?d i) c'" "balanced c' \<longleftrightarrow> balanced (maybe_resize ?d i)"
    by (simp_all add: e same_view_def balanced_def cache_frame)
  note m = maybe_resize_ok [OF ok_d, unfolded nd, OF i(1)]
  show "cache_ok c'" by (rule same_view_ok [OF v(1) _ m(1)]) (use v(2) cache_okD(4) [OF m(1)] in simp)
  show "cache_map c' = (cache_map c)(e_key ne \<mapsto> (e_val ne, e_exp ne))"
    using same_view_map [OF v(1)] m(2) map_d by simp
  have "same_env c ?d" by (simp add: same_env_def cache_frame)
  then show "same_env c c'" by (rule same_env_trans [OF same_env_trans [OF _ m(3)] same_view_env [OF v(1)]])
qed

subsection \<open>Eviction\<close>

definition lossy :: "cache \<Rightarrow> cache \<Rightarrow> bool" where
  "lossy c c' \<longleftrightarrow> cache_ok c' \<and> same_env c c' \<and> cache_map c' \<subseteq>\<^sub>m cache_map c"

lemma lossy_refl: "cache_ok c \<Longrightarrow> lossy c c"
  by (simp add: lossy_def)

lemma lossy_trans: "lossy a b \<Longrightarrow> lossy b c \<Longrightarrow> lossy a c"
  unfolding lossy_def using same_env_trans map_le_trans by blast

lemma counters_ok:
  assumes "same_view c c'" "k_total c' = k_total c" "mems_of c' = mems_of c" "cache_ok c"
  shows "cache_ok c'" "cache_map c' = cache_map c" "same_env c c'"
  using same_view_ok [OF assms(1) _ assms(4)] same_view_map [OF assms(1)] same_view_env [OF assms(1)]
    cache_okD(4) [OF assms(4)] assms(2,3) by (simp_all add: balanced_def)

lemma evicted_ok: "cache_ok c \<Longrightarrow> cache_ok (c\<lparr>k_evicted := v\<rparr>)" "cache_map (c\<lparr>k_evicted := v\<rparr>) = cache_map c"
  by (simp_all add: cache_ok_def cache_map_def balanced_def fun_eq_iff cache_frame)

lemma expired_ok: "cache_ok c \<Longrightarrow> cache_ok (c\<lparr>k_expired := v\<rparr>)" "cache_map (c\<lparr>k_expired := v\<rparr>) = cache_map c"
  by (simp_all add: cache_ok_def cache_map_def balanced_def fun_eq_iff cache_frame)

lemma revision_ok: "cache_ok c \<Longrightarrow> cache_ok (c\<lparr>k_revision := v\<rparr>)" "cache_map (c\<lparr>k_revision := v\<rparr>) = cache_map c"
  by (simp_all add: cache_ok_def cache_map_def balanced_def fun_eq_iff cache_frame)

lemma rand_view: "kuttidb_rand c = (r, c') \<Longrightarrow> same_view c c' \<and> k_total c' = k_total c \<and> mems_of c' = mems_of c
    \<and> shard_at c' i = shard_at c i"
  by (auto simp: kuttidb_rand_def Let_def same_view_def cache_frame)

lemma probe_bucket_some:
  assumes "probe_bucket s idx = Some b" "\<exists>k. nbuckets s = 2 ^ k"
  shows "b < nbuckets s" "sh_buckets s ! b \<noteq> []"
  using find_Some_mem [OF assms(1) [unfolded probe_bucket_def]] and_less_of_pow2 [OF assms(2)] by auto

lemma remove_lossy:
  assumes "cache_ok c" "i < nshards c" "b < nbuckets (shard_at c i)" "n < length (bucket_at c i b)"
  shows "lossy c (remove_locked c i b n)"
  using remove_locked_ok [OF assms] remove_locked_frame(4) [OF assms(2)]
  by (simp add: lossy_def map_le_def)

lemma evict_one_lossy: assumes ok: "cache_ok c" shows "lossy c (evict_one c)"
proof -
  obtain r1 a where a: "kuttidb_rand c = (r1, a)" by fastforce
  obtain r2 d where d: "kuttidb_rand a = (r2, d)" by fastforce
  let ?i = "(unat r1) AND (nshards a - 1)"
  have va: "same_view c a" "k_total a = k_total c" "mems_of a = mems_of c" using rand_view [OF a] by blast+
  have vd: "same_view a d" "k_total d = k_total a" "mems_of d = mems_of a" using rand_view [OF d] by blast+
  note ok_a = counters_ok [OF va ok] note ok_d = counters_ok [OF vd ok_a(1)]
  have la: "lossy c a" using ok_a by (simp add: lossy_def)
  then have ld: "lossy c d" by (rule lossy_trans) (use ok_d in \<open>simp add: lossy_def\<close>)
  have i: "?i < nshards d"
    using and_less_of_pow2 [OF cache_okD(5) [OF ok_a(1)]] same_view_nshards [OF vd(1)] by simp
  note e = evict_one_def [of c, unfolded a prod.case Let_def d]
  show ?thesis
  proof (cases "sh_count (shard_at a ?i) = 0")
    case True
    then show ?thesis using la by (simp add: e)
  next
    case False
    show ?thesis
    proof (cases "probe_bucket (shard_at d ?i) ((unat r2) AND (nbuckets (shard_at d ?i) - 1))")
      case None
      then show ?thesis using False ld by (simp add: e)
    next
      case (Some b)
      note p = probe_bucket_some [OF Some cache_okD(6) [OF ok_d(1) i]]
      have "lossy d (remove_locked d ?i b 0)"
        by (rule remove_lossy [OF ok_d(1) i p(1)]) (use p(2) in \<open>simp add: bucket_at_def\<close>)
      then have "lossy c (remove_locked d ?i b 0)" by (rule lossy_trans [OF ld])
      then show ?thesis using False Some by (simp add: e lossy_def evicted_ok same_env_def)
    qed
  qed
qed

lemma evict_loop_lossy: "cache_ok c \<Longrightarrow> lossy c (evict_loop n budget c)"
proof (induction n arbitrary: c)
  case (Suc n)
  have "lossy (evict_one c) (evict_loop n budget (evict_one c))"
    by (rule Suc.IH) (use evict_one_lossy [OF Suc.prems] in \<open>simp add: lossy_def\<close>)
  then show ?case using lossy_trans [OF evict_one_lossy [OF Suc.prems]] lossy_refl [OF Suc.prems] by simp
qed (simp add: lossy_refl)

lemma evict_lossy: "cache_ok c \<Longrightarrow> lossy c (evict_under_budget c n)"
  by (simp add: evict_under_budget_def evict_loop_lossy lossy_refl)

lemma evict_over_lossy: "cache_ok c \<Longrightarrow> lossy c (evict_over budget c)"
  by (simp add: evict_over_def evict_lossy lossy_refl)

subsection \<open>Put\<close>

lemma found_chain:
  fixes key :: bytes
  assumes ok: "cache_ok c"
  defines "i \<equiv> shard_for c (hash_key key)" and "b \<equiv> bucket_for (shard_at c (shard_for c (hash_key key))) (hash_key key)"
  shows "i < nshards c" "b < nbuckets (shard_at c i)"
    and "find_pos (hash_key key) key (bucket_at c i b) = Some n \<Longrightarrow>
      n < length (bucket_at c i b) \<and> e_key (bucket_at c i b ! n) = key
      \<and> tab_find (k_bits c) (tables_of c) key = Some (bucket_at c i b ! n)"
    and "find_pos (hash_key key) key (bucket_at c i b) = None \<Longrightarrow> tab_find (k_bits c) (tables_of c) key = None"
    and "cls = DIRECT_CLS \<or> cls < NCLASS \<and> SIZEOF_ENTRY + length key + length v \<le> class_sz ! cls \<Longrightarrow>
      placed (k_bits c) (nbuckets (shard_at c i)) i b \<lparr>e_exp = x, e_hash = hash_key key, e_key = key, e_val = v, e_cls = cls\<rparr>"
proof -
  note T = cache_okD(1) [OF ok]
  show i: "i < nshards c" using tables_okD(1) [OF T] by (simp add: i_def shard_for_def)
  show "b < nbuckets (shard_at c i)"
    using tables_okD(2) [OF T] i by (simp add: b_def bucket_for_def nbuckets_tables i_def)
  have f: "tab_find (k_bits c) (tables_of c) key = find (entry_match (hash_key key) key) (bucket_at c i b)"
    using i by (simp add: tab_find_def Let_def bucket_tables b_def bucket_for_def nbuckets_tables i_def shard_for_def)
  show "n < length (bucket_at c i b) \<and> e_key (bucket_at c i b ! n) = key
      \<and> tab_find (k_bits c) (tables_of c) key = Some (bucket_at c i b ! n)"
    if "find_pos (hash_key key) key (bucket_at c i b) = Some n"
    using find_posD [OF that] f by (simp add: entry_match_def)
  show "tab_find (k_bits c) (tables_of c) key = None" if "find_pos (hash_key key) key (bucket_at c i b) = None"
    using that f by (simp add: find_pos_None)
  show "placed (k_bits c) (nbuckets (shard_at c i)) i b \<lparr>e_exp = x, e_hash = hash_key key, e_key = key, e_val = v, e_cls = cls\<rparr>"
    if "cls = DIRECT_CLS \<or> cls < NCLASS \<and> SIZEOF_ENTRY + length key + length v \<le> class_sz ! cls"
    using that by (auto simp: placed_def fits_def entry_capacity_def entry_size_def i_def b_def shard_for_def bucket_for_def)
qed

lemma found_cache: "cache_ok c \<Longrightarrow> cache_find c key = tab_find (k_bits c) (tables_of c) key"
  using found_chain(1) [of c key]
  by (simp add: cache_find_def tab_find_def Let_def bucket_tables bucket_for_def nbuckets_tables shard_for_def)

text \<open>The second half of a put, on the cache the first eviction left.\<close>

definition put_here :: "cache \<Rightarrow> bytes \<Rightarrow> bytes \<Rightarrow> u32 \<Rightarrow> int \<times> cache \<Rightarrow> bool" where
  "put_here c key value exp r \<longleftrightarrow> cache_ok (snd r) \<and> same_env c (snd r)
     \<and> (fst r = 0 \<and> cache_map (snd r) \<subseteq>\<^sub>m (cache_map c)(key \<mapsto> (value, exp))
          \<and> (k_budget c = 0 \<longrightarrow> cache_map (snd r) = (cache_map c)(key \<mapsto> (value, exp)))
        \<or> fst r = -1 \<and> cache_map (snd r) = cache_map c \<and> (\<exists>k. \<not> k_malloc c k))"

lemma put_hereI:
  assumes "cache_ok c'" "cache_map c' = (cache_map c)(key \<mapsto> (value, exp))" "same_env c c'" "budget = k_budget c"
  shows "put_here c key value exp (0, evict_over budget c')"
proof -
  have l: "lossy c' (evict_over budget c')" by (rule evict_over_lossy [OF assms(1)])
  have "budget = 0 \<Longrightarrow> evict_over budget c' = c'" by (simp add: evict_over_def)
  then show ?thesis using l assms(2-4) same_env_trans [OF assms(3)] by (auto simp: put_here_def lossy_def)
qed

lemma put_abs_here:
  assumes ok: "cache_ok c0"
  obtains c where "lossy c0 c" "k_budget c0 = 0 \<Longrightarrow> c = c0" "put_here c key value exp (kuttidb_put_abs c0 key value exp)"
proof -
  let ?h = "hash_key key" and ?need = "SIZEOF_ENTRY + length key + length value"
  define c where "c = (if k_budget c0 \<noteq> 0 \<and> k_total c0 \<ge> k_budget c0 then evict_under_budget c0 (nshards c0 * 2) else c0)"
  have l: "lossy c0 c" using ok by (simp add: c_def evict_lossy lossy_refl)
  then have okc: "cache_ok c" and env: "same_env c0 c" by (simp_all add: lossy_def)
  have fi: "shard_for c0 ?h = shard_for c ?h" "k_budget c0 = k_budget c" using env by (simp_all add: shard_for_def same_env_def)
  let ?i = "shard_for c ?h" let ?b = "bucket_for (shard_at c ?i) ?h"
  let ?ne = "\<lambda>cls. \<lparr>e_exp = exp, e_hash = ?h, e_key = key, e_val = value, e_cls = cls\<rparr>"
  note fc = found_chain [OF okc, where key = key]
  obtain r a where a: "entry_alloc c ?i ?need = (r, a)" by fastforce
  note ea = entry_alloc_cases [OF a fc(1)]
  have ok_a: "cache_ok a" by (rule same_view_ok [OF ea(1) ea(2) okc]) (rule cache_okD(4) [OF okc])
  have ia: "?i < nshards a" "?i = shard_for a ?h" "nbuckets (shard_at a ?i) = nbuckets (shard_at c ?i)"
    "bucket_at a ?i ?b = bucket_at c ?i ?b" "cache_map a = cache_map c" "same_env c a" "k_bits a = k_bits c"
    "tables_of a = tables_of c" "k_budget a = k_budget c"
    using same_view_nshards [OF ea(1)] fc(1) same_view_bucket [OF ea(1) fc(1)] same_view_map [OF ea(1)] same_view_env [OF ea(1)] ea(1)
    by (simp_all add: shard_for_def same_view_def nbuckets_tables)
  have fail: "put_here c key value exp (-1, a)" if "r = None"
    using ea(4) that ok_a ia by (auto simp: put_here_def)
  have pl: "placed (k_bits a) (nbuckets (shard_at a ?i)) ?i ?b (?ne cls)" if "r = Some cls" for cls
    using fc(5) [OF ea(3) [OF that]] ia by simp
  have "put_here c key value exp (kuttidb_put_abs c0 key value exp)"
  proof (cases "find_pos ?h key (bucket_at c ?i ?b)")
    case None
    have r: "kuttidb_put_abs c0 key value exp =
        (case (r, a) of (None, c1) \<Rightarrow> (-1, c1)
         | (Some cls, c1) \<Rightarrow> (0, evict_over (k_budget c0) (insert_entry c1 ?i ?b (?ne cls))))"
      unfolding kuttidb_put_abs_def Let_def c_def [symmetric] fi(1) None option.case a by (rule refl)
    show ?thesis
    proof (cases r)
      case (Some cls)
      note io = insert_ok [OF ok_a ia(1) _ _ pl [OF Some], unfolded ia(3,7,8), OF fc(2)]
      show ?thesis unfolding r Some prod.case option.case
        by (rule put_hereI) (use io fc(4) [OF None] ia fi same_env_trans [OF ia(6)] in simp_all)
    qed (simp add: r fail)
  next
    case (Some n)
    note fn = fc(3) [OF Some]
    have r: "kuttidb_put_abs c0 key value exp =
        (if ?need \<le> entry_capacity (bucket_at c ?i ?b ! n) then (0, overwrite_entry c ?i ?b n value exp)
         else case (r, a) of (None, c1) \<Rightarrow> (-1, c1)
         | (Some cls, c1) \<Rightarrow> (0, evict_over (k_budget c0) (replace_entry c1 ?i ?b n (?ne cls))))"
      unfolding kuttidb_put_abs_def Let_def c_def [symmetric] fi(1) Some option.case a by (rule refl)
    show ?thesis
    proof (cases "?need \<le> entry_capacity (bucket_at c ?i ?b ! n)")
      case True
      note wr = overwrite_ok [OF okc fc(1,2), of n "value" exp]
      show ?thesis using True wr fn by (simp add: r put_here_def)
    next
      case False
      show ?thesis
      proof (cases r)
        case (Some cls)
        have "e_key (?ne cls) = e_key (bucket_at a ?i ?b ! n)" "n < length (bucket_at a ?i ?b)" using fn ia(4) by simp_all
        note ro = replace_ok [OF ok_a ia(1) _ this(2,1) pl [OF Some], unfolded ia(3), OF fc(2)]
        show ?thesis unfolding r Some if_not_P [OF False] prod.case option.case
          by (rule put_hereI) (use ro ia fi same_env_trans [OF ia(6)] in simp_all)
      qed (simp add: r False fail)
    qed
  qed
  then show ?thesis using that [of c] l by (simp add: c_def)
qed

end
