(* ===== verification/Cache_Props.thy ===== *)
theory Cache_Props
  imports Cache_Calls
begin

unbundle bit_operations_syntax

text \<open>
  The cache as a store of expiring values: deletion, reads and the sweep, creation, the
  contract of such a store as a locale, and its interpretation on the cache.
\<close>

subsection \<open>Calls\<close>

datatype cache_call = Do_Put bytes bytes u32 | Do_Get bytes u32 bool | Do_Delete bytes | Do_Sweep nat u32

type_synonym cache_answer = "int \<times> bytes option"

fun cache_step :: "cache \<Rightarrow> cache_call \<Rightarrow> cache_answer \<times> cache" where
  "cache_step c (Do_Put k v x) = (case kuttidb_put_abs c k v x of (rc, c1) \<Rightarrow> ((rc, None), c1))"
| "cache_step c (Do_Get k clock mem_ok) =
     (case kuttidb_get c k (Copy_Out None) clock mem_ok of (rc, dest, c1) \<Rightarrow>
        ((rc, case dest of Copy_Out v \<Rightarrow> v | _ \<Rightarrow> None), c1))"
| "cache_step c (Do_Delete k) = (case kuttidb_delete c k of (rc, c1) \<Rightarrow> ((rc, None), c1))"
| "cache_step c (Do_Sweep n now) = ((0, None), kuttidb_sweep_expired c n now)"

definition dead :: "u32 \<Rightarrow> u32 \<Rightarrow> bool" where
  "dead now x \<longleftrightarrow> x \<noteq> 0 \<and> x \<le> now"

subsection \<open>The abstract store\<close>

type_synonym store_map = "bytes \<rightharpoonup> bytes \<times> u32"

fun spec_map :: "store_map \<Rightarrow> cache_call \<Rightarrow> cache_answer \<Rightarrow> store_map" where
  "spec_map M (Do_Put k v x) (rc, out) = (if rc = 0 then M(k \<mapsto> (v, x)) else M)"
| "spec_map M (Do_Delete k) ans = M(k := None)"
| "spec_map M (Do_Get k now mem_ok) ans = M"
| "spec_map M (Do_Sweep n now) ans = M"

text \<open>What a cache may answer: it may forget, it never shows a value that was not stored last or is dead.\<close>

fun allowed :: "store_map \<Rightarrow> cache_call \<Rightarrow> cache_answer \<Rightarrow> bool" where
  "allowed M (Do_Put k v x) (rc, out) \<longleftrightarrow> rc = 0 \<or> rc = -1"
| "allowed M (Do_Get k now mem_ok) (rc, out) \<longleftrightarrow>
     (case out of None \<Rightarrow> rc = 0 \<or> rc = -1 \<and> \<not> mem_ok
      | Some v \<Rightarrow> rc = 1 \<and> (\<exists>x. M k = Some (v, x) \<and> \<not> dead now x))"
| "allowed M (Do_Delete k) (rc, out) \<longleftrightarrow> rc = 0 \<or> rc = 1 \<and> M k \<noteq> None"
| "allowed M (Do_Sweep n now) ans \<longleftrightarrow> True"

text \<open>What it must answer when nothing forces it to forget; \<open>t\<close> is the last clock reading.\<close>

fun exact :: "u32 \<Rightarrow> store_map \<Rightarrow> cache_call \<Rightarrow> cache_answer \<Rightarrow> bool" where
  "exact t M (Do_Put k v x) (rc, out) \<longleftrightarrow> rc = 0"
| "exact t M (Do_Get k now mem_ok) (rc, out) \<longleftrightarrow>
     (case M k of None \<Rightarrow> rc = 0 \<and> out = None
      | Some (v, x) \<Rightarrow> if dead now x then rc = 0 \<and> out = None
                       else if mem_ok then rc = 1 \<and> out = Some v else rc = -1 \<and> out = None)"
| "exact t M (Do_Delete k) (rc, out) \<longleftrightarrow>
     (case M k of None \<Rightarrow> rc = 0 | Some (v, x) \<Rightarrow> if dead t x then rc = 0 \<or> rc = 1 else rc = 1)"
| "exact t M (Do_Sweep n now) ans \<longleftrightarrow> True"

fun call_clock :: "u32 \<Rightarrow> cache_call \<Rightarrow> u32" where
  "call_clock t (Do_Get k now mem_ok) = now"
| "call_clock t (Do_Sweep n now) = now"
| "call_clock t (Do_Put k v x) = t"
| "call_clock t (Do_Delete k) = t"

fun clock_runs :: "u32 \<Rightarrow> cache_call list \<Rightarrow> bool" where
  "clock_runs t [] \<longleftrightarrow> True"
| "clock_runs t (call # calls) \<longleftrightarrow> t \<le> call_clock t call \<and> clock_runs (call_clock t call) calls"

fun never_stale :: "store_map \<Rightarrow> (cache_call \<times> cache_answer) list \<Rightarrow> bool" where
  "never_stale M [] \<longleftrightarrow> True"
| "never_stale M ((call, ans) # rest) \<longleftrightarrow> allowed M call ans \<and> never_stale (spec_map M call ans) rest"

fun all_exact :: "u32 \<Rightarrow> store_map \<Rightarrow> (cache_call \<times> cache_answer) list \<Rightarrow> bool" where
  "all_exact t M [] \<longleftrightarrow> True"
| "all_exact t M ((call, ans) # rest) \<longleftrightarrow>
     exact t M call ans \<and> all_exact (call_clock t call) (spec_map M call ans) rest"

fun run_store :: "('c \<Rightarrow> cache_call \<Rightarrow> cache_answer \<times> 'c) \<Rightarrow> 'c \<Rightarrow> cache_call list \<Rightarrow>
    (cache_call \<times> cache_answer) list \<times> 'c" where
  "run_store step c [] = ([], c)"
| "run_store step c (call # calls) =
     (case step c call of (ans, c1) \<Rightarrow> case run_store step c1 calls of (rest, c2) \<Rightarrow> ((call, ans) # rest, c2))"

text \<open>Two maps that differ in dead values only.\<close>

definition agree :: "u32 \<Rightarrow> store_map \<Rightarrow> store_map \<Rightarrow> bool" where
  "agree t V M \<longleftrightarrow> V \<subseteq>\<^sub>m M \<and> (\<forall>k v x. M k = Some (v, x) \<longrightarrow> \<not> dead t x \<longrightarrow> V k = Some (v, x))"

lemma dead_mono: "dead t x \<Longrightarrow> t \<le> t' \<Longrightarrow> dead t' x"
  by (auto simp: dead_def)

lemma map_le_Some: "V \<subseteq>\<^sub>m M \<Longrightarrow> V k = Some y \<Longrightarrow> M k = Some y"
  by (metis domI map_le_def)

subsection \<open>The contract\<close>

locale expiring_store =
  fixes ok :: "'c \<Rightarrow> bool" and roomy :: "'c \<Rightarrow> bool" and view :: "'c \<Rightarrow> store_map"
    and step :: "'c \<Rightarrow> cache_call \<Rightarrow> cache_answer \<times> 'c"
  assumes keeps_ok: "ok c \<Longrightarrow> ok (snd (step c call))"
    and keeps_roomy: "ok c \<Longrightarrow> roomy c \<Longrightarrow> roomy (snd (step c call))"
    and answers: "ok c \<Longrightarrow> allowed (view c) call (fst (step c call))"
    and forgets: "ok c \<Longrightarrow> view (snd (step c call)) \<subseteq>\<^sub>m spec_map (view c) call (fst (step c call))"
    and answers_exact: "ok c \<Longrightarrow> roomy c \<Longrightarrow> exact t (view c) call (fst (step c call))"
    and forgets_dead: "ok c \<Longrightarrow> roomy c \<Longrightarrow> spec_map (view c) call (fst (step c call)) k = Some (v, x) \<Longrightarrow>
      \<not> dead (call_clock t call) x \<Longrightarrow> view (snd (step c call)) k = Some (v, x)"
begin

lemma run_ok: "ok c \<Longrightarrow> ok (snd (run_store step c calls))"
proof (induction calls arbitrary: c)
  case (Cons call calls)
  obtain a c1 where s: "step c call = (a, c1)" by fastforce
  show ?case using Cons.IH [of c1] keeps_ok [OF Cons.prems, of call] by (simp add: s case_prod_beta)
qed simp

lemma allowed_mono: "allowed V call ans \<Longrightarrow> V \<subseteq>\<^sub>m M \<Longrightarrow> allowed M call ans"
  by (cases call; cases ans; fastforce split: option.splits dest: map_le_Some)

lemma spec_map_mono: "V \<subseteq>\<^sub>m M \<Longrightarrow> spec_map V call ans \<subseteq>\<^sub>m spec_map M call ans"
  by (cases call; cases ans) (auto simp: map_le_def)

lemma run_never_stale: "ok c \<Longrightarrow> view c \<subseteq>\<^sub>m M \<Longrightarrow> never_stale M (fst (run_store step c calls))"
proof (induction calls arbitrary: c M)
  case (Cons call calls)
  obtain a c1 where s: "step c call = (a, c1)" by fastforce
  have "view c1 \<subseteq>\<^sub>m spec_map (view c) call a" using forgets [OF Cons.prems(1), of call] by (simp add: s)
  then have "view c1 \<subseteq>\<^sub>m spec_map M call a" by (rule map_le_trans) (rule spec_map_mono [OF Cons.prems(2)])
  then have "never_stale (spec_map M call a) (fst (run_store step c1 calls))"
    using Cons.IH keeps_ok [OF Cons.prems(1), of call] by (simp add: s)
  moreover have "allowed M call a"
    using allowed_mono [OF _ Cons.prems(2)] answers [OF Cons.prems(1), of call] by (simp add: s)
  ultimately show ?case by (simp add: s case_prod_beta)
qed simp

lemma agree_exact:
  assumes a: "agree t V M" and e: "exact t V call ans" and t: "t \<le> call_clock t call"
  shows "exact t M call ans"
proof -
  have g: "V k = M k \<or> V k = None \<and> (\<exists>v x. M k = Some (v, x) \<and> dead t x)" for k
  proof (cases "V k")
    case None
    then show ?thesis using a unfolding agree_def by (cases "M k") fastforce+
  next
    case (Some y)
    then show ?thesis using a map_le_Some [of V M k y] by (simp add: agree_def)
  qed
  show ?thesis
  proof (cases call)
    case (Do_Get k now m)
    from g [of k] show ?thesis
    proof
      assume "V k = M k" then show ?thesis using e by (cases ans) (simp add: Do_Get)
    next
      assume "V k = None \<and> (\<exists>v x. M k = Some (v, x) \<and> dead t x)"
      then show ?thesis using e t dead_mono [of t _ now] by (cases ans) (auto simp: Do_Get)
    qed
  next
    case (Do_Delete k)
    from g [of k] show ?thesis
    proof
      assume "V k = M k" then show ?thesis using e by (cases ans) (simp add: Do_Delete)
    next
      assume "V k = None \<and> (\<exists>v x. M k = Some (v, x) \<and> dead t x)"
      then show ?thesis using e by (cases ans) (auto simp: Do_Delete)
    qed
  qed (use e in \<open>cases ans; simp\<close>)+
qed

lemma run_exact:
  "ok c \<Longrightarrow> roomy c \<Longrightarrow> agree t (view c) M \<Longrightarrow> clock_runs t calls \<Longrightarrow> all_exact t M (fst (run_store step c calls))"
proof (induction calls arbitrary: c M t)
  case (Cons call calls)
  obtain a c1 where s: "step c call = (a, c1)" by fastforce
  have t: "t \<le> call_clock t call" using Cons.prems(4) by simp
  have f: "view c1 \<subseteq>\<^sub>m spec_map (view c) call a" using forgets [OF Cons.prems(1), of call] by (simp add: s)
  have "view c1 k = Some (v, x)" if m: "spec_map M call a k = Some (v, x)" "\<not> dead (call_clock t call) x" for k v x
  proof -
    have "\<not> dead t x" using m(2) dead_mono [OF _ t] by blast
    then have "spec_map (view c) call a k = Some (v, x)"
      using m(1) Cons.prems(3) by (cases call; cases a) (auto simp: agree_def split: if_splits)
    then show ?thesis using forgets_dead [OF Cons.prems(1,2), of call k v x t] m(2) by (simp add: s)
  qed
  moreover have "view c1 \<subseteq>\<^sub>m spec_map M call a"
    by (rule map_le_trans [OF f]) (rule spec_map_mono, use Cons.prems(3) in \<open>simp add: agree_def\<close>)
  ultimately have "agree (call_clock t call) (view c1) (spec_map M call a)" unfolding agree_def by blast
  then have "all_exact (call_clock t call) (spec_map M call a) (fst (run_store step c1 calls))"
    using Cons.IH keeps_ok [OF Cons.prems(1), of call] keeps_roomy [OF Cons.prems(1,2), of call] Cons.prems(4) by (simp add: s)
  moreover have "exact t M call a"
    by (rule agree_exact [OF Cons.prems(3) _ t]) (use answers_exact [OF Cons.prems(1,2), of t call] in \<open>simp add: s\<close>)
  ultimately show ?case by (simp add: s case_prod_beta)
qed simp

end

subsection \<open>Deleting and reading\<close>

lemma delete_ok:
  assumes ok: "cache_ok c" and d: "kuttidb_delete c k = (rc, c')"
  shows "cache_ok c'" "same_env c c'" "cache_map c' = (cache_map c)(k := None)"
    "rc = (if cache_map c k = None then 0 else 1)"
proof -
  let ?i = "shard_for c (hash_key k)"
  let ?b = "bucket_for (shard_at c ?i) (hash_key k)"
  note fc = found_chain [OF ok, where key = k]
  have "cache_ok c' \<and> same_env c c' \<and> cache_map c' = (cache_map c)(k := None) \<and> rc = (if cache_map c k = None then 0 else 1)"
  proof (cases "find_pos (hash_key k) k (bucket_at c ?i ?b)")
    case None
    then have "cache_map c k = None" using fc(4) by (simp add: cache_map_def)
    then show ?thesis using None d ok by (auto simp: kuttidb_delete_def Let_def)
  next
    case (Some n)
    note fn = fc(3) [OF Some]
    have e: "c' = bump_revision (remove_locked c ?i ?b n)" "rc = 1" using d Some by (auto simp: kuttidb_delete_def Let_def)
    have r: "cache_ok (remove_locked c ?i ?b n)" "cache_map (remove_locked c ?i ?b n) = (cache_map c)(k := None)"
      using remove_locked_ok [OF ok fc(1,2), of n] fn by simp_all
    have "cache_map c k \<noteq> None" using fn by (simp add: cache_map_def)
    then show ?thesis
      using r remove_locked_frame(4) [OF fc(1)] by (simp add: e bump_revision_def revision_ok same_env_def)
  qed
  then show "cache_ok c'" "same_env c c'" "cache_map c' = (cache_map c)(k := None)"
    "rc = (if cache_map c k = None then 0 else 1)" by blast+
qed

lemma get_expire_ok:
  assumes ok: "cache_ok c"
  shows "cache_ok (get_expire c k)" "same_env c (get_expire c k)" "cache_map (get_expire c k) = (cache_map c)(k := None)"
proof -
  let ?i = "shard_for c (hash_key k)"
  let ?b = "bucket_for (shard_at c ?i) (hash_key k)"
  note fc = found_chain [OF ok, where key = k]
  have "cache_ok (get_expire c k) \<and> same_env c (get_expire c k) \<and> cache_map (get_expire c k) = (cache_map c)(k := None)"
  proof (cases "find_pos (hash_key k) k (bucket_at c ?i ?b)")
    case None
    then have "cache_map c k = None" using fc(4) by (simp add: cache_map_def)
    then show ?thesis using None ok by (auto simp: get_expire_def Let_def)
  next
    case (Some n)
    have "cache_ok (remove_locked c ?i ?b n)" "cache_map (remove_locked c ?i ?b n) = (cache_map c)(k := None)"
      using remove_locked_ok [OF ok fc(1,2), of n] fc(3) [OF Some] by simp_all
    then show ?thesis
      using Some remove_locked_frame(4) [OF fc(1)] by (simp add: get_expire_def Let_def expired_ok same_env_def)
  qed
  then show "cache_ok (get_expire c k)" "same_env c (get_expire c k)" "cache_map (get_expire c k) = (cache_map c)(k := None)"
    by blast+
qed

lemma is_expired_dead: "is_expired now e = dead now (e_exp e)"
  by (simp add: is_expired_def dead_def)

text \<open>A read, by what the map holds.\<close>

lemma get_exact:
  assumes ok: "cache_ok c"
  shows "kuttidb_get c k (Copy_Out None) now mem_ok =
    (case cache_map c k of None \<Rightarrow> (0, Copy_Out None, c)
     | Some (v, x) \<Rightarrow> if dead now x then (0, Copy_Out None, get_expire c k)
                      else if mem_ok then (1, Copy_Out (Some v), c) else (-1, Copy_Out None, c))"
  using found_cache [OF ok, of k]
  by (cases "tab_find (k_bits c) (tables_of c) k")
     (simp_all add: kuttidb_get_def get_common_def lookup_copy_def cache_map_def is_expired_dead)

subsection \<open>The sweep\<close>

definition sweeps :: "u32 \<Rightarrow> cache \<Rightarrow> cache \<Rightarrow> bool" where
  "sweeps now c c' \<longleftrightarrow> lossy c c'
     \<and> (\<forall>k v x. cache_map c k = Some (v, x) \<longrightarrow> \<not> dead now x \<longrightarrow> cache_map c' k = Some (v, x))"

lemma sweeps_refl: "cache_ok c \<Longrightarrow> sweeps now c c"
  by (simp add: sweeps_def lossy_refl)

lemma sweeps_trans: "sweeps now a b \<Longrightarrow> sweeps now b c \<Longrightarrow> sweeps now a c"
  unfolding sweeps_def using lossy_trans by blast

lemma member_found:
  assumes ok: "cache_ok c" and i: "i < nshards c" "b < nbuckets (shard_at c i)" "n < length (bucket_at c i b)"
  defines "e \<equiv> bucket_at c i b ! n"
  shows "cache_map c (e_key e) = Some (e_val e, e_exp e)"
proof -
  let ?t = "tables_of c ! i"
  have t: "table_ok (k_bits c) i ?t" using cache_okD(1) [OF ok] i by (simp add: tables_ok_def)
  have m: "e \<in> set (?t ! b)" using i by (simp add: e_def bucket_tables)
  have "placed (k_bits c) (length ?t) i b e" using t m i by (auto simp: table_ok_def chain_ok_def nbuckets_tables)
  then have l: "lane (k_bits c) (hash_key (e_key e)) = i" using placed_index by blast
  have "e \<in> set (concat ?t)" using m i by (auto simp: nbuckets_tables)
  then show ?thesis using table_find_iff [OF t l, of e] l by (simp add: cache_map_def tab_find_def Let_def)
qed

lemma remove_bucket:
  assumes "i < nshards c" "b < nbuckets (shard_at c i)"
  shows "nshards (remove_locked c i b n) = nshards c"
    "nbuckets (shard_at (remove_locked c i b n) i) = nbuckets (shard_at c i)"
    "bucket_at (remove_locked c i b n) i b = take n (bucket_at c i b) @ drop (Suc n) (bucket_at c i b)"
proof -
  note f = remove_locked_frame(1) [OF assms(1), of b n]
  show n: "nshards (remove_locked c i b n) = nshards c"
    using arg_cong [OF f, of length] by simp
  show "nbuckets (shard_at (remove_locked c i b n) i) = nbuckets (shard_at c i)"
    using assms(1) by (simp add: nbuckets_tables n f)
  show "bucket_at (remove_locked c i b n) i b = take n (bucket_at c i b) @ drop (Suc n) (bucket_at c i b)"
    using assms by (simp add: bucket_tables n f nbuckets_tables put_chain_nth)
qed

lemma sweep_chain_ok:
  assumes "cache_ok c" "i < nshards c" "b < nbuckets (shard_at c i)" "n + left \<le> length (bucket_at c i b)"
  shows "sweeps now c (sweep_chain now i b n left c)"
  using assms
proof (induction now i b n left c rule: sweep_chain.induct)
  case (2 now i b n left c)
  let ?e = "bucket_at c i b ! n" and ?r = "remove_locked c i b n"
  have n: "n < length (bucket_at c i b)" using "2.prems"(4) by simp
  show ?case
  proof (cases "is_expired now ?e")
    case False
    then show ?thesis using "2.IH"(2) [OF False "2.prems"(1-3)] "2.prems"(4) by simp
  next
    case True
    let ?u = "?r\<lparr>k_revision := k_revision ?r + 1, k_expired := k_expired ?r + 1\<rparr>"
    note m = member_found [OF "2.prems"(1-3) n]
    have u: "cache_ok ?u" "cache_map ?u = (cache_map c)(e_key ?e := None)"
      using remove_locked_ok [OF "2.prems"(1-3) n] by (simp_all add: revision_ok expired_ok)
    have s: "sweeps now c ?u"
      using u m True remove_locked_frame(4) [OF "2.prems"(2), of b n]
      by (auto simp: sweeps_def lossy_def map_le_def same_env_def is_expired_dead)
    have "sweeps now ?u (sweep_chain now i b n left ?u)"
      by (rule "2.IH"(1) [OF True refl u(1)])
         (use remove_bucket [OF "2.prems"(2,3), of n] "2.prems" n in
          \<open>simp_all add: field_shards bucket_at_def\<close>)
    then show ?thesis using sweeps_trans [OF s] True by (simp add: Let_def)
  qed
qed (simp add: sweeps_refl)

lemma sweep_bucket_ok:
  assumes ok: "cache_ok c" shows "sweeps now c (sweep_bucket now c)"
proof -
  let ?c1 = "c\<lparr>k_cursor := k_cursor c + 1\<rparr>"
  let ?i = "(unat (k_cursor c)) AND (nshards c - 1)"
  have ok1: "cache_ok ?c1" "sweeps now c ?c1"
    using ok by (simp_all add: cache_ok_def balanced_def cache_frame sweeps_def lossy_def same_env_def cache_map_def map_le_def)
  have i: "?i < nshards ?c1" using and_less_of_pow2 [OF cache_okD(5) [OF ok]] by (simp add: cache_frame)
  have b: "(unat (k_cursor c) div nshards c) AND (nbuckets (shard_at c ?i) - 1) < nbuckets (shard_at ?c1 ?i)"
    using and_less_of_pow2 [OF cache_okD(6) [OF ok1(1) i]] by (simp add: cache_frame)
  show ?thesis unfolding sweep_bucket_def Let_def
    by (rule sweeps_trans [OF ok1(2) sweep_chain_ok [OF ok1(1) i b]]) simp
qed

lemma sweep_ok: "cache_ok c \<Longrightarrow> sweeps now c (kuttidb_sweep_expired c n now)"
proof -
  assume ok: "cache_ok c"
  have "sweeps now c ((sweep_bucket now ^^ n) c)"
  proof (induction n)
    case (Suc n)
    then have "cache_ok ((sweep_bucket now ^^ n) c)" by (simp add: sweeps_def lossy_def)
    then show ?case using sweeps_trans [OF Suc sweep_bucket_ok] by simp
  qed (simp add: sweeps_refl ok)
  then show ?thesis using ok by (simp add: kuttidb_sweep_expired_def sweeps_refl)
qed

subsection \<open>The cache keeps the contract\<close>

definition roomy :: "cache \<Rightarrow> bool" where
  "roomy c \<longleftrightarrow> k_budget c = 0 \<and> (\<forall>n. k_malloc c n)"

lemma roomy_env: "same_env c c' \<Longrightarrow> roomy c \<Longrightarrow> roomy c'"
  by (simp add: same_env_def roomy_def)

lemma put_laws:
  assumes ok: "cache_ok c" and p: "kuttidb_put_abs c k v x = (rc, c')"
  shows "cache_ok c'" "same_env c c'" "rc = 0 \<or> rc = -1"
    "rc = 0 \<Longrightarrow> cache_map c' \<subseteq>\<^sub>m (cache_map c)(k \<mapsto> (v, x))" "rc = -1 \<Longrightarrow> cache_map c' \<subseteq>\<^sub>m cache_map c"
    "roomy c \<Longrightarrow> rc = 0 \<and> cache_map c' = (cache_map c)(k \<mapsto> (v, x))"
proof -
  obtain a where a: "lossy c a" "k_budget c = 0 \<Longrightarrow> a = c" "put_here a k v x (rc, c')"
    using put_abs_here [OF ok, of k v x] p by auto
  have h: "cache_ok c'" "same_env a c'" and m: "rc = 0 \<and> cache_map c' \<subseteq>\<^sub>m (cache_map a)(k \<mapsto> (v, x))
      \<and> (k_budget a = 0 \<longrightarrow> cache_map c' = (cache_map a)(k \<mapsto> (v, x)))
    \<or> rc = -1 \<and> cache_map c' = cache_map a \<and> (\<exists>n. \<not> k_malloc a n)"
    using a(3) by (simp_all add: put_here_def)
  have la: "same_env c a" "cache_map a \<subseteq>\<^sub>m cache_map c" using a(1) by (simp_all add: lossy_def)
  show "cache_ok c'" by (rule h(1))
  show "same_env c c'" by (rule same_env_trans [OF la(1) h(2)])
  show "rc = 0 \<or> rc = -1" using m by (elim disjE) simp_all
  have u: "(cache_map a)(k \<mapsto> (v, x)) \<subseteq>\<^sub>m (cache_map c)(k \<mapsto> (v, x))" using la(2) by (rule map_le_upd)
  show "cache_map c' \<subseteq>\<^sub>m (cache_map c)(k \<mapsto> (v, x))" if "rc = 0"
    using m that by (elim disjE) (simp_all add: map_le_trans [OF _ u])
  show "cache_map c' \<subseteq>\<^sub>m cache_map c" if "rc = -1" using m that la(2) by (elim disjE) simp_all
  show "rc = 0 \<and> cache_map c' = (cache_map c)(k \<mapsto> (v, x))" if r: "roomy c"
    using m r a(2) by (elim disjE) (simp_all add: roomy_def)
qed

interpretation ks: expiring_store cache_ok roomy cache_map cache_step
proof
  fix c call assume ok: "cache_ok c"
  have "cache_ok (snd (cache_step c call)) \<and> same_env c (snd (cache_step c call))
    \<and> allowed (cache_map c) call (fst (cache_step c call))
    \<and> cache_map (snd (cache_step c call)) \<subseteq>\<^sub>m spec_map (cache_map c) call (fst (cache_step c call))"
  proof (cases call)
    case (Do_Put k v x)
    obtain rc c' where p: "kuttidb_put_abs c k v x = (rc, c')" by fastforce
    show ?thesis using put_laws(1-5) [OF ok p] by (auto simp: Do_Put p)
  next
    case (Do_Get k now m)
    show ?thesis
      using get_exact [OF ok, of k now m] get_expire_ok [OF ok, of k] ok
      by (auto simp: Do_Get map_le_def split: option.splits)
  next
    case (Do_Delete k)
    obtain rc c' where d: "kuttidb_delete c k = (rc, c')" by fastforce
    show ?thesis using delete_ok [OF ok d] by (simp add: Do_Delete d)
  next
    case (Do_Sweep n now)
    show ?thesis using sweep_ok [OF ok, of now n] by (simp add: Do_Sweep sweeps_def lossy_def)
  qed
  then show "cache_ok (snd (cache_step c call))" "allowed (cache_map c) call (fst (cache_step c call))"
    "cache_map (snd (cache_step c call)) \<subseteq>\<^sub>m spec_map (cache_map c) call (fst (cache_step c call))"
    "roomy c \<Longrightarrow> roomy (snd (cache_step c call))"
    using roomy_env by blast+
next
  fix c call t assume ok: "cache_ok c" and r: "roomy c"
  show "exact t (cache_map c) call (fst (cache_step c call))"
  proof (cases call)
    case (Do_Put k v x)
    obtain rc c' where p: "kuttidb_put_abs c k v x = (rc, c')" by fastforce
    show ?thesis using put_laws(6) [OF ok p r] by (simp add: Do_Put p)
  next
    case (Do_Get k now m)
    show ?thesis using get_exact [OF ok, of k now m] by (auto simp: Do_Get split: option.splits)
  next
    case (Do_Delete k)
    obtain rc c' where d: "kuttidb_delete c k = (rc, c')" by fastforce
    show ?thesis using delete_ok(4) [OF ok d] by (auto simp: Do_Delete d split: option.splits)
  qed simp
next
  fix c call k v x t
  assume ok: "cache_ok c" and r: "roomy c" and s: "spec_map (cache_map c) call (fst (cache_step c call)) k = Some (v, x)"
    and d: "\<not> dead (call_clock t call) x"
  show "cache_map (snd (cache_step c call)) k = Some (v, x)"
  proof (cases call)
    case (Do_Put k' v' x')
    obtain rc c' where p: "kuttidb_put_abs c k' v' x' = (rc, c')" by fastforce
    show ?thesis using put_laws(6) [OF ok p r] s by (simp add: Do_Put p)
  next
    case (Do_Get k' now m)
    show ?thesis
      using get_exact [OF ok, of k' now m] get_expire_ok(3) [OF ok, of k'] s d
      by (auto simp: Do_Get split: option.splits)
  next
    case (Do_Delete k')
    obtain rc c' where p: "kuttidb_delete c k' = (rc, c')" by fastforce
    show ?thesis using delete_ok(3) [OF ok p] s by (simp add: Do_Delete p)
  next
    case (Do_Sweep n now)
    show ?thesis using sweep_ok [OF ok, of now n] s d by (simp add: Do_Sweep sweeps_def)
  qed
qed

subsection \<open>Creation\<close>

lemma shard_bits_for_bound:
  "bits \<le> m \<Longrightarrow> want \<le> 2 ^ m \<Longrightarrow> bits \<le> shard_bits_for bits want \<and> shard_bits_for bits want \<le> m"
proof (induction bits want rule: shard_bits_for.induct)
  case (1 bits want)
  show ?case
  proof (cases "2 ^ bits < want")
    case True
    then have "(2::nat) ^ bits < 2 ^ m" using "1.prems"(2) by (rule less_le_trans)
    then have "Suc bits \<le> m" by simp
    then show ?thesis using "1.IH" [OF True _ "1.prems"(2)] True by (simp add: shard_bits_for.simps [of bits want])
  qed (use "1.prems" in \<open>simp add: shard_bits_for.simps [of bits want]\<close>)
qed

lemma round_buckets_pow2: "\<exists>k. rounded = 2 ^ k \<Longrightarrow> \<exists>k. round_buckets rounded want = 2 ^ k"
proof (induction rounded want rule: round_buckets.induct)
  case (1 rounded want)
  show ?case
  proof (cases "rounded < want \<and> rounded \<le> SIZE_MAX div 2 \<and> rounded \<noteq> 0")
    case True
    have "\<exists>k. rounded * 2 = 2 ^ k" using "1.prems" by (metis power_Suc2)
    then show ?thesis using "1.IH" [OF True] True by (simp add: round_buckets.simps [of rounded want])
  qed (use "1.prems" in \<open>auto simp: round_buckets.simps [of rounded want]\<close>)
qed

lemma init_loop_result:
  "init_loop n nb c = (ok, c') \<Longrightarrow> k_bits c' = k_bits c \<and> k_ttl c' = k_ttl c \<and> k_total c' = k_total c \<and> k_budget c' = k_budget c
    \<and> k_malloc c' = k_malloc c \<and> (ok \<longrightarrow> k_shards c' = k_shards c @ replicate n (fresh_shard nb))
    \<and> ((\<forall>k. k_malloc c k) \<longrightarrow> ok)"
proof (induction n arbitrary: c)
  case (Suc n)
  obtain r a where a: "block_alloc c (nb * SIZEOF_PTR) = (r, a)" by fastforce
  have f: "k_bits a = k_bits c" "k_ttl a = k_ttl c" "k_total a = k_total c" "k_budget a = k_budget c"
    "k_malloc a = k_malloc c" "k_shards a = k_shards c" "r = k_malloc c (k_calls c)"
    using a by (auto simp: block_alloc_def Let_def)
  show ?case
  proof (cases r)
    case True
    then show ?thesis using Suc.prems Suc.IH [of "a\<lparr>k_shards := k_shards a @ [fresh_shard nb]\<rparr>"] a f
      by (simp add: replicate_append_same)
  next
    case False
    then show ?thesis using Suc.prems a f by auto
  qed
qed simp

lemma fresh_tables:
  "tables_of c = replicate (2 ^ bits) (replicate (2 ^ k) []) \<Longrightarrow> k_bits c = bits \<Longrightarrow> 1 \<le> bits \<Longrightarrow> bits \<le> 32 \<Longrightarrow>
    tables_ok bits (tables_of c) \<and> cache_map c = Map.empty \<and> all_entries (tables_of c) = []"
  using lane_less [of bits] slot_less [of "2 ^ k"]
  by (auto simp: tables_ok_def table_ok_def chain_ok_def cache_map_def tab_find_def Let_def all_entries_def fun_eq_iff)

lemma create_ok:
  assumes c: "kuttidb_create n initial_buckets seed mem = Some c" and n: "n \<le> 2 ^ 32"
  shows "cache_ok c" "cache_map c = Map.empty" "k_budget c = 0" "k_malloc c = mem"
proof -
  define bits where "bits = shard_bits_for 1 (if n = 0 then 16 else n)"
  define nb where "nb = round_buckets 16 (max 16 initial_buckets)"
  have b: "1 \<le> bits" "bits \<le> 32" using shard_bits_for_bound [of 1 32 "if n = 0 then 16 else n"] n by (simp_all add: bits_def)
  have "\<exists>k. (16::nat) = 2 ^ k" by (rule exI [of _ 4]) simp
  then obtain k where k: "nb = 2 ^ k" using round_buckets_pow2 [of 16] unfolding nb_def by blast
  let ?c0 = "\<lparr>k_shards = [], k_bits = bits, k_budget = 0, k_total = 0, k_allocated = 0, k_expired = 0, k_evicted = 0, k_ttl = 0,
    k_rseed = push_bit 32 seed OR 0x1234abcd, k_revision = 0, k_cursor = 0, k_malloc = mem, k_calls = 2\<rparr>"
  obtain ok c1 where l: "init_loop (2 ^ bits) nb ?c0 = (ok, c1)" by fastforce
  have ok: "ok" and e: "c = c1\<lparr>k_total := k_total c1 + word_of_nat (2 ^ bits * nb * SIZEOF_PTR)\<rparr>"
    using c [unfolded kuttidb_create_def Let_def init_shards_def, folded bits_def nb_def, unfolded l prod.case]
    by (auto split: if_splits)
  have s: "k_shards c1 = replicate (2 ^ bits) (fresh_shard nb)" "k_bits c1 = bits" "k_ttl c1 = 0" "k_total c1 = 0"
    "k_budget c1 = 0" "k_malloc c1 = mem" using init_loop_result [OF l] ok by simp_all
  have t: "tables_of c = replicate (2 ^ bits) (replicate (2 ^ k) [])" "k_bits c = bits"
    by (simp_all add: tables_of_def e s fresh_shard_def k)
  note f = fresh_tables [OF t b]
  have "balanced c"
    by (simp add: balanced_def mems_of_def e s fresh_shard_def sum_list_replicate algebra_simps)
  moreover have "counts_of c = map (length \<circ> concat) (tables_of c)"
    by (simp add: counts_of_def t(1)) (simp add: e s fresh_shard_def)
  ultimately show "cache_ok c" using f t by (simp add: cache_ok_def) (simp add: e s)
  show "cache_map c = Map.empty" "k_budget c = 0" "k_malloc c = mem" using f by (simp_all add: e s)
qed

subsection \<open>Counters against the map\<close>

lemma concat_concat: "concat (concat T) = concat (map concat T)"
  by (induction T) simp_all

lemma all_find_iff:
  assumes ok: "cache_ok c"
  shows "tab_find (k_bits c) (tables_of c) k = Some e \<longleftrightarrow> e \<in> set (all_entries (tables_of c)) \<and> e_key e = k"
proof -
  let ?T = "tables_of c" and ?l = "lane (k_bits c) (hash_key k)"
  note T = cache_okD(1) [OF ok]
  have t: "table_ok (k_bits c) i (?T ! i)" if "i < length ?T" for i using T that by (simp add: tables_ok_def)
  have l: "?l < length ?T" by (rule tables_okD(1) [OF T])
  have f: "tab_find (k_bits c) ?T k = Some e \<longleftrightarrow> e \<in> set (concat (?T ! ?l)) \<and> e_key e = k"
    using table_find_iff [OF t [OF l] refl, of e] by (simp add: tab_find_def Let_def)
  have "e \<in> set (concat (?T ! ?l))" if e: "e \<in> set (all_entries ?T)" "e_key e = k"
  proof -
    have "e \<in> set (concat (map concat ?T))" using e(1) by (simp add: all_entries_def concat_concat)
    then obtain i where i: "i < length ?T" "e \<in> set (concat (?T ! i))" by (rule in_concatE) simp_all
    then obtain b where b: "b < length (?T ! i)" "e \<in> set (?T ! i ! b)" by (metis in_concatE)
    then have "placed (k_bits c) (length (?T ! i)) i b e" using t [OF i(1)] by (auto simp: table_ok_def chain_ok_def)
    then have "?l = i" using placed_index e(2) by blast
    then show ?thesis using i by simp
  qed
  moreover have "e \<in> set (all_entries ?T)" if "e \<in> set (concat (?T ! ?l))"
    using that l nth_mem [OF l] by (auto simp: all_entries_def)
  ultimately show ?thesis using f by blast
qed

lemma all_keys_distinct:
  assumes ok: "cache_ok c" shows "distinct (map e_key (all_entries (tables_of c)))"
  unfolding all_entries_def concat_concat
proof (rule distinct_concat_keys [where g = "\<lambda>k. lane (k_bits c) (hash_key k)"])
  let ?T = "tables_of c"
  note T = cache_okD(1) [OF ok]
  fix i assume i: "i < length (map concat ?T)"
  then have t: "table_ok (k_bits c) i (?T ! i)" using T by (simp add: tables_ok_def)
  show "distinct (map e_key (map concat ?T ! i))" using table_keys_distinct [OF t] i by simp
  fix e assume "e \<in> set (map concat ?T ! i)"
  then have "e \<in> set (concat (?T ! i))" using i by simp
  then obtain b where "b < length (?T ! i)" "e \<in> set (?T ! i ! b)" by (rule in_concatE)
  then have "placed (k_bits c) (length (?T ! i)) i b e" using t by (auto simp: table_ok_def chain_ok_def)
  then show "lane (k_bits c) (hash_key (e_key e)) = i" using placed_index by blast
qed

lemma card_keys:
  assumes ok: "cache_ok c"
  shows "card {k. \<exists>e. tab_find (k_bits c) (tables_of c) k = Some e \<and> P e} = length (filter P (all_entries (tables_of c)))"
proof -
  let ?A = "all_entries (tables_of c)"
  have "{k. \<exists>e. tab_find (k_bits c) (tables_of c) k = Some e \<and> P e} = set (map e_key (filter P ?A))"
    by (auto simp: all_find_iff [OF ok])
  moreover have "distinct (map e_key (filter P ?A))" by (rule distinct_map_filter [OF all_keys_distinct [OF ok]])
  ultimately show ?thesis by (metis distinct_card length_map)
qed

lemma count_all: assumes ok: "cache_ok c" shows "kuttidb_count c = length (all_entries (tables_of c))"
proof -
  have "kuttidb_count c = sum_list (map (length \<circ> concat) (tables_of c))"
    using cache_okD(2) [OF ok] by (simp add: kuttidb_count_def counts_of_def)
  then show ?thesis by (simp add: all_entries_def concat_concat length_concat comp_def)
qed

lemma counters_exact:
  assumes ok: "cache_ok c"
  shows "kuttidb_count c = card (dom (cache_map c))"
    "k_ttl c = word_of_nat (card {k. \<exists>v x. cache_map c k = Some (v, x) \<and> x \<noteq> 0})"
    "kuttidb_memusage c = sum_list (map sh_mem (k_shards c))"
    "s \<in> set (k_shards c) \<Longrightarrow> e \<in> set (concat (sh_buckets s)) \<Longrightarrow> entry_size e \<le> entry_capacity e"
proof -
  have "dom (cache_map c) = {k. \<exists>e. tab_find (k_bits c) (tables_of c) k = Some e \<and> True}"
    by (auto simp: cache_map_def)
  then show "kuttidb_count c = card (dom (cache_map c))"
    using card_keys [OF ok, of "\<lambda>_. True"] count_all [OF ok] by simp
  have "{k. \<exists>v x. cache_map c k = Some (v, x) \<and> x \<noteq> 0} = {k. \<exists>e. tab_find (k_bits c) (tables_of c) k = Some e \<and> e_exp e \<noteq> 0}"
    by (auto simp: cache_map_def)
  then show "k_ttl c = word_of_nat (card {k. \<exists>v x. cache_map c k = Some (v, x) \<and> x \<noteq> 0})"
    using card_keys [OF ok, of "\<lambda>e. e_exp e \<noteq> 0"] cache_okD(3) [OF ok] by (simp add: ttl_count_def)
  show "kuttidb_memusage c = sum_list (map sh_mem (k_shards c))"
    using cache_okD(4) [OF ok] by (simp add: kuttidb_memusage_def balanced_def mems_of_def)
  assume s: "s \<in> set (k_shards c)" "e \<in> set (concat (sh_buckets s))"
  then obtain i where i: "i < length (tables_of c)" "e \<in> set (concat (tables_of c ! i))"
    by (metis in_set_conv_nth nshards_def nth_map tables_length tables_of_def)
  obtain b where "b < length (tables_of c ! i)" "e \<in> set (tables_of c ! i ! b)" using i(2) by (rule in_concatE)
  then have "placed (k_bits c) (length (tables_of c ! i)) i b e"
    using tables_okD(3) [OF cache_okD(1) [OF ok] i(1)] by (auto simp: chain_ok_def)
  then show "entry_size e \<le> entry_capacity e" by (simp add: placed_def fits_def)
qed

lemma set_budget_ok: "cache_ok c \<Longrightarrow> cache_ok (kuttidb_set_budget c v)" "cache_map (kuttidb_set_budget c v) = cache_map c"
  by (simp_all add: kuttidb_set_budget_def cache_ok_def balanced_def cache_map_def fun_eq_iff cache_frame)

lemma create_roomy:
  assumes "initial_buckets \<le> 16"
  obtains c where "kuttidb_create n initial_buckets seed (\<lambda>_. True) = Some c"
proof -
  define bits where "bits = shard_bits_for 1 (if n = 0 then 16 else n)"
  let ?c0 = "\<lparr>k_shards = [], k_bits = bits, k_budget = 0, k_total = 0, k_allocated = 0, k_expired = 0, k_evicted = 0, k_ttl = 0,
    k_rseed = push_bit 32 seed OR 0x1234abcd, k_revision = 0, k_cursor = 0, k_malloc = (\<lambda>_. True), k_calls = 2\<rparr>"
  obtain ok c1 where l: "init_loop (2 ^ bits) 16 ?c0 = (ok, c1)" by fastforce
  have "max 16 initial_buckets = 16" "round_buckets 16 16 = 16" using assms by (simp_all add: round_buckets.simps)
  then have "kuttidb_create n initial_buckets seed (\<lambda>_. True) \<noteq> None"
    using init_loop_result [OF l]
    unfolding kuttidb_create_def Let_def init_shards_def bits_def [symmetric] by (simp add: l)
  then show ?thesis using that by blast
qed

subsection \<open>Properties\<close>

text \<open>
  C26: A cache never shows a stale or dead value.  Whatever the memory budget, whichever
  allocations are refused and whatever is evicted, expired or swept in between, a read that
  returns a value returns the value of the last successful put of that key since its last
  delete, and one that has not expired; a refused put changes nothing that can be read.
\<close>

theorem cache_never_stale:
  assumes "kuttidb_create n initial_buckets seed mem = Some c" "n \<le> 2 ^ 32"
  shows "never_stale Map.empty (fst (run_store cache_step (kuttidb_set_budget c budget) calls))"
  using create_ok [OF assms] by (intro ks.run_never_stale) (simp_all add: set_budget_ok)

theorem cache_never_stale_witness:
  "\<exists>c. kuttidb_create 1 1 0 (\<lambda>_. True) = Some c \<and>
    never_stale Map.empty (fst (run_store cache_step (kuttidb_set_budget c 100) [Do_Put [1] [2] 0, Do_Get [1] 7 True]))"
proof -
  obtain c where c: "kuttidb_create 1 1 0 (\<lambda>_. True) = Some c" using create_roomy [of 1 1 0] by auto
  show ?thesis by (intro exI [of _ c] conjI c) (rule cache_never_stale [OF c], simp)
qed

text \<open>
  C27: Without a budget and with memory available the cache is exactly a map of expiring
  values: every put succeeds, every read returns the live value or a miss, every delete of
  a live key reports it, however the entries are hashed, rehashed, overwritten in place,
  moved between slabs and swept.
\<close>

theorem cache_exact_store:
  assumes "kuttidb_create n initial_buckets seed (\<lambda>_. True) = Some c" "n \<le> 2 ^ 32" "clock_runs t calls"
  shows "all_exact t Map.empty (fst (run_store cache_step c calls))"
  using create_ok [OF assms(1,2)] assms(3)
  by (intro ks.run_exact) (simp_all add: roomy_def agree_def)

theorem cache_exact_store_witness:
  "\<exists>c. kuttidb_create 1 1 0 (\<lambda>_. True) = Some c \<and>
    all_exact 3 Map.empty (fst (run_store cache_step c [Do_Put [1] [2] 6, Do_Get [1] 5 True, Do_Sweep 4 7, Do_Get [1] 7 True]))"
proof -
  obtain c where c: "kuttidb_create 1 1 0 (\<lambda>_. True) = Some c" using create_roomy [of 1 1 0] by auto
  have "clock_runs 3 [Do_Put [1] [2] 6, Do_Get [1] 5 True, Do_Sweep 4 7, Do_Get [1] 7 True]" by simp
  then show ?thesis by (intro exI [of _ c] conjI c) (rule cache_exact_store [OF c], simp_all)
qed



text \<open>
  C31: A read of an expired key can lose a concurrent write.  If another thread stores a fresh
  value of the key after the reader has released the shard lock, the reader removes that
  value when it has taken the lock again: the put has reported success and the key is gone.
\<close>

theorem expired_get_drops_fresh_put:
  assumes "cache_ok c" "cache_map c k = Some (v0, x0)" "dead now x0" "k_budget c = 0"
    "kuttidb_put_abs c k v x = (0, c1)"
  shows "cache_map c1 k = Some (v, x)
    \<and> cache_map (snd (snd (get_common c k (Copy_Out None) 0 now mem_ok (\<lambda>_. c1)))) k = None"
proof -
  note p = put_laws [OF assms(1,5)]
  obtain a where "k_budget c = 0 \<Longrightarrow> a = c" "put_here a k v x (0, c1)"
    using put_abs_here [OF assms(1), of k v x] assms(5) by auto
  then have 1: "cache_map c1 k = Some (v, x)" using assms(4) by (simp add: put_here_def)
  have "cache_find c k \<noteq> None" "\<forall>e. cache_find c k = Some e \<longrightarrow> is_expired now e"
    using found_cache [OF assms(1), of k] assms(2,3) by (auto simp: cache_map_def is_expired_dead)
  then have "snd (snd (get_common c k (Copy_Out None) 0 now mem_ok (\<lambda>_. c1))) = get_expire c1 k"
    by (auto simp: get_common_def lookup_copy_def)
  then show ?thesis using 1 get_expire_ok(3) [OF p(1), of k] by simp
qed

theorem expired_get_drops_fresh_put_witness:
  "\<exists>c c1. cache_ok c \<and> cache_map c [1] = Some ([2], 5) \<and> dead 7 5 \<and> k_budget c = 0 \<and> kuttidb_put_abs c [1] [3] 0 = (0, c1)
    \<and> cache_map c1 [1] = Some ([3], 0)
    \<and> cache_map (snd (snd (get_common c [1] (Copy_Out None) 0 7 True (\<lambda>_. c1)))) [1] = None"
proof -
  obtain c0 where c0: "kuttidb_create 1 1 0 (\<lambda>_. True) = Some c0" using create_roomy [of 1 1 0] by auto
  have ok0: "cache_ok c0" "roomy c0" using create_ok [OF c0] by (simp_all add: roomy_def)
  obtain rc c where p: "kuttidb_put_abs c0 [1] [2] 5 = (rc, c)" by fastforce
  note l = put_laws [OF ok0(1) p]
  have ok: "cache_ok c" "roomy c" "cache_map c [1] = Some ([2], 5)"
    using l(1) l(6) [OF ok0(2)] roomy_env [OF l(2) ok0(2)] by simp_all
  obtain rc' c1 where p': "kuttidb_put_abs c [1] [3] 0 = (rc', c1)" by fastforce
  have r: "rc' = 0" using put_laws(6) [OF ok(1) p' ok(2)] by simp
  have d: "dead 7 5" by (simp add: dead_def)
  have b: "k_budget c = 0" using ok(2) by (simp add: roomy_def)
  show ?thesis
    using expired_get_drops_fresh_put [OF ok(1,3) d b p' [unfolded r], of True] ok d b p' r by blast
qed



end
