(* ===== verification/Cache_Views.thy ===== *)
theory Cache_Views
  imports Cache_Model
begin

unbundle bit_operations_syntax

text \<open>
  The vector the cache copies into, the staged iteration and the paged listing of keys:
  what they hand out is exactly the live entries of the tables, in table order.
\<close>

subsection \<open>Vectors\<close>

lemma vec_grow_bounds:
  "ncap \<noteq> 0 \<Longrightarrow> ncap \<le> SIZE_MAX \<Longrightarrow> need \<le> SIZE_MAX \<Longrightarrow>
    need \<le> vec_grow ncap need \<and> ncap \<le> max (vec_grow ncap need) need \<and> vec_grow ncap need \<le> SIZE_MAX"
proof (induction ncap need rule: vec_grow.induct)
  case (1 ncap need)
  let ?g = "if ncap \<ge> 2 ^ 20 then ncap div 2 else ncap"
  show ?case
  proof (cases "need \<le> ncap \<or> ?g > SIZE_MAX - ncap")
    case True
    then show ?thesis using "1.prems" by (subst (1 2 3) vec_grow.simps) (auto simp: Let_def)
  next
    case False
    then have "vec_grow ncap need = vec_grow (ncap + ?g) need" using "1.prems"
      by (subst vec_grow.simps) (simp add: Let_def)
    moreover have "need \<le> vec_grow (ncap + ?g) need \<and> ncap + ?g \<le> max (vec_grow (ncap + ?g) need) need
        \<and> vec_grow (ncap + ?g) need \<le> SIZE_MAX"
      by (rule "1.IH") (use False "1.prems" in \<open>auto simp: not_less\<close>)
    ultimately show ?thesis by (auto simp: max_def split: if_splits)
  qed
qed

lemma vec_first_bounds:
  assumes "cap < need" "need \<le> SIZE_MAX"
  shows "vec_first cap need \<noteq> 0" "vec_first cap need \<le> SIZE_MAX" "cap \<le> vec_first cap need"
  using assms by (auto simp: vec_first_def Let_def SIZE_MAX_def)

lemma vec_reserve_exact:
  assumes c: "length (v_data v) \<le> v_cap v" "v_cap v \<le> SIZE_MAX"
  shows "kuttidb_vec_reserve v extra mem_ok = (rc, v') \<Longrightarrow>
    v_data v' = v_data v \<and> v_cap v \<le> v_cap v' \<and> v_cap v' \<le> SIZE_MAX
    \<and> (if length (v_data v) + extra \<le> v_cap v then rc = 0 \<and> v' = v
       else if length (v_data v) + extra \<le> SIZE_MAX \<and> mem_ok then rc = 0 \<and> length (v_data v) + extra \<le> v_cap v'
       else rc = -1 \<and> v' = v)"
proof -
  assume r: "kuttidb_vec_reserve v extra mem_ok = (rc, v')"
  let ?need = "length (v_data v) + extra"
  have o: "extra > SIZE_MAX - length (v_data v) \<longleftrightarrow> \<not> ?need \<le> SIZE_MAX" using c by linarith
  show ?thesis
  proof (cases "v_cap v < ?need \<and> ?need \<le> SIZE_MAX \<and> mem_ok")
    case True
    then have n: "v_cap v < ?need" "?need \<le> SIZE_MAX" by auto
    note f = vec_first_bounds [OF n]
    note g = vec_grow_bounds [OF f(1,2) n(2)]
    have "v' = v\<lparr>v_cap := vec_grow (vec_first (v_cap v) ?need) ?need\<rparr>" "rc = 0"
      using r True by (auto simp: kuttidb_vec_reserve_def o Let_def)
    then show ?thesis using True g n by auto
  next
    case False
    then show ?thesis using r c by (auto simp: kuttidb_vec_reserve_def o Let_def split: if_splits)
  qed
qed

subsection \<open>Staging\<close>

definition visit_of :: "entry \<Rightarrow> visit" where
  "visit_of e = (e_key e, e_val e, e_exp e)"

definition lens_ok :: "entry \<Rightarrow> bool" where
  "lens_ok e \<longleftrightarrow> length (e_key e) < 2 ^ 32 \<and> length (e_val e) < 2 ^ 32"

text \<open>The callback on a list: it stops at the first non-zero answer.\<close>

fun call_each :: "('a \<Rightarrow> int) \<Rightarrow> 'a list \<Rightarrow> 'a list \<times> int" where
  "call_each cb [] = ([], 0)"
| "call_each cb (x # xs) =
     (if cb x \<noteq> 0 then ([x], cb x) else case call_each cb xs of (seen, r) \<Rightarrow> (x # seen, r))"

lemma call_each_append:
  "call_each cb (xs @ ys) =
    (case call_each cb xs of (seen, r) \<Rightarrow>
       if r \<noteq> 0 then (seen, r) else case call_each cb ys of (rest, r2) \<Rightarrow> (seen @ rest, r2))"
  by (induction xs) (auto split: prod.splits)

lemma run_staged_entry:
  assumes "lens_ok e"
  shows "run_staged cb (stage_entry e @ p) =
    (if cb (visit_of e) \<noteq> 0 then ([visit_of e], cb (visit_of e))
     else case run_staged cb p of (seen, r) \<Rightarrow> (visit_of e # seen, r))"
proof -
  let ?k = "word_of_nat (length (e_key e)) :: u32" and ?v = "word_of_nat (length (e_val e)) :: u32"
  define q where "q = stage_entry e @ p"
  have q: "q = put32 ?k @ put32 ?v @ put32 (e_exp e) @ e_key e @ e_val e @ p" by (simp add: q_def stage_entry_def)
  have u: "unat ?k = length (e_key e)" "unat ?v = length (e_val e)"
    using assms by (simp_all add: lens_ok_def unat_of_nat take_bit_nat_eq_self)
  have l: "length (put32 x) = 4" for x by (simp add: put32_le)
  have g: "get32 q = ?k" "get32 (drop 4 q) = ?v" "get32 (drop 8 q) = e_exp e" "drop 12 q = e_key e @ e_val e @ p"
    unfolding q by (simp_all add: l c32.dec_enc)
  have d: "drop (12 + n) q = drop n (e_key e @ e_val e @ p)" for n
    by (metis g(4) drop_drop add.commute)
  have ne: "q \<noteq> []" unfolding q using l [of ?k] by (cases "put32 ?k") auto
  show ?thesis unfolding q_def [symmetric]
    by (subst run_staged.simps) (simp add: Let_def g u d ne visit_of_def add.assoc)
qed

lemma run_staged_entries:
  "\<forall>e\<in>set es. lens_ok e \<Longrightarrow> run_staged cb (concat (map stage_entry es)) = call_each cb (map visit_of es)"
proof (induction es)
  case Nil
  show ?case by (simp add: run_staged.simps)
qed (simp add: run_staged_entry)

definition live_in :: "u32 \<Rightarrow> shard \<Rightarrow> entry list" where
  "live_in now s = filter (\<lambda>e. \<not> is_expired now e) (concat (sh_buckets s))"

definition stage_room :: "kutti_vec \<Rightarrow> bool" where
  "stage_room v \<longleftrightarrow> length (v_data v) \<le> v_cap v \<and> v_cap v \<le> SIZE_MAX"

lemma stage_entries_ok:
  assumes "\<forall>k. grow k" "stage_room v"
    "length (v_data v) + sum_list (map (length \<circ> stage_entry) (filter (\<lambda>e. \<not> is_expired now e) es)) \<le> SIZE_MAX"
  shows "\<exists>v' k'. stage_entries now grow es (v, k) = (True, v', k') \<and> stage_room v'
    \<and> v_data v' = v_data v @ concat (map stage_entry (filter (\<lambda>e. \<not> is_expired now e) es))"
  using assms
proof (induction es arbitrary: v k)
  case (Cons e es)
  show ?case
  proof (cases "is_expired now e")
    case False
    let ?n = "12 + length (e_key e) + length (e_val e)"
    have le: "length (stage_entry e) = ?n" by (simp add: stage_entry_def put32_le)
    obtain rc v1 where r: "kuttidb_vec_reserve v ?n (grow k) = (rc, v1)" by fastforce
    have f: "length (v_data v) + ?n \<le> SIZE_MAX" using Cons.prems(3) False le by simp
    have x: "rc = 0" "v_data v1 = v_data v" "length (v_data v) + ?n \<le> v_cap v1" "v_cap v1 \<le> SIZE_MAX"
      using vec_reserve_exact [OF _ _ r] Cons.prems(1,2) f by (auto simp: stage_room_def split: if_splits)
    let ?w = "v1\<lparr>v_data := v_data v1 @ stage_entry e\<rparr>"
    have "\<exists>v' k'. stage_entries now grow es (?w, Suc k) = (True, v', k') \<and> stage_room v'
      \<and> v_data v' = v_data ?w @ concat (map stage_entry (filter (\<lambda>e. \<not> is_expired now e) es))"
      by (rule Cons.IH [OF Cons.prems(1)]) (use x le Cons.prems(3) False in \<open>simp_all add: stage_room_def\<close>)
    then show ?thesis using False r x by simp
  qed (use Cons in simp)
qed simp

text \<open>A shard whose staged entries exceed the address space cannot be held in memory either.\<close>

lemma foreach_shards_visits:
  assumes "\<forall>k. grow k" "\<forall>s\<in>set ss. (\<forall>e\<in>set (concat (sh_buckets s)). lens_ok e)
      \<and> sum_list (map (length \<circ> stage_entry) (live_in now s)) \<le> SIZE_MAX" "v_cap v \<le> SIZE_MAX"
  shows "foreach_shards now grow cb ss (v, k) = call_each cb (map visit_of (concat (map (live_in now) ss)))"
  using assms
proof (induction ss arbitrary: v k)
  case (Cons s ss)
  have "\<exists>v' k'. stage_entries now grow (concat (sh_buckets s)) (v\<lparr>v_data := []\<rparr>, k) = (True, v', k') \<and> stage_room v'
      \<and> v_data v' = v_data (v\<lparr>v_data := []\<rparr>) @ concat (map stage_entry (filter (\<lambda>e. \<not> is_expired now e) (concat (sh_buckets s))))"
    by (rule stage_entries_ok [OF Cons.prems(1)]) (use Cons.prems(2,3) in \<open>simp_all add: stage_room_def live_in_def comp_def\<close>)
  then obtain v1 k1 where st: "stage_entries now grow (concat (sh_buckets s)) (v\<lparr>v_data := []\<rparr>, k) = (True, v1, k1)"
    "stage_room v1" "v_data v1 = concat (map stage_entry (live_in now s))"
    unfolding live_in_def by (auto simp del: filter_concat)
  have r: "run_staged cb (v_data v1) = call_each cb (map visit_of (live_in now s))"
    unfolding st(3) by (rule run_staged_entries) (use Cons.prems(2) in \<open>auto simp: live_in_def\<close>)
  have "foreach_shards now grow cb ss (v1, k1) = call_each cb (map visit_of (concat (map (live_in now) ss)))"
    by (rule Cons.IH [OF Cons.prems(1)]) (use Cons.prems(2) st(2) in \<open>auto simp: stage_room_def\<close>)
  then show ?case by (simp add: st(1) r call_each_append split: prod.splits)
qed simp

subsection \<open>Pages\<close>

definition wanted :: "u32 \<Rightarrow> (entry \<Rightarrow> bool) \<Rightarrow> entry \<Rightarrow> bool" where
  "wanted now match e \<longleftrightarrow> \<not> is_expired now e \<and> match e"

text \<open>
  One stretch of the walk over wanted entries \<open>W\<close>: as many as the page still takes are
  shown, and the cursor moves only with a delivery, to where the others begin.
\<close>

definition walked :: "nat \<Rightarrow> entry list \<Rightarrow> (cursor \<Rightarrow> entry list \<Rightarrow> bool) \<Rightarrow> page_state \<Rightarrow> page_state \<Rightarrow> bool" where
  "walked m W after st st' \<longleftrightarrow>
     p_seen st' = p_seen st @ take (m - p_delivered st) W
     \<and> p_delivered st' = p_delivered st + length (take (m - p_delivered st) W)
     \<and> p_more st' = (m - p_delivered st < length W) \<and> \<not> p_stop st'
     \<and> (if take (m - p_delivered st) W = [] then p_next st' = p_next st
        else \<exists>cur. p_next st' = Some cur \<and> after cur (drop (m - p_delivered st) W))"

definition page_ready :: "nat \<Rightarrow> page_state \<Rightarrow> bool" where
  "page_ready m st \<longleftrightarrow> p_delivered st \<le> m \<and> \<not> p_more st \<and> \<not> p_stop st"

lemma walked_nil: "page_ready m st \<Longrightarrow> walked m [] after st st"
  by (simp add: walked_def page_ready_def)

lemma walked_mono: "walked m W P st st' \<Longrightarrow> (\<And>cur R. P cur R \<Longrightarrow> Q cur R) \<Longrightarrow> walked m W Q st st'"
  by (auto simp: walked_def split: if_splits)

text \<open>Two stretches in a row; the second is walked only when the first has not filled the page.\<close>

lemma walked_full:
  assumes "walked m V P st s" "p_more s" "\<And>cur R. P cur R \<Longrightarrow> Q cur (R @ W)"
  shows "walked m (V @ W) Q st s"
  using assms by (auto simp: walked_def split: if_splits)

lemma walked_append:
  assumes v: "walked m V P st s" "\<not> p_more s" "page_ready m st"
    and w: "walked m W Q s2 s'" "p_seen s2 = p_seen s" "p_delivered s2 = p_delivered s" "p_next s2 = p_next s"
    and p: "\<And>cur. P cur [] \<Longrightarrow> p_next s' = Some cur \<Longrightarrow> R cur W" and q: "\<And>cur X. Q cur X \<Longrightarrow> R cur X"
  shows "walked m (V @ W) R st s'"
proof -
  have l: "length V \<le> m - p_delivered st" using v(1,2) by (simp add: walked_def)
  have s: "p_delivered s = p_delivered st + length V" "p_seen s = p_seen st @ V"
    using v(1) l by (simp_all add: walked_def)
  have d: "m - p_delivered s = m - p_delivered st - length V" using s by simp
  have t: "take (m - p_delivered st) (V @ W) = V @ take (m - p_delivered s) W"
    "drop (m - p_delivered st) (V @ W) = drop (m - p_delivered s) W" using l d by simp_all
  have n: "\<exists>cur. p_next s' = Some cur \<and> R cur (drop (m - p_delivered s) W)" if ne: "V @ take (m - p_delivered s) W \<noteq> []"
  proof (cases "take (m - p_delivered s) W = []")
    case True
    then have V: "V \<noteq> []" and dr: "drop (m - p_delivered s) W = W" using ne by auto
    have "take (m - p_delivered st) V = V" "drop (m - p_delivered st) V = []" using l by simp_all
    then obtain cur where "p_next s = Some cur" "P cur []" using v(1) V by (auto simp: walked_def)
    moreover have "p_next s' = p_next s" using w True by (simp add: walked_def)
    ultimately show ?thesis using p dr by auto
  next
    case False
    then show ?thesis using w q by (auto simp: walked_def)
  qed
  have z: "V = [] \<Longrightarrow> p_next s = p_next st" using v(1) by (simp add: walked_def)
  show ?thesis unfolding walked_def t
    using w s d l n z by (auto simp: walked_def)
qed

lemma page_entries_walked:
  assumes "page_ready m st"
  shows "walked m (filter (wanted now match) (drop (skip - idx) es))
      (\<lambda>cur R. \<exists>n\<ge>idx. cur = (i, b, n) \<and> filter (wanted now match) (drop (n - idx) es) = R) st
      (page_entries now (\<lambda>_. False) match m i b skip idx es st)
    \<and> p_pos (page_entries now (\<lambda>_. False) match m i b skip idx es st) = p_pos st"
  using assms
proof (induction es arbitrary: idx st)
  case (Cons e es)
  let ?A = "\<lambda>idx es cur R. \<exists>n\<ge>idx. cur = (i, b, n) \<and> filter (wanted now match) (drop (n - idx) es) = R"
  have x: "drop (n - idx) (e # es) = drop (n - Suc idx) es" if "n \<ge> Suc idx" for n
    using that by (simp add: drop_Cons')
  have weak: "?A idx (e # es) cur R" if "?A (Suc idx) es cur R" for cur R
    using that x Suc_leD by metis
  show ?case
  proof (cases "idx < skip \<or> \<not> wanted now match e")
    case True
    then have w: "filter (wanted now match) (drop (skip - idx) (e # es)) = filter (wanted now match) (drop (skip - Suc idx) es)"
      by (auto simp: drop_Cons')
    have p: "page_entries now (\<lambda>_. False) match m i b skip idx (e # es) st =
        page_entries now (\<lambda>_. False) match m i b skip (Suc idx) es st"
      using True by (auto simp: wanted_def)
    note h = Cons.IH [OF Cons.prems, of "Suc idx"]
    show ?thesis unfolding p w by (rule conjI [OF walked_mono [OF conjunct1 [OF h] weak] conjunct2 [OF h]])
  next
    case False
    then have w: "filter (wanted now match) (drop (skip - idx) (e # es)) = [e] @ filter (wanted now match) (drop (skip - Suc idx) es)"
      by simp
    have ne: "\<not> (idx < skip \<or> is_expired now e \<or> \<not> match e)" using False by (simp add: wanted_def)
    show ?thesis
    proof (cases "p_delivered st = m")
      case True
      then show ?thesis using Cons.prems ne False by (simp add: walked_def page_ready_def)
    next
      case d: False
      let ?st = "st\<lparr>p_seen := p_seen st @ [e], p_delivered := Suc (p_delivered st), p_next := Some (i, b, Suc idx)\<rparr>"
      have p: "page_entries now (\<lambda>_. False) match m i b skip idx (e # es) st =
          page_entries now (\<lambda>_. False) match m i b skip (Suc idx) es ?st"
        using ne d by (simp add: Let_def)
      have r: "page_ready m ?st" using Cons.prems d by (simp add: page_ready_def)
      have one: "walked m [e] (\<lambda>cur R. cur = (i, b, Suc idx) \<and> R = []) st ?st"
        using d Cons.prems by (auto simp: walked_def page_ready_def take_Cons' drop_Cons')
      note h = Cons.IH [OF r, of "Suc idx"]
      show ?thesis unfolding p w
      proof
        show "walked m ([e] @ filter (wanted now match) (drop (skip - Suc idx) es)) (?A idx (e # es)) st
            (page_entries now (\<lambda>_. False) match m i b skip (Suc idx) es ?st)"
        proof (rule walked_append [OF one _ Cons.prems conjunct1 [OF h] refl refl refl])
          show "\<not> p_more ?st" using Cons.prems by (simp add: page_ready_def)
          show "?A idx (e # es) cur (filter (wanted now match) (drop (skip - Suc idx) es))"
            if "cur = (i, b, Suc idx) \<and> [] = []" for cur
            by (rule exI [of _ "Suc idx"]) (use that False in simp)
        qed (rule weak)
      qed (use conjunct2 [OF h] in simp)
    qed
  qed
qed (simp add: walked_nil)

definition start_list :: "nat \<Rightarrow> entry list list \<Rightarrow> entry list" where
  "start_list n bs = (case bs of [] \<Rightarrow> [] | es # rest \<Rightarrow> drop n es @ concat rest)"

lemma start_list_zero [simp]: "start_list 0 bs = concat bs"
  by (cases bs) (simp_all add: start_list_def)

lemma page_buckets_walked:
  assumes "page_ready m st" "p_pos st = (pi, pb, pe)"
  shows "walked m (filter (wanted now match) (start_list (if i = pi \<and> b = pb then pe else 0) bs))
      (\<lambda>cur R. \<exists>d n. cur = (i, b + d, n) \<and> d < length bs \<and> filter (wanted now match) (start_list n (drop d bs)) = R) st
      (page_buckets now (\<lambda>_. False) match m i b bs st)"
  using assms
proof (induction bs arbitrary: b st pi pb pe)
  case (Cons es bs)
  let ?f = "filter (wanted now match)" and ?k = "if i = pi \<and> b = pb then pe else 0"
  let ?s = "page_entries now (\<lambda>_. False) match m i b ?k 0 es st"
  let ?A = "\<lambda>b bs cur R. \<exists>d n. cur = (i, b + d, n) \<and> d < length bs \<and> ?f (start_list n (drop d bs)) = R"
  have e: "walked m (?f (drop ?k es)) (\<lambda>cur R. \<exists>n. cur = (i, b, n) \<and> ?f (drop n es) = R) st ?s" "p_pos ?s = p_pos st"
    using page_entries_walked [OF Cons.prems(1), of now match ?k 0 es i b] by auto
  have w: "?f (start_list ?k (es # bs)) = ?f (drop ?k es) @ ?f (concat bs)" by (simp add: start_list_def)
  have ns: "\<not> p_stop ?s" using e(1) by (simp add: walked_def)
  have here: "?A b (es # bs) cur (R @ ?f (concat bs))" if that0: "\<exists>n. cur = (i, b, n) \<and> ?f (drop n es) = R" for cur R
  proof -
    obtain n where n: "cur = (i, b, n)" "?f (drop n es) = R" using that0 by blast
    show ?thesis by (rule exI [of _ 0], rule exI [of _ n]) (use n in \<open>simp add: start_list_def\<close>)
  qed
  have later: "?A b (es # bs) cur R" if that0: "?A (Suc b) bs cur R" for cur R
  proof -
    obtain d n where d: "cur = (i, Suc b + d, n)" "d < length bs" "?f (start_list n (drop d bs)) = R" using that0 by blast
    show ?thesis by (intro exI [of _ "Suc d"] exI [of _ n]) (use d in simp)
  qed
  show ?case
  proof (cases "p_more ?s")
    case True
    have p: "page_buckets now (\<lambda>_. False) match m i b (es # bs) st = ?s" using True Cons.prems(2) by (simp add: Let_def)
    show ?thesis unfolding w p by (rule walked_full [OF e(1) True]) (rule here)
  next
    case False
    let ?t = "?s\<lparr>p_pos := (i, Suc b, 0)\<rparr>"
    have r: "page_ready m ?t" using e(1) False ns Cons.prems(1) by (auto simp: page_ready_def walked_def)
    have p: "page_buckets now (\<lambda>_. False) match m i b (es # bs) st = page_buckets now (\<lambda>_. False) match m i (Suc b) bs ?t"
      using False ns Cons.prems(2) by (simp add: Let_def)
    have h: "walked m (?f (concat bs)) (?A (Suc b) bs) ?t (page_buckets now (\<lambda>_. False) match m i (Suc b) bs ?t)"
      using Cons.IH [OF r, of i "Suc b" 0 "Suc b"] by simp
    show ?thesis unfolding p w
    proof (rule walked_append [OF e(1) False Cons.prems(1) h])
      fix cur assume "\<exists>n. cur = (i, b, n) \<and> ?f (drop n es) = []"
      then show "?A b (es # bs) cur (?f (concat bs))" using here [where R = "[]"] by simp
    qed (simp, simp, simp, rule later)
  qed
qed (simp add: start_list_def walked_nil)

definition shard_list :: "nat \<Rightarrow> nat \<Rightarrow> shard list \<Rightarrow> entry list" where
  "shard_list b n ss = (case ss of [] \<Rightarrow> []
     | s # rest \<Rightarrow> start_list n (drop b (sh_buckets s)) @ concat (map (\<lambda>s. concat (sh_buckets s)) rest))"

lemma shard_list_zero [simp]: "shard_list 0 0 ss = concat (map (\<lambda>s. concat (sh_buckets s)) ss)"
  by (cases ss) (simp_all add: shard_list_def)

lemma page_shards_walked:
  assumes "page_ready m st" "p_pos st = (pi, pb, pe)"
  shows "walked m (filter (wanted now match) (shard_list (if i = pi then pb else 0) (if i = pi then pe else 0) ss))
      (\<lambda>cur R. \<exists>d b n. cur = (i + d, b, n) \<and> d < length ss \<and> filter (wanted now match) (shard_list b n (drop d ss)) = R) st
      (page_shards now (\<lambda>_. False) match m i ss st)
    \<and> (ss \<noteq> [] \<longrightarrow> \<not> p_more (page_shards now (\<lambda>_. False) match m i ss st) \<longrightarrow>
        p_pos (page_shards now (\<lambda>_. False) match m i ss st) = (i + length ss, 0, 0))"
  using assms
proof (induction ss arbitrary: i st pi pb pe)
  case (Cons s ss)
  let ?f = "filter (wanted now match)" and ?b = "if i = pi then pb else 0" and ?n = "if i = pi then pe else 0"
  let ?bs = "drop ?b (sh_buckets s)"
  let ?s = "page_buckets now (\<lambda>_. False) match m i ?b ?bs st"
  let ?A = "\<lambda>i ss cur R. \<exists>d b n. cur = (i + d, b, n) \<and> d < length ss \<and> ?f (shard_list b n (drop d ss)) = R"
  have k: "(if i = pi \<and> ?b = pb then pe else 0) = ?n" by simp
  note e = page_buckets_walked [OF Cons.prems(1,2), of now match i ?b ?bs, unfolded k]
  have w: "?f (shard_list ?b ?n (s # ss)) = ?f (start_list ?n ?bs) @ ?f (concat (map (\<lambda>s. concat (sh_buckets s)) ss))"
    by (simp add: shard_list_def)
  have ns: "\<not> p_stop ?s" using e by (simp add: walked_def)
  have here: "?A i (s # ss) cur (R @ ?f (concat (map (\<lambda>s. concat (sh_buckets s)) ss)))"
    if that0: "\<exists>d n. cur = (i, ?b + d, n) \<and> d < length ?bs \<and> ?f (start_list n (drop d ?bs)) = R" for cur R
  proof -
    obtain d n where d: "cur = (i, ?b + d, n)" "?f (start_list n (drop d ?bs)) = R" using that0 by blast
    show ?thesis by (rule exI [of _ 0], rule exI [of _ "?b + d"], rule exI [of _ n])
      (use d in \<open>simp add: shard_list_def add.commute\<close>)
  qed
  have later: "?A i (s # ss) cur R" if that0: "?A (Suc i) ss cur R" for cur R
  proof -
    obtain d b n where d: "cur = (Suc i + d, b, n)" "d < length ss" "?f (shard_list b n (drop d ss)) = R" using that0 by blast
    show ?thesis by (rule exI [of _ "Suc d"], rule exI [of _ b], rule exI [of _ n]) (use d in simp)
  qed
  show ?case
  proof (cases "p_more ?s")
    case True
    have p: "page_shards now (\<lambda>_. False) match m i (s # ss) st = ?s" using True Cons.prems(2) by (simp add: Let_def)
    have "walked m (?f (shard_list ?b ?n (s # ss))) (?A i (s # ss)) st ?s"
      unfolding w by (rule walked_full [OF e True]) (rule here)
    then show ?thesis unfolding p using True by simp
  next
    case False
    let ?t = "?s\<lparr>p_pos := (Suc i, 0, 0)\<rparr>"
    have r: "page_ready m ?t" using e False ns Cons.prems(1) by (auto simp: page_ready_def walked_def)
    have p: "page_shards now (\<lambda>_. False) match m i (s # ss) st = page_shards now (\<lambda>_. False) match m (Suc i) ss ?t"
      using False ns Cons.prems(2) by (simp add: Let_def)
    note h0 = Cons.IH [OF r, of "Suc i" 0 0 "Suc i"]
    have h: "walked m (?f (concat (map (\<lambda>s. concat (sh_buckets s)) ss))) (?A (Suc i) ss) ?t
        (page_shards now (\<lambda>_. False) match m (Suc i) ss ?t)"
      using h0 by simp
    have w': "walked m (?f (shard_list ?b ?n (s # ss))) (?A i (s # ss)) st (page_shards now (\<lambda>_. False) match m (Suc i) ss ?t)"
      unfolding w
    proof (rule walked_append [OF e False Cons.prems(1) h])
      fix cur assume "\<exists>d n. cur = (i, ?b + d, n) \<and> d < length ?bs \<and> ?f (start_list n (drop d ?bs)) = []"
      then show "?A i (s # ss) cur (?f (concat (map (\<lambda>s. concat (sh_buckets s)) ss)))" using here [where R = "[]"] by simp
    qed (simp, simp, simp, rule later)
    have "p_pos (page_shards now (\<lambda>_. False) match m (Suc i) ss ?t) = (i + length (s # ss), 0, 0)"
      if "\<not> p_more (page_shards now (\<lambda>_. False) match m (Suc i) ss ?t)"
      using that conjunct2 [OF h0] by (cases "ss = []") simp_all
    then show ?thesis unfolding p using conjI [OF w'] by blast
  qed
qed (simp add: shard_list_def walked_nil)

subsection \<open>Properties\<close>

definition two_entries :: cache where
  "two_entries =
     (let e = \<lparr>e_exp = 0, e_hash = 0, e_key = [1], e_val = [5, 6], e_cls = 0\<rparr>;
          d = \<lparr>e_exp = 9, e_hash = 0, e_key = [2], e_val = [], e_cls = 0\<rparr>;
          s = \<lparr>sh_buckets = [[e], [d]], sh_count = 2, sh_mem = 112, sh_slabs = 1, sh_left = 0, sh_free = []\<rparr>
      in \<lparr>k_shards = [s], k_bits = 1, k_budget = 0, k_total = 112, k_allocated = 112, k_expired = 0, k_evicted = 0, k_ttl = 1,
          k_rseed = 0, k_revision = 0, k_cursor = 0, k_malloc = (\<lambda>_. True), k_calls = 0\<rparr>)"

text \<open>The wanted entries at or after a cursor, in table order.\<close>

definition from_cursor :: "u32 \<Rightarrow> (entry \<Rightarrow> bool) \<Rightarrow> cache \<Rightarrow> cursor \<Rightarrow> entry list" where
  "from_cursor now match c cur =
     (case cur of (i, b, n) \<Rightarrow> filter (wanted now match) (shard_list b n (drop i (k_shards c))))"

text \<open>
  C29: A page of the key listing is exact.  From any cursor it shows as many live
  matching entries as asked for, reports whether there are more, and hands back a cursor from which
  exactly the remaining ones follow; so pages taken one after the other list every live
  matching key once and in order.
\<close>

theorem metadata_page_exact:
  assumes "0 < m"
  shows "\<exists>next. kuttidb_foreach_metadata_page_filtered c (Some cur) m (\<lambda>_. False) match now =
      Some (take m (from_cursor now match c cur), length (take m (from_cursor now match c cur)), Some next,
            Some (m < length (from_cursor now match c cur)))
    \<and> from_cursor now match c next = drop m (from_cursor now match c cur)"
proof (cases "fst cur \<ge> nshards c")
  case True
  then have "from_cursor now match c cur = []"
    by (cases cur) (simp add: from_cursor_def nshards_def shard_list_def)
  then show ?thesis using True assms by (simp add: kuttidb_foreach_metadata_page_filtered_def)
next
  case False
  obtain i b n where cur: "cur = (i, b, n)" by (rule prod_cases3)
  let ?ss = "drop i (k_shards c)" and ?L = "from_cursor now match c cur"
  let ?st = "\<lparr>p_pos = cur, p_next = None, p_seen = [], p_delivered = 0, p_more = False, p_stop = False\<rparr>"
  let ?r = "page_shards now (\<lambda>_. False) match m i ?ss ?st"
  have L: "?L = filter (wanted now match) (shard_list b n ?ss)" by (simp add: from_cursor_def cur)
  have ss: "?ss \<noteq> []" using False by (simp add: cur nshards_def)
  have "page_ready m ?st" "p_pos ?st = (i, b, n)" by (simp_all add: page_ready_def cur)
  note w0 = page_shards_walked [OF this, of now match i ?ss]
  have w: "p_seen ?r = take m ?L" "p_delivered ?r = length (take m ?L)" "p_more ?r = (m < length ?L)" "\<not> p_stop ?r"
    using conjunct1 [OF w0] by (simp_all add: walked_def L)
  have e: "kuttidb_foreach_metadata_page_filtered c (Some cur) m (\<lambda>_. False) match now =
      Some (p_seen ?r, p_delivered ?r, (if p_delivered ?r = 0 then Some (p_pos ?r) else p_next ?r), Some (p_more ?r))"
    using False assms w(4) by (simp add: kuttidb_foreach_metadata_page_filtered_def Let_def cur)
  show ?thesis
  proof (cases "take m ?L = []")
    case True
    then have "?L = []" using assms by simp
    moreover have "p_pos ?r = (i + length ?ss, 0, 0)" using conjunct2 [OF w0] ss w(3) \<open>?L = []\<close> by simp
    ultimately show ?thesis using e w(1-3) by (intro exI [of _ "(i + length ?ss, 0, 0)"]) (simp add: from_cursor_def)
  next
    case ne: False
    then obtain d b' n' where d: "p_next ?r = Some (i + d, b', n')" "filter (wanted now match) (shard_list b' n' (drop d ?ss)) = drop m ?L"
      using conjunct1 [OF w0] by (auto simp: walked_def L)
    then have "from_cursor now match c (i + d, b', n') = drop m ?L" by (simp add: from_cursor_def add.commute)
    moreover have "p_delivered ?r \<noteq> 0" using w(2) ne by (simp only: length_0_conv not_False_eq_True)
    ultimately show ?thesis using e d(1) unfolding w(1,3) by (intro exI [of _ "(i + d, b', n')"]) (simp only: if_False w(2) simp_thms)
  qed
qed

theorem metadata_page_exact_witness:
  "\<exists>next. kuttidb_foreach_metadata_page_filtered two_entries (Some (0, 0, 0)) 1 (\<lambda>_. False) (\<lambda>_. True) 3 =
      Some (take 1 (from_cursor 3 (\<lambda>_. True) two_entries (0, 0, 0)), 1, Some next, Some True)
    \<and> length (from_cursor 3 (\<lambda>_. True) two_entries next) = 1"
proof -
  have l: "length (from_cursor 3 (\<lambda>_. True) two_entries (0, 0, 0)) = 2"
    by (simp add: from_cursor_def two_entries_def Let_def wanted_def is_expired_def)
  show ?thesis using metadata_page_exact [of 1 two_entries "(0, 0, 0)" "\<lambda>_. True" 3] l by auto
qed

text \<open>
  C30: The iteration of a snapshot hands its callback exactly the live entries, in table order
  and with their bytes intact, up to the first answer that stops it: what is parsed back
  from the staging buffer is what was staged, and the answer that stopped is the result.
\<close>

theorem foreach_visits_live:
  assumes "\<forall>k. grow k"
    "\<forall>s\<in>set (k_shards c). (\<forall>e\<in>set (concat (sh_buckets s)). lens_ok e)
       \<and> sum_list (map (length \<circ> stage_entry) (live_in now s)) \<le> SIZE_MAX"
  shows "kuttidb_foreach c cb now grow = call_each cb (map visit_of (concat (map (live_in now) (k_shards c))))"
  unfolding kuttidb_foreach_def by (rule foreach_shards_visits [OF assms]) simp

theorem foreach_visits_live_witness:
  "kuttidb_foreach two_entries (\<lambda>_. 0) 9 (\<lambda>_. True) = ([([1], [5, 6], 0)], 0)"
proof -
  have "\<forall>s\<in>set (k_shards two_entries). (\<forall>e\<in>set (concat (sh_buckets s)). lens_ok e)
       \<and> sum_list (map (length \<circ> stage_entry) (live_in 9 s)) \<le> SIZE_MAX"
    by (simp add: two_entries_def Let_def lens_ok_def live_in_def is_expired_def stage_entry_def put32_le SIZE_MAX_def)
  then have "kuttidb_foreach two_entries (\<lambda>_. 0) 9 (\<lambda>_. True) =
      call_each (\<lambda>_. 0) (map visit_of (concat (map (live_in 9) (k_shards two_entries))))"
    using foreach_visits_live [of "\<lambda>_. True" two_entries 9 "\<lambda>_. 0"] by blast
  then show ?thesis by (simp add: two_entries_def Let_def live_in_def is_expired_def visit_of_def)
qed

end
