(* ===== verification/Lifecycle.thy ===== *)
theory Lifecycle
  imports Kutti_Prelude
begin

text \<open>
  The lifecycle of a managed server (\<open>managed_lifecycle.c\<close>): connections are leases, and a
  server in idle mode stops itself when none was held for long enough.  The mutex makes
  every call atomic; the monotonic clock is an argument.  An uninitialised handle, which
  the code leaves behind when its state cannot be allocated, is \<open>None\<close>.
\<close>

subsection \<open>The state and the calls\<close>

datatype lifecycle_mode = MANAGED_STANDALONE | MANAGED_IDLE

record life =
  lf_mode :: lifecycle_mode
  lf_idle_ms :: u64
  lf_orphan_ms :: u64
  lf_started_ms :: u64
  lf_deadline_ms :: u64
  lf_connections :: u32
  lf_seen_connection :: bool
  lf_stopping :: bool

definition managed_lifecycle_init :: "lifecycle_mode \<Rightarrow> u64 \<Rightarrow> u64 \<Rightarrow> u64 \<Rightarrow> bool \<Rightarrow> life option" where
  "managed_lifecycle_init mode idle orphan now calloc_ok =
     (if \<not> calloc_ok then None
      else Some \<lparr>lf_mode = mode, lf_idle_ms = idle, lf_orphan_ms = orphan, lf_started_ms = now,
                 lf_deadline_ms = (if mode = MANAGED_IDLE then now + orphan else 0),
                 lf_connections = 0, lf_seen_connection = False, lf_stopping = False\<rparr>)"

definition managed_lifecycle_connection_open :: "life \<Rightarrow> bool \<times> life" where
  "managed_lifecycle_connection_open s =
     (if lf_stopping s then (False, s)
      else (True, s\<lparr>lf_connections := lf_connections s + 1, lf_seen_connection := True, lf_deadline_ms := 0\<rparr>))"

definition managed_lifecycle_connection_close :: "life \<Rightarrow> u64 \<Rightarrow> life" where
  "managed_lifecycle_connection_close s now =
     (let s1 = (if lf_connections s \<noteq> 0 then s\<lparr>lf_connections := lf_connections s - 1\<rparr> else s)
      in if lf_mode s1 = MANAGED_IDLE \<and> lf_connections s1 = 0 \<and> \<not> lf_stopping s1
         then s1\<lparr>lf_deadline_ms := now + lf_idle_ms s1\<rparr> else s1)"

definition managed_lifecycle_should_stop :: "life \<Rightarrow> u64 \<Rightarrow> bool \<times> life" where
  "managed_lifecycle_should_stop s now =
     (if lf_mode s = MANAGED_IDLE \<and> \<not> lf_stopping s \<and> lf_connections s = 0 \<and> lf_deadline_ms s \<noteq> 0
         \<and> now \<ge> lf_deadline_ms s
      then (True, s\<lparr>lf_stopping := True\<rparr>) else (False, s))"

definition managed_lifecycle_connections :: "life \<Rightarrow> u32" where
  "managed_lifecycle_connections s = lf_connections s"

definition managed_lifecycle_deadline_remaining_ms :: "life \<Rightarrow> u64 \<Rightarrow> u64" where
  "managed_lifecycle_deadline_remaining_ms s now =
     (if lf_deadline_ms s > now then lf_deadline_ms s - now else 0)"

definition managed_lifecycle_is_stopping :: "life \<Rightarrow> bool" where
  "managed_lifecycle_is_stopping s = lf_stopping s"

definition managed_lifecycle_name :: "lifecycle_mode \<Rightarrow> string" where
  "managed_lifecycle_name mode = (if mode = MANAGED_IDLE then ''managed-idle'' else ''standalone'')"

subsection \<open>Histories\<close>

datatype life_call = Conn_Open | Conn_Close u64 | Ask_Stop u64

inductive life_step :: "life \<Rightarrow> life_call \<times> bool \<Rightarrow> life \<Rightarrow> bool" where
  step_open: "managed_lifecycle_connection_open s = (r, s') \<Longrightarrow> life_step s (Conn_Open, r) s'"
| step_close: "life_step s (Conn_Close now, True) (managed_lifecycle_connection_close s now)"
| step_stop: "managed_lifecycle_should_stop s now = (r, s') \<Longrightarrow> life_step s (Ask_Stop now, r) s'"

inductive_cases life_openE: "life_step s (Conn_Open, r) s'"
inductive_cases life_closeE: "life_step s (Conn_Close now, r) s'"
inductive_cases life_stopE: "life_step s (Ask_Stop now, r) s'"

inductive life_run :: "life \<Rightarrow> (life_call \<times> bool) list \<Rightarrow> life \<Rightarrow> bool" where
  run_none: "life_run s [] s"
| run_more: "life_step s e t \<Longrightarrow> life_run t es s' \<Longrightarrow> life_run s (e # es) s'"

inductive_cases life_run_consE: "life_run s (e # es) s'"

definition opens :: "(life_call \<times> bool) list \<Rightarrow> nat" where
  "opens tr = length (filter (\<lambda>e. e = (Conn_Open, True)) tr)"

definition is_close :: "life_call \<times> bool \<Rightarrow> bool" where
  "is_close e = (case fst e of Conn_Close now \<Rightarrow> True | _ \<Rightarrow> False)"

definition closes :: "(life_call \<times> bool) list \<Rightarrow> nat" where
  "closes tr = length (filter is_close tr)"

definition is_stop :: "life_call \<times> bool \<Rightarrow> bool" where
  "is_stop e = (case e of (Ask_Stop now, r) \<Rightarrow> r | _ \<Rightarrow> False)"

text \<open>Callers give back no more leases than they hold.\<close>

definition leases_matched :: "nat \<Rightarrow> (life_call \<times> bool) list \<Rightarrow> bool" where
  "leases_matched h tr \<longleftrightarrow> (\<forall>k\<le>length tr. closes (take k tr) \<le> h + opens (take k tr))"

lemma trace_simps [simp]:
  "opens [] = 0" "closes [] = 0" "opens (e # tr) = (if e = (Conn_Open, True) then 1 else 0) + opens tr"
  "closes (e # tr) = (if is_close e then 1 else 0) + closes tr"
  "is_close (Conn_Open, r) = False" "is_close (Conn_Close now, r) = True" "is_close (Ask_Stop now, r) = False"
  "is_stop (Conn_Open, r) = False" "is_stop (Conn_Close now, r) = False" "is_stop (Ask_Stop now, r) = r"
  by (simp_all add: opens_def closes_def is_close_def is_stop_def)

lemma leases_matched_cons:
  assumes "leases_matched h (e # tr)"
  shows "leases_matched (h + (if e = (Conn_Open, True) then 1 else 0) - (if is_close e then 1 else 0)) tr"
    "is_close e \<Longrightarrow> 0 < h"
proof -
  have m: "closes (take (Suc k) (e # tr)) \<le> h + opens (take (Suc k) (e # tr))" if "k \<le> length tr" for k
    using assms that unfolding leases_matched_def by (auto dest!: spec [of _ "Suc k"])
  have c: "e = (Conn_Open, True) \<Longrightarrow> \<not> is_close e" by auto
  then show "is_close e \<Longrightarrow> 0 < h" using m [of 0] by (auto split: if_splits)
  show "leases_matched (h + (if e = (Conn_Open, True) then 1 else 0) - (if is_close e then 1 else 0)) tr"
    unfolding leases_matched_def
  proof (intro allI impI)
    fix k assume "k \<le> length tr"
    then show "closes (take k tr) \<le>
        h + (if e = (Conn_Open, True) then 1 else 0) - (if is_close e then 1 else 0) + opens (take k tr)"
      using m [of k] m [of 0] c by (auto split: if_splits)
  qed
qed

text \<open>Nothing is admitted and nothing is signalled after the stop.\<close>

lemma stopped_run:
  "life_run s tr s' \<Longrightarrow> lf_stopping s \<Longrightarrow> e \<in> set tr \<Longrightarrow> \<not> is_stop e \<and> e \<noteq> (Conn_Open, True)"
proof (induction rule: life_run.induct)
  case (run_more s e0 t es s')
  have "lf_stopping t \<and> \<not> is_stop e0 \<and> e0 \<noteq> (Conn_Open, True)"
    using run_more.hyps(1) run_more.prems(1)
    by (cases rule: life_step.cases)
       (auto simp: managed_lifecycle_connection_open_def managed_lifecycle_connection_close_def
          managed_lifecycle_should_stop_def Let_def)
  then show ?case using run_more.IH run_more.prems by auto
qed simp

lemma step_held:
  assumes st: "life_step s e t" and c: "unat (lf_connections s) = h" "h < 2 ^ 32 - 1" "is_close e \<Longrightarrow> 0 < h"
  shows "unat (lf_connections t) = h + (if e = (Conn_Open, True) then 1 else 0) - (if is_close e then 1 else 0)"
    "lf_mode t = lf_mode s" "is_stop e \<Longrightarrow> lf_mode s = MANAGED_IDLE \<and> h = 0 \<and> \<not> lf_stopping s \<and> lf_stopping t"
    "\<not> is_stop e \<Longrightarrow> lf_stopping t = lf_stopping s"
proof -
  have up: "unat (lf_connections s + 1) = h + 1" using c by (simp add: unat_word_ariths)
  have down: "unat (lf_connections s - 1) = h - 1" if "0 < h" using c(1) that
    by (metis unat_minus_one unat_0 less_irrefl)
  have z: "lf_connections s = 0 \<longleftrightarrow> h = 0" using c(1) by (metis unat_0 unat_eq_zero)
  show "unat (lf_connections t) = h + (if e = (Conn_Open, True) then 1 else 0) - (if is_close e then 1 else 0)"
    using st c up down z by (cases rule: life_step.cases)
      (auto simp: managed_lifecycle_connection_open_def managed_lifecycle_connection_close_def
         managed_lifecycle_should_stop_def Let_def split: if_splits)
  show "lf_mode t = lf_mode s"
    using st by (cases rule: life_step.cases)
      (auto simp: managed_lifecycle_connection_open_def managed_lifecycle_connection_close_def
         managed_lifecycle_should_stop_def Let_def split: if_splits)
  show "is_stop e \<Longrightarrow> lf_mode s = MANAGED_IDLE \<and> h = 0 \<and> \<not> lf_stopping s \<and> lf_stopping t"
    using st z by (cases rule: life_step.cases) (auto simp: managed_lifecycle_should_stop_def split: if_splits)
  show "\<not> is_stop e \<Longrightarrow> lf_stopping t = lf_stopping s"
    using st by (cases rule: life_step.cases)
      (auto simp: managed_lifecycle_connection_open_def managed_lifecycle_connection_close_def
         managed_lifecycle_should_stop_def Let_def split: if_splits)
qed

lemma run_stops_once:
  "life_run s tr s' \<Longrightarrow> unat (lf_connections s) = h \<Longrightarrow> h + length tr < 2 ^ 32 \<Longrightarrow> leases_matched h tr \<Longrightarrow>
    k < length tr \<Longrightarrow> is_stop (tr ! k) \<Longrightarrow>
    lf_mode s = MANAGED_IDLE \<and> h + opens (take k tr) = closes (take k tr)
    \<and> (\<forall>j<length tr. is_stop (tr ! j) \<longrightarrow> j = k) \<and> (\<forall>j<length tr. k < j \<longrightarrow> tr ! j \<noteq> (Conn_Open, True))"
proof (induction arbitrary: h k rule: life_run.induct)
  case (run_more s e t es s')
  note lm = leases_matched_cons [OF run_more.prems(3)]
  have hb: "h < 2 ^ 32 - 1" using run_more.prems(2) by simp
  note sh = step_held [OF run_more.hyps(1) run_more.prems(1) hb lm(2)]
  let ?h = "h + (if e = (Conn_Open, True) then 1 else 0) - (if is_close e then 1 else 0)"
  have stopped: "\<not> is_stop x \<and> x \<noteq> (Conn_Open, True)" if "is_stop e" "x \<in> set es" for x
    using stopped_run [OF run_more.hyps(2)] sh(3) that by blast
  show ?case
  proof (cases k)
    case 0
    then have "is_stop e" using run_more.prems(5) by simp
    then show ?thesis using sh(3) stopped 0 by (auto simp: nth_Cons split: nat.splits)
  next
    case (Suc k')
    have k': "k' < length es" "is_stop (es ! k')" using Suc run_more.prems(4,5) by simp_all
    then have ne: "\<not> is_stop e" using stopped nth_mem by blast
    have b: "?h + length es < 2 ^ 32" using run_more.prems(2) by auto
    note ih = run_more.IH [OF sh(1) b lm(1) k']
    have "h + opens (take k (e # es)) = closes (take k (e # es))"
      using ih lm(2) by (auto simp: Suc split: if_splits)
    then show ?thesis using ih sh(2) ne Suc by (auto simp: nth_Cons split: nat.splits)
  qed
qed simp

text \<open>An idle server without connections whose deadline has passed does stop when asked.\<close>

lemma idle_server_stops:
  assumes "lf_mode s = MANAGED_IDLE" "\<not> lf_stopping s" "unat (lf_connections s) = 1" "t + lf_idle_ms s \<noteq> 0" "t + lf_idle_ms s \<le> now"
  shows "fst (managed_lifecycle_should_stop (managed_lifecycle_connection_close s t) now)"
proof -
  have "lf_connections s = 1" using assms(3) by (metis unat_1 word_unat_eq_iff)
  then show ?thesis using assms(1,2,4,5)
    by (simp add: managed_lifecycle_should_stop_def managed_lifecycle_connection_close_def Let_def)
qed

text \<open>
  C33: A managed server announces its shutdown at most once, only in idle mode and only when no
  connection is held: at that moment as many leases were given back as had been admitted.
  After it no connection is admitted.
\<close>

theorem lifecycle_stops_once_idle:
  assumes "managed_lifecycle_init mode idle orphan now True = Some s" "life_run s tr s'" "length tr < 2 ^ 32"
    "leases_matched 0 tr" "k < length tr" "is_stop (tr ! k)"
  shows "mode = MANAGED_IDLE \<and> opens (take k tr) = closes (take k tr)
    \<and> (\<forall>j<length tr. is_stop (tr ! j) \<longrightarrow> j = k) \<and> (\<forall>j<length tr. k < j \<longrightarrow> tr ! j \<noteq> (Conn_Open, True))"
  using run_stops_once [OF assms(2) _ _ assms(4-6)] assms(1,3) by (auto simp: managed_lifecycle_init_def)

theorem lifecycle_stops_once_idle_witness:
  "let tr = [(Conn_Open, True), (Conn_Close 5, True), (Ask_Stop 9, True), (Conn_Open, False)]
   in \<exists>s s'. managed_lifecycle_init MANAGED_IDLE 3 7 0 True = Some s \<and> life_run s tr s' \<and> leases_matched 0 tr
        \<and> is_stop (tr ! 2) \<and> opens (take 2 tr) = closes (take 2 tr)"
proof -
  define s where "s = the (managed_lifecycle_init MANAGED_IDLE 3 7 0 True)"
  let ?tr = "[(Conn_Open, True), (Conn_Close 5, True), (Ask_Stop 9, True), (Conn_Open, False)]"
  have i: "managed_lifecycle_init MANAGED_IDLE 3 7 0 True = Some s" by (simp add: s_def managed_lifecycle_init_def)
  define a where "a = snd (managed_lifecycle_connection_open s)"
  define b where "b = managed_lifecycle_connection_close a 5"
  define c where "c = snd (managed_lifecycle_should_stop b 9)"
  note defs = managed_lifecycle_init_def managed_lifecycle_connection_open_def managed_lifecycle_connection_close_def
    managed_lifecycle_should_stop_def
  have r: "life_run s ?tr c"
    by (rule run_more [OF step_open [of s True a]], simp add: a_def s_def defs,
        rule run_more [OF step_close [of a 5]], rule run_more [OF step_stop [of _ 9 True c]],
        simp add: c_def b_def a_def s_def defs,
        rule run_more [OF step_open [of c False c]], simp add: c_def b_def a_def s_def defs, rule run_none)
  have m: "leases_matched 0 ?tr" by (auto simp: leases_matched_def take_Cons split: nat.splits)
  have p: "is_stop (?tr ! 2)" by simp
  have "opens (take 2 ?tr) = closes (take 2 ?tr)"
    using lifecycle_stops_once_idle [OF i r _ m _ p] by simp
  then show ?thesis unfolding Let_def using i r m p by blast
qed

end
