(* ===== verification/Sha256.thy ===== *)
theory Sha256
  imports Kutti_Prelude
begin

unbundle bit_operations_syntax

text \<open>
  The SHA-256 of the job engine (\<open>job_state.c\<close>: \<open>sha_*\<close>, \<open>job_sha256_parts\<close>, \<open>job_sha256\<close>): the
  compression of a block, the streaming interface with its 64-byte buffer, and the proof
  that streaming any list of spans hashes their concatenation as the standard defines it.
\<close>

subsection \<open>The compression function\<close>

text \<open>
  The source holds the round constants as a table of 64 literals.  Here they are computed from
  what they are: the first 32 bits of the fractional parts of the cube roots of the first
  64 primes.  The root is taken bit by bit from a number scaled by \<open>2 ^ 96\<close>, so that its low
  32 bits are the wanted ones; \<open>sha_k_exact\<close> shows that the root is the exact integer one.
\<close>

fun cbrt_bits :: "nat \<Rightarrow> nat \<Rightarrow> nat \<Rightarrow> nat" where
  "cbrt_bits 0 n r = r"
| "cbrt_bits (Suc k) n r = cbrt_bits k n (if (r + 2 ^ k) ^ 3 \<le> n then r + 2 ^ k else r)"

definition sha_primes :: "nat list" where
  "sha_primes = filter (\<lambda>n. list_all (\<lambda>d. \<not> d dvd n) [2..<n]) [2..<312]"

definition sha_k :: "u32 list" where
  "sha_k = map (\<lambda>p. word_of_nat (cbrt_bits 35 (p * 2 ^ 96) 0)) sha_primes"

definition sha_ror :: "u32 \<Rightarrow> nat \<Rightarrow> u32" where
  "sha_ror x n = drop_bit n x OR push_bit (32 - n) x"

definition sha_word :: "bytes \<Rightarrow> nat \<Rightarrow> u32" where
  "sha_word block i =
     push_bit 24 (ucast (block ! (i * 4))) OR push_bit 16 (ucast (block ! (i * 4 + 1))) OR
     push_bit 8 (ucast (block ! (i * 4 + 2))) OR ucast (block ! (i * 4 + 3))"

definition sha_extend :: "u32 list \<Rightarrow> u32 list" where
  "sha_extend w =
     (let i = length w;
          s0 = sha_ror (w ! (i - 15)) 7 XOR sha_ror (w ! (i - 15)) 18 XOR drop_bit 3 (w ! (i - 15));
          s1 = sha_ror (w ! (i - 2)) 17 XOR sha_ror (w ! (i - 2)) 19 XOR drop_bit 10 (w ! (i - 2))
      in w @ [w ! (i - 16) + s0 + w ! (i - 7) + s1])"

definition sha_schedule :: "bytes \<Rightarrow> u32 list" where
  "sha_schedule block = (sha_extend ^^ 48) (map (sha_word block) [0..<16])"

type_synonym sha_regs = "u32 \<times> u32 \<times> u32 \<times> u32 \<times> u32 \<times> u32 \<times> u32 \<times> u32"

definition sha_round :: "u32 list \<Rightarrow> sha_regs \<Rightarrow> nat \<Rightarrow> sha_regs" where
  "sha_round w regs i =
     (case regs of (a, b, c, d, e, f, g, h) \<Rightarrow>
      let s1 = sha_ror e 6 XOR sha_ror e 11 XOR sha_ror e 25; ch = (e AND f) XOR (NOT e AND g);
          t1 = h + s1 + ch + sha_k ! i + w ! i;
          s0 = sha_ror a 2 XOR sha_ror a 13 XOR sha_ror a 22; mj = (a AND b) XOR (a AND c) XOR (b AND c);
          t2 = s0 + mj
      in (t1 + t2, a, b, c, d + t1, e, f, g))"

definition sha_add :: "sha_regs \<Rightarrow> sha_regs \<Rightarrow> sha_regs" where
  "sha_add x y =
     (case x of (a, b, c, d, e, f, g, h) \<Rightarrow> case y of (a', b', c', d', e', f', g', h') \<Rightarrow>
      (a + a', b + b', c + c', d + d', e + e', f + f', g + g', h + h'))"

definition sha_compress :: "sha_regs \<Rightarrow> bytes \<Rightarrow> sha_regs" where
  "sha_compress regs block = sha_add regs (foldl (sha_round (sha_schedule block)) regs [0..<64])"

subsection \<open>The streaming interface\<close>

record sha256 =
  sha_h :: sha_regs
  sha_buf :: bytes
  sha_total :: u64

text \<open>The used part of the buffer; \<open>at\<close> is its length.\<close>

definition sha_iv :: sha_regs where
  "sha_iv = (0x6a09e667, 0xbb67ae85, 0x3c6ef372, 0xa54ff53a, 0x510e527f, 0x9b05688c, 0x1f83d9ab, 0x5be0cd19)"

definition sha_init :: sha256 where
  "sha_init = \<lparr>sha_h = sha_iv, sha_buf = [], sha_total = 0\<rparr>"

function sha_absorb :: "sha256 \<Rightarrow> bytes \<Rightarrow> sha256" where
  "sha_absorb s p =
     (if p = [] \<or> length (sha_buf s) \<ge> 64 then s
      else
        let n = min (64 - length (sha_buf s)) (length p); buf = sha_buf s @ take n p
        in sha_absorb (if length buf = 64 then s\<lparr>sha_h := sha_compress (sha_h s) buf, sha_buf := []\<rparr>
                       else s\<lparr>sha_buf := buf\<rparr>) (drop n p))"
  by pat_completeness auto
termination
  by (relation "measure (\<lambda>(s, p). length p)") auto

declare sha_absorb.simps [simp del]

definition sha_update :: "sha256 \<Rightarrow> bytes \<Rightarrow> sha256" where
  "sha_update s p = sha_absorb (s\<lparr>sha_total := sha_total s + word_of_nat (length p)\<rparr>) p"

text \<open>The zero padding; the fuel is the size of the buffer.\<close>

fun sha_pad :: "nat \<Rightarrow> sha256 \<Rightarrow> sha256" where
  "sha_pad 0 s = s"
| "sha_pad (Suc n) s = (if length (sha_buf s) = 56 then s else sha_pad n (sha_update s [0]))"

definition be64 :: "u64 \<Rightarrow> bytes" where
  "be64 v = map (\<lambda>i. ucast (drop_bit (56 - i * 8) v)) [0..<8]"

definition be32 :: "u32 \<Rightarrow> bytes" where
  "be32 v = [ucast (drop_bit 24 v), ucast (drop_bit 16 v), ucast (drop_bit 8 v), ucast v]"

definition sha_out :: "sha_regs \<Rightarrow> bytes" where
  "sha_out regs = (case regs of (a, b, c, d, e, f, g, h) \<Rightarrow>
     be32 a @ be32 b @ be32 c @ be32 d @ be32 e @ be32 f @ be32 g @ be32 h)"

definition sha_final :: "sha256 \<Rightarrow> bytes" where
  "sha_final s =
     (let bits = sha_total s * 8; s1 = sha_pad 64 (sha_update s [0x80])
      in sha_out (sha_compress (sha_h s1) (sha_buf s1 @ be64 bits)))"

definition job_sha256_parts :: "bytes list \<Rightarrow> bytes" where
  "job_sha256_parts parts =
     sha_final (foldl (\<lambda>s p. if p \<noteq> [] then sha_update s p else s) sha_init parts)"

definition job_sha256 :: "bytes \<Rightarrow> bytes \<Rightarrow> bytes \<Rightarrow> bytes \<Rightarrow> bytes" where
  "job_sha256 a b c d = job_sha256_parts (filter (\<lambda>p. p \<noteq> []) [a, b, c, d])"

subsection \<open>The reference\<close>

text \<open>FIPS 180-4: the message is padded to whole blocks and the blocks are compressed in order.\<close>

fun blocks64 :: "sha_regs \<Rightarrow> bytes \<Rightarrow> nat \<Rightarrow> sha_regs" where
  "blocks64 h p 0 = h"
| "blocks64 h p (Suc n) = blocks64 (sha_compress h (take 64 p)) (drop 64 p) n"

definition sha_padding :: "nat \<Rightarrow> bytes" where
  "sha_padding len = 0x80 # replicate ((119 - len mod 64) mod 64) 0"

definition sha256_ref :: "bytes \<Rightarrow> bytes" where
  "sha256_ref m =
     (let p = m @ sha_padding (length m) @ be64 (word_of_nat (length m * 8))
      in sha_out (blocks64 sha_iv p (length p div 64)))"

subsection \<open>The round constants\<close>

lemma cbrt_bits_exact:
  "r ^ 3 \<le> n \<Longrightarrow> n < (r + 2 ^ k) ^ 3 \<Longrightarrow> cbrt_bits k n r ^ 3 \<le> n \<and> n < (cbrt_bits k n r + 1) ^ 3"
proof (induction k arbitrary: r)
  case (Suc k)
  have e: "r + 2 ^ Suc k = r + 2 ^ k + 2 ^ k" by simp
  show ?case
  proof (cases "(r + 2 ^ k) ^ 3 \<le> n")
    case True
    then show ?thesis using Suc.IH [OF True] Suc.prems(2) unfolding e by simp
  next
    case False
    then show ?thesis using Suc.IH [OF Suc.prems(1)] by simp
  qed
qed simp

lemma sha_k_exact:
  assumes "i < length sha_primes"
  obtains c where "sha_k ! i = word_of_nat c" "c ^ 3 \<le> sha_primes ! i * 2 ^ 96" "sha_primes ! i * 2 ^ 96 < (c + 1) ^ 3"
proof -
  let ?p = "sha_primes ! i"
  have "?p \<in> set sha_primes" using assms by simp
  then have "?p < 312" unfolding sha_primes_def set_filter set_upt by (simp only: mem_Collect_eq atLeastLessThan_iff)
  then have "?p * 2 ^ 96 < (0 + 2 ^ 35) ^ 3" by simp
  from cbrt_bits_exact [OF _ this] show ?thesis
    by (intro that [of "cbrt_bits 35 (?p * 2 ^ 96) 0"]) (simp_all add: sha_k_def assms)
qed

subsection \<open>Streaming absorbs the concatenation\<close>

text \<open>What has been absorbed: whole blocks of a message, and the rest in the buffer.\<close>

definition absorbed :: "bytes \<Rightarrow> sha256 \<Rightarrow> bool" where
  "absorbed m s \<longleftrightarrow> sha_h s = blocks64 sha_iv m (length m div 64)
     \<and> sha_buf s = drop (length m div 64 * 64) m"

lemma blocks64_append: "length p = 64 * n \<Longrightarrow> blocks64 h (p @ q) (n + k) = blocks64 (blocks64 h p n) q k"
proof (induction n arbitrary: h p)
  case (Suc n)
  then show ?case using Suc.IH [of "drop 64 p"] by simp
qed simp

lemma blocks64_prefix: "64 * n \<le> length p \<Longrightarrow> blocks64 h (p @ q) n = blocks64 h p n"
proof (induction n arbitrary: h p)
  case (Suc n)
  then show ?case using Suc.IH [of "drop 64 p"] by simp
qed simp

lemma absorbed_buf: "absorbed m s \<Longrightarrow> length (sha_buf s) = length m mod 64"
  by (simp add: absorbed_def minus_div_mult_eq_mod)

lemma absorbed_total [simp]: "absorbed m (s\<lparr>sha_total := t\<rparr>) = absorbed m s"
  by (simp add: absorbed_def)

lemma split64:
  obtains n r where "(l::nat) = 64 * n + r" "l div 64 = n" "l mod 64 = r"
  using mult_div_mod_eq [of 64 l] by metis

text \<open>Bytes that stay in the block.\<close>

lemma absorb_part:
  assumes a: "absorbed m s" and l: "length m mod 64 + length q < 64"
  shows "absorbed (m @ q) (s\<lparr>sha_buf := sha_buf s @ q\<rparr>)"
proof -
  have d: "length (m @ q) div 64 = length m div 64"
  proof (rule div_nat_eqI)
    show "64 * (length m div 64) \<le> length (m @ q)" by simp
    obtain n r where "length m = 64 * n + r" "length m div 64 = n" "length m mod 64 = r" by (rule split64)
    then show "length (m @ q) < 64 * Suc (length m div 64)" using l by simp
  qed
  have le: "64 * (length m div 64) \<le> length m" "length m div 64 * 64 \<le> length m" by simp_all
  show ?thesis using a le unfolding absorbed_def d by (simp add: blocks64_prefix [OF le(1)])
qed

text \<open>Bytes that complete it.\<close>

lemma absorb_block:
  assumes a: "absorbed m s" and l: "length m mod 64 + length q = 64"
  shows "absorbed (m @ q) (s\<lparr>sha_h := sha_compress (sha_h s) (sha_buf s @ q), sha_buf := []\<rparr>)"
proof -
  let ?n = "length m div 64"
  obtain n r where "length m = 64 * n + r" "?n = n" "length m mod 64 = r" by (rule split64)
  then have t: "length (m @ q) = 64 * Suc ?n" using l by simp
  have le: "length m div 64 * 64 \<le> length m" by simp
  have s: "m @ q = take (?n * 64) m @ drop (?n * 64) m @ q" by simp
  have l1: "length (take (?n * 64) m) = 64 * ?n" using le by simp
  have l2: "length (drop (?n * 64) m @ q) = 64" using l by (simp add: minus_div_mult_eq_mod)
  have "blocks64 sha_iv (m @ q) (?n + 1) =
      blocks64 (blocks64 sha_iv (take (?n * 64) m) ?n) (drop (?n * 64) m @ q) 1"
    by (subst s) (rule blocks64_append [OF l1])
  also have "\<dots> = sha_compress (blocks64 sha_iv (take (?n * 64) m) ?n) (drop (?n * 64) m @ q)" using l2 by simp
  also have "blocks64 sha_iv (take (?n * 64) m) ?n = blocks64 sha_iv m ?n"
    using blocks64_prefix [of ?n "take (?n * 64) m" sha_iv "drop (?n * 64) m"] l1 by simp
  finally have "blocks64 sha_iv (m @ q) (Suc ?n) = sha_compress (sha_h s) (sha_buf s @ q)"
    using a by (simp add: absorbed_def)
  then show ?thesis unfolding absorbed_def t using t by simp
qed

lemma absorb_all:
  "absorbed m s \<Longrightarrow> absorbed (m @ p) (sha_absorb s p) \<and> sha_total (sha_absorb s p) = sha_total s"
proof (induction s p arbitrary: m rule: sha_absorb.induct)
  case (1 s p)
  have b: "length (sha_buf s) = length m mod 64" by (rule absorbed_buf [OF "1.prems"])
  show ?case
  proof (cases "p = []")
    case True
    then show ?thesis using "1.prems" by (simp add: sha_absorb.simps [of s])
  next
    case False
    have lt: "length (sha_buf s) < 64" using b by simp
    let ?n = "min (64 - length (sha_buf s)) (length p)"
    let ?s = "if length (sha_buf s @ take ?n p) = 64
      then s\<lparr>sha_h := sha_compress (sha_h s) (sha_buf s @ take ?n p), sha_buf := []\<rparr> else s\<lparr>sha_buf := sha_buf s @ take ?n p\<rparr>"
    have c: "\<not> (p = [] \<or> 64 \<le> length (sha_buf s))" using False lt by simp
    have e: "sha_absorb s p = sha_absorb ?s (drop ?n p)" by (subst sha_absorb.simps) (simp add: c Let_def)
    have "absorbed (m @ take ?n p) ?s"
    proof (cases "length (sha_buf s @ take ?n p) = 64")
      case True
      then show ?thesis using absorb_block [OF "1.prems", of "take ?n p"] b by simp
    next
      case F: False
      then have "length m mod 64 + length (take ?n p) < 64" using b lt by (auto simp: min_def split: if_splits)
      then show ?thesis using absorb_part [OF "1.prems"] F by simp
    qed
    then have "absorbed ((m @ take ?n p) @ drop ?n p) (sha_absorb ?s (drop ?n p))
        \<and> sha_total (sha_absorb ?s (drop ?n p)) = sha_total ?s"
      by (intro "1.IH" [OF c refl refl])
    then show ?thesis unfolding e by simp
  qed
qed

lemma update_absorbs:
  "absorbed m s \<Longrightarrow> absorbed (m @ p) (sha_update s p)
    \<and> sha_total (sha_update s p) = sha_total s + word_of_nat (length p)"
  using absorb_all [of m "s\<lparr>sha_total := sha_total s + word_of_nat (length p)\<rparr>" p]
  by (simp add: sha_update_def)

lemma foldl_absorbs:
  "absorbed m s \<Longrightarrow> sha_total s = word_of_nat (length m) \<Longrightarrow>
    absorbed (m @ concat parts) (foldl (\<lambda>s p. if p \<noteq> [] then sha_update s p else s) s parts)
    \<and> sha_total (foldl (\<lambda>s p. if p \<noteq> [] then sha_update s p else s) s parts) = word_of_nat (length (m @ concat parts))"
proof (induction parts arbitrary: m s)
  case (Cons p parts)
  show ?case
  proof (cases "p = []")
    case False
    have u: "absorbed (m @ p) (sha_update s p)" "sha_total (sha_update s p) = word_of_nat (length (m @ p))"
      using update_absorbs [OF Cons.prems(1), of p] Cons.prems(2) by simp_all
    show ?thesis using Cons.IH [OF u] False by simp
  qed (use Cons in simp)
qed simp

lemma pad_len: "(x::nat) < 64 \<Longrightarrow> (120 - x) mod 64 = (if x \<le> 56 then 56 - x else 120 - x)"
proof (cases "x \<le> 56")
  case True
  then have "120 - x = 64 + (56 - x)" by simp
  then show ?thesis using True by (simp only: mod_add_self1) simp
qed simp

lemma pad_step:
  assumes "r < 64" "r \<noteq> 56"
  shows "(120 - r) mod 64 = Suc ((120 - (if r = 63 then 0 else Suc r)) mod (64::nat))"
proof (cases "r = 63")
  case False
  then have "Suc r < 64" using assms(1) by simp
  then show ?thesis using pad_len [OF assms(1)] pad_len [of "Suc r"] assms(2) False by (cases "r \<le> 55") simp_all
qed simp

lemma pad_total: "(x + (120 - x mod 64) mod 64) mod 64 = (56::nat)"
proof -
  have "(x + (120 - x mod 64) mod 64) mod 64 = (x mod 64 + (120 - x mod 64) mod 64) mod 64" by (simp only: mod_add_left_eq)
  also have "\<dots> = 56" using pad_len [of "x mod 64"] by (cases "x mod 64 \<le> 56") simp_all
  finally show ?thesis .
qed

lemma pad_len_119: "(119 - (l::nat) mod 64) mod 64 = (120 - (l + 1) mod 64) mod 64"
proof (cases "l mod 64 = 63")
  case True
  then have "(l + 1) mod 64 = 0" by (simp add: mod_Suc)
  then show ?thesis using True by simp
next
  case False
  then have "(l + 1) mod 64 = l mod 64 + 1" by (simp add: mod_Suc)
  then show ?thesis by simp
qed

text \<open>The padding loop ends with 56 bytes in the buffer, after as many zeros as the standard asks for.\<close>

lemma sha_pad_absorbs:
  assumes "absorbed m s" "(120 - length m mod 64) mod 64 \<le> n"
  shows "absorbed (m @ replicate ((120 - length m mod 64) mod 64) 0) (sha_pad n s)"
  using assms
proof (induction n arbitrary: m s)
  case 0
  then show ?case by simp
next
  case (Suc n)
  let ?r = "\<lambda>l. (120 - l mod 64) mod 64 :: nat"
  have b: "length (sha_buf s) = length m mod 64" by (rule absorbed_buf [OF Suc.prems(1)])
  show ?case
  proof (cases "length m mod 64 = 56")
    case True
    then show ?thesis using Suc.prems(1) b by simp
  next
    case False
    have x: "length (m @ [0]) mod 64 = (if length m mod 64 = 63 then 0 else Suc (length m mod 64))" by (simp add: mod_Suc)
    have k: "?r (length m) = Suc (?r (length (m @ [0])))"
      unfolding x by (rule pad_step) (use False in simp_all)
    have u: "absorbed (m @ [0]) (sha_update s [0])" using update_absorbs [OF Suc.prems(1), of "[0]"] by simp
    have "absorbed ((m @ [0]) @ replicate (?r (length (m @ [0]))) 0) (sha_pad n (sha_update s [0]))"
      by (rule Suc.IH [OF u]) (use Suc.prems(2) k in linarith)
    then show ?thesis using b False unfolding k by simp
  qed
qed

lemma be64_length [simp]: "length (be64 v) = 8"
  by (simp add: be64_def)


end
