(* ===== verification/Job_Engine.thy ===== *)
theory Job_Engine
  imports Sha256 Job_Commit Queue_Checkpoint Queue_Views
begin

unbundle bit_operations_syntax

text \<open>
  Durable state and the ledger of operation receipts (\<open>job_state.c\<close>, \<open>job_int.h\<close>).  The three hash
  tables of the engine are functions from a bucket to its chain.  A pointer to a state entry
  is its key and a pointer to a receipt its operation id; both are unique in their table.
  Byte accounts are 64-bit words.  The engine lock makes every call atomic; the clocks and
  the random source are arguments, memory is an oracle with a call counter.
\<close>

subsection \<open>The canonical digest\<close>

text \<open>The fields of a request; a missing input or output is \<open>None\<close>.\<close>

record job_request =
  rq_kind :: byte
  rq_op :: bytes
  rq_store :: bytes
  rq_in :: "(bytes \<times> u64 \<times> u64) option"
  rq_key :: bytes
  rq_expected :: u64
  rq_value :: bytes
  rq_out :: "(bytes \<times> u64 \<times> bytes) option"

definition len16 :: "bytes \<Rightarrow> bytes" where
  "len16 b = put16 (word_of_nat (length b))"

definition len32 :: "bytes \<Rightarrow> bytes" where
  "len32 b = put32 (word_of_nat (length b))"

definition digest_parts :: "job_request \<Rightarrow> bytes list" where
  "digest_parts r =
     (case (case rq_in r of None \<Rightarrow> (0, [], 0, 0) | Some (n, i, m) \<Rightarrow> (1, n, i, m)) of (in_present, in_name, in_inc, in_msg) \<Rightarrow>
      case (case rq_out r of None \<Rightarrow> (0, [], 0, []) | Some (n, i, v) \<Rightarrow> (1, n, i, v)) of (out_present, out_name, out_inc, out_value) \<Rightarrow>
      [[0x4b, 0x4a, 0x53, 0x31] @ [rq_kind r] @ rq_op r @ rq_store r @
         [in_present] @ len16 in_name @ put64 in_inc @ put64 in_msg @
         len16 (rq_key r) @ put64 (rq_expected r) @ len32 (rq_value r) @
         [out_present] @ len16 out_name @ put64 out_inc @ len32 out_value,
       in_name, rq_key r, rq_value r, out_name, out_value])"

definition job_canonical_digest :: "job_request \<Rightarrow> bytes" where
  "job_canonical_digest r = job_sha256_parts (filter (\<lambda>p. p \<noteq> []) (digest_parts r))"

subsection \<open>The engine\<close>

record job_entry =
  st_key :: bytes
  st_value :: bytes
  st_version :: u64
  st_commit :: u64

record job_receipt =
  rp_op :: bytes
  rp_digest :: bytes
  rp_kind :: byte
  rp_commit :: u64
  rp_version :: u64
  rp_in_queue :: bytes
  rp_in_msg :: u64
  rp_out_queue :: bytes
  rp_out_msg :: u64
  rp_completed :: u64
  rp_expires :: u64
  rp_footprint :: u32

record job_proof =
  pf_proof :: bytes
  pf_epoch :: bytes
  pf_queue :: bytes
  pf_incarnation :: u64
  pf_message :: u64
  pf_tag :: u64
  pf_owner :: u64
  pf_expires :: u64

record job_config =
  cf_state_max :: u64
  cf_receipts_max :: u64
  cf_receipts_count :: u64
  cf_retention :: u64
  cf_max_op :: u64
  cf_proofs :: u32

record job_counters =
  jn_completions :: u64
  jn_replays :: u64
  jn_id_conflicts :: u64
  jn_state_conflicts :: u64
  jn_delivery_rejects :: u64
  jn_receipt_gc :: u64
  jn_too_large :: u64
  jn_resource :: u64

record job_engine =
  j_cfg :: job_config
  j_store_id :: bytes
  j_store_id_set :: bool
  j_failed :: bool
  j_attached :: bool
  j_state :: "nat \<Rightarrow> job_entry list"
  j_receipts :: "nat \<Rightarrow> job_receipt list"
  j_proofs :: "nat \<Rightarrow> job_proof list"
  j_state_entries :: u64
  j_state_bytes :: u64
  j_receipt_count :: u64
  j_receipt_bytes :: u64
  j_proof_count :: u64
  j_proof_capacity :: u32
  j_version_hwm :: u64
  j_commit_hwm :: u64
  j_gc_cursor :: nat
  j_in_doubt :: "bytes option"
  j_epoch :: bytes
  j_proof_gc_cursor :: nat
  j_counters :: job_counters
  j_malloc :: "nat \<Rightarrow> bool"
  j_allocs :: nat

definition JOB_STATE_BUCKETS :: nat where "JOB_STATE_BUCKETS = 4096"
definition JOB_RECEIPT_BUCKETS :: nat where "JOB_RECEIPT_BUCKETS = 4096"
definition JOB_PROOF_BUCKETS :: nat where "JOB_PROOF_BUCKETS = 1024"
definition JOB_GC_BUDGET :: nat where "JOB_GC_BUDGET = 64"
definition SIZEOF_JOB_ENTRY :: nat where "SIZEOF_JOB_ENTRY = 64"
definition SIZEOF_JOB_RECEIPT :: nat where "SIZEOF_JOB_RECEIPT = 152"
definition JOB_STATE_ENTRY_OVERHEAD :: nat where "JOB_STATE_ENTRY_OVERHEAD = 96"
definition JOB_RECEIPT_OVERHEAD :: nat where "JOB_RECEIPT_OVERHEAD = 96"

definition zero_id :: bytes where "zero_id = replicate 16 0"

definition je_alloc :: "job_engine \<Rightarrow> bool \<times> job_engine" where
  "je_alloc je = (j_malloc je (j_allocs je), je\<lparr>j_allocs := Suc (j_allocs je)\<rparr>)"

definition count_je :: "((u64 \<Rightarrow> u64) \<Rightarrow> job_counters \<Rightarrow> job_counters) \<Rightarrow> job_engine \<Rightarrow> job_engine" where
  "count_je upd je = je\<lparr>j_counters := upd (\<lambda>n. n + 1) (j_counters je)\<rparr>"

definition defaulted :: "u64 \<Rightarrow> u64 \<Rightarrow> u64" where
  "defaulted v d = (if v = 0 then d else v)"

text \<open>\<open>epoch\<close> is what the random source gave, or zeros when it gave nothing.\<close>

definition job_engine_create :: "job_config \<Rightarrow> bytes option \<Rightarrow> (nat \<Rightarrow> bool) \<Rightarrow> job_engine option" where
  "job_engine_create cfg epoch mem =
     (if \<not> mem 0 then None
      else
        let c = \<lparr>cf_state_max = defaulted (cf_state_max cfg) (64 * 2 ^ 20),
                 cf_receipts_max = defaulted (cf_receipts_max cfg) (64 * 2 ^ 20),
                 cf_receipts_count = defaulted (cf_receipts_count cfg) 100000,
                 cf_retention = defaulted (cf_retention cfg) 86400000,
                 cf_max_op = defaulted (cf_max_op cfg) 131072,
                 cf_proofs = (if cf_proofs cfg = 0 then 4096 else cf_proofs cfg)\<rparr>
        in Some \<lparr>j_cfg = c, j_store_id = zero_id, j_store_id_set = False, j_failed = False, j_attached = False,
                j_state = (\<lambda>_. []), j_receipts = (\<lambda>_. []), j_proofs = (\<lambda>_. []), j_state_entries = 0, j_state_bytes = 0,
                j_receipt_count = 0, j_receipt_bytes = 0, j_proof_count = 0, j_proof_capacity = cf_proofs c,
                j_version_hwm = 0, j_commit_hwm = 0, j_gc_cursor = 0, j_in_doubt = None,
                j_epoch = (case epoch of None \<Rightarrow> zero_id | Some e \<Rightarrow> e), j_proof_gc_cursor = 0,
                j_counters = \<lparr>jn_completions = 0, jn_replays = 0, jn_id_conflicts = 0, jn_state_conflicts = 0,
                   jn_delivery_rejects = 0, jn_receipt_gc = 0, jn_too_large = 0, jn_resource = 0\<rparr>,
                j_malloc = mem, j_allocs = 1\<rparr>)"

definition job_engine_store_id :: "job_engine \<Rightarrow> bytes option" where
  "job_engine_store_id je = (if j_store_id_set je then Some (j_store_id je) else None)"

definition job_engine_fail :: "job_engine \<Rightarrow> job_engine" where
  "job_engine_fail je = je\<lparr>j_failed := True\<rparr>"

definition job_engine_mark_in_doubt :: "job_engine \<Rightarrow> bytes \<Rightarrow> job_engine" where
  "job_engine_mark_in_doubt je op = je\<lparr>j_failed := True, j_in_doubt := Some op\<rparr>"

definition job_engine_writable :: "job_engine \<Rightarrow> bool" where
  "job_engine_writable je \<longleftrightarrow> j_attached je \<and> \<not> j_failed je \<and> j_store_id_set je"

subsection \<open>Buckets\<close>

definition fnv1a :: "bytes \<Rightarrow> u32" where
  "fnv1a data = foldl (\<lambda>h p. (h XOR ucast p) * 16777619) 2166136261 data"

definition job_state_bucket :: "bytes \<Rightarrow> nat" where
  "job_state_bucket key = (unat (fnv1a key)) AND (JOB_STATE_BUCKETS - 1)"

definition job_receipt_bucket :: "bytes \<Rightarrow> nat" where
  "job_receipt_bucket op = (unat (fnv1a op)) AND (JOB_RECEIPT_BUCKETS - 1)"

definition job_proof_bucket :: "bytes \<Rightarrow> nat" where
  "job_proof_bucket proof = (unat (fnv1a proof)) AND (JOB_PROOF_BUCKETS - 1)"

subsection \<open>The state index\<close>

definition job_state_find_locked :: "job_engine \<Rightarrow> bytes \<Rightarrow> job_entry option" where
  "job_state_find_locked je key = find (\<lambda>e. st_key e = key) (j_state je (job_state_bucket key))"

definition entry_create :: "job_engine \<Rightarrow> bytes \<Rightarrow> bytes \<Rightarrow> u64 \<Rightarrow> u64 \<Rightarrow> job_entry option \<times> job_engine" where
  "entry_create je key val version commit_id =
     (case je_alloc je of (ok, je1) \<Rightarrow>
      if \<not> ok then (None, je1)
      else case je_alloc je1 of (k, je2) \<Rightarrow> case je_alloc je2 of (v, je3) \<Rightarrow>
        (if k \<and> v then Some \<lparr>st_key = key, st_value = val, st_version = version, st_commit = commit_id\<rparr> else None, je3))"

definition entry_bytes :: "job_entry \<Rightarrow> u64" where
  "entry_bytes e = word_of_nat (SIZEOF_JOB_ENTRY + length (st_key e) + length (st_value e) + JOB_STATE_ENTRY_OVERHEAD)"

definition entry_link_locked :: "job_engine \<Rightarrow> job_entry \<Rightarrow> job_engine" where
  "entry_link_locked je e =
     (let b = job_state_bucket (st_key e)
      in je\<lparr>j_state := (j_state je)(b := e # j_state je b), j_state_entries := j_state_entries je + 1,
            j_state_bytes := j_state_bytes je + entry_bytes e\<rparr>)"

definition entry_unlink_locked :: "job_engine \<Rightarrow> job_entry \<Rightarrow> job_engine" where
  "entry_unlink_locked je e =
     (let b = job_state_bucket (st_key e); es = j_state je b;
          n = length (takeWhile (\<lambda>x. st_key x \<noteq> st_key e) es)
      in if n < length es
         then je\<lparr>j_state := (j_state je)(b := take n es @ drop (Suc n) es), j_state_entries := j_state_entries je - 1,
                 j_state_bytes := j_state_bytes je - entry_bytes e\<rparr>
         else je)"

text \<open>The entry of a key, replaced in its link.\<close>

definition set_entry :: "job_engine \<Rightarrow> bytes \<Rightarrow> (job_entry \<Rightarrow> job_entry) \<Rightarrow> job_engine" where
  "set_entry je key f =
     (let b = job_state_bucket key
      in je\<lparr>j_state := (j_state je)(b := map (\<lambda>e. if st_key e = key then f e else e) (j_state je b))\<rparr>)"

record state_plan =
  pl_existing :: "bytes option"
  pl_value :: bytes
  pl_fresh :: "job_entry option"
  pl_delta :: int
  pl_version :: u64
  pl_commit :: u64

definition job_state_plan_locked ::
  "job_engine \<Rightarrow> bytes \<Rightarrow> bytes \<Rightarrow> u64 \<Rightarrow> u64 \<Rightarrow> state_plan option \<times> job_engine" where
  "job_state_plan_locked je key val version commit_id =
     (case job_state_find_locked je key of
        Some cur \<Rightarrow> (case je_alloc je of (ok, je1) \<Rightarrow>
          (if ok then Some \<lparr>pl_existing = Some key, pl_value = val, pl_fresh = None,
                            pl_delta = int (length val) - int (length (st_value cur)),
                            pl_version = version, pl_commit = commit_id\<rparr> else None, je1))
      | None \<Rightarrow> (case entry_create je key val version commit_id of
            (None, je1) \<Rightarrow> (None, je1)
          | (Some fresh, je1) \<Rightarrow>
              (Some \<lparr>pl_existing = None, pl_value = [], pl_fresh = Some fresh,
                     pl_delta = int (SIZEOF_JOB_ENTRY + length key + length val + JOB_STATE_ENTRY_OVERHEAD),
                     pl_version = version, pl_commit = commit_id\<rparr>, je1)))"

definition job_state_plan_apply :: "job_engine \<Rightarrow> state_plan \<Rightarrow> job_engine" where
  "job_state_plan_apply je plan =
     (case pl_existing plan of
        Some key \<Rightarrow>
          (set_entry je key (\<lambda>e. e\<lparr>st_value := pl_value plan, st_version := pl_version plan, st_commit := pl_commit plan\<rparr>))
            \<lparr>j_state_bytes := j_state_bytes je + word_of_int (pl_delta plan)\<rparr>
      | None \<Rightarrow> (case pl_fresh plan of Some fresh \<Rightarrow> entry_link_locked je fresh | None \<Rightarrow> je))"

definition job_state_apply_put_locked :: "job_engine \<Rightarrow> bytes \<Rightarrow> bytes \<Rightarrow> u64 \<Rightarrow> u64 \<Rightarrow> int \<times> job_engine" where
  "job_state_apply_put_locked je key val version commit_id =
     (case job_state_find_locked je key of
        Some cur \<Rightarrow> (case je_alloc je of (ok, je1) \<Rightarrow>
          if \<not> ok then (-1, je1)
          else (0, (set_entry je1 key (\<lambda>e. e\<lparr>st_value := val, st_version := version, st_commit := commit_id\<rparr>))
                     \<lparr>j_state_bytes := j_state_bytes je1 - word_of_nat (length (st_value cur)) + word_of_nat (length val)\<rparr>))
      | None \<Rightarrow> (case entry_create je key val version commit_id of
            (None, je1) \<Rightarrow> (-1, je1) | (Some e, je1) \<Rightarrow> (0, entry_link_locked je1 e)))"

definition job_state_apply_delete_locked :: "job_engine \<Rightarrow> bytes \<Rightarrow> job_engine" where
  "job_state_apply_delete_locked je key =
     (case job_state_find_locked je key of None \<Rightarrow> je | Some e \<Rightarrow> entry_unlink_locked je e)"

subsection \<open>The receipt ledger\<close>

definition job_receipt_find_locked :: "job_engine \<Rightarrow> bytes \<Rightarrow> job_receipt option" where
  "job_receipt_find_locked je op = find (\<lambda>r. rp_op r = op) (j_receipts je (job_receipt_bucket op))"

definition receipt_footprint :: "nat \<Rightarrow> nat \<Rightarrow> u32" where
  "receipt_footprint in_len out_len = word_of_nat (SIZEOF_JOB_RECEIPT + in_len + out_len + JOB_RECEIPT_OVERHEAD)"

text \<open>A copy of a name; an empty one needs no memory.\<close>

definition dup_span :: "job_engine \<Rightarrow> bytes \<Rightarrow> bool \<times> job_engine" where
  "dup_span je name = (if name = [] then (True, je) else je_alloc je)"

definition receipt_create :: "job_engine \<Rightarrow> byte \<Rightarrow> bytes \<Rightarrow> bytes \<Rightarrow> u64 \<Rightarrow> u64 \<Rightarrow> bytes \<Rightarrow> u64 \<Rightarrow> bytes \<Rightarrow> u64 \<Rightarrow>
    u64 \<Rightarrow> u64 \<Rightarrow> job_receipt option \<times> job_engine" where
  "receipt_create je kind op digest commit_id version in_name in_msg out_name out_msg completed expires =
     (case je_alloc je of (ok, je1) \<Rightarrow>
      if \<not> ok then (None, je1)
      else case dup_span je1 in_name of (i, je2) \<Rightarrow>
      if \<not> i then (None, je2)
      else case dup_span je2 out_name of (out_ok, je3) \<Rightarrow>
        (if \<not> out_ok then None
         else Some \<lparr>rp_op = op, rp_digest = digest, rp_kind = kind, rp_commit = commit_id, rp_version = version,
                    rp_in_queue = in_name, rp_in_msg = in_msg, rp_out_queue = out_name, rp_out_msg = out_msg,
                    rp_completed = completed, rp_expires = expires,
                    rp_footprint = receipt_footprint (length in_name) (length out_name)\<rparr>, je3))"

definition push_receipt :: "job_engine \<Rightarrow> job_receipt \<Rightarrow> job_engine" where
  "push_receipt je r =
     (let b = job_receipt_bucket (rp_op r)
      in je\<lparr>j_receipts := (j_receipts je)(b := r # j_receipts je b), j_receipt_count := j_receipt_count je + 1,
            j_receipt_bytes := j_receipt_bytes je + ucast (rp_footprint r)\<rparr>)"

definition job_receipt_insert_locked :: "job_engine \<Rightarrow> byte \<Rightarrow> bytes \<Rightarrow> bytes \<Rightarrow> u64 \<Rightarrow> u64 \<Rightarrow> bytes \<Rightarrow> u64 \<Rightarrow> bytes \<Rightarrow> u64 \<Rightarrow>
    u64 \<Rightarrow> u64 \<Rightarrow> int \<times> job_engine" where
  "job_receipt_insert_locked je kind op digest commit_id version in_name in_msg out_name out_msg completed expires =
     (case job_receipt_find_locked je op of
        Some x \<Rightarrow> (if rp_commit x = commit_id \<and> rp_version x = version \<and> rp_digest x = digest then 0 else -2, je)
      | None \<Rightarrow>
          (case receipt_create je kind op digest commit_id version in_name in_msg out_name out_msg completed expires of
             (None, je1) \<Rightarrow> (-1, je1) | (Some r, je1) \<Rightarrow> (0, push_receipt je1 r)))"

definition receipt_link_locked :: "job_engine \<Rightarrow> job_receipt \<Rightarrow> job_engine" where
  "receipt_link_locked je r =
     (case job_receipt_find_locked je (rp_op r) of Some _ \<Rightarrow> je | None \<Rightarrow> push_receipt je r)"

subsection \<open>The state record\<close>

definition kind_byte :: "job_kind \<Rightarrow> byte" where
  "kind_byte k = (case k of JOB_KIND_COMPLETION \<Rightarrow> 1 | JOB_KIND_STATE_PUT \<Rightarrow> 2 | JOB_KIND_STATE_DELETE \<Rightarrow> 3)"

definition job_state_record_len :: "nat \<Rightarrow> nat \<Rightarrow> nat" where
  "job_state_record_len key_len val_len = 1 + 1 + 16 + 8 + 2 + key_len + 4 + val_len + 8 + 8"

definition job_state_record_encode :: "job_kind \<Rightarrow> bytes \<Rightarrow> u64 \<Rightarrow> bytes \<Rightarrow> bytes \<Rightarrow> u64 \<Rightarrow> u64 \<Rightarrow> bytes" where
  "job_state_record_encode kind op expected key val completed expires =
     [1, kind_byte kind] @ op @ put64 expected @ len16 key @ key @ len32 val @ val @ put64 completed @ put64 expires"

definition job_state_record_decode ::
  "bytes \<Rightarrow> (job_kind \<times> bytes \<times> u64 \<times> bytes \<times> bytes \<times> u64 \<times> u64) option" where
  "job_state_record_decode buf =
     (if length buf < 48 \<or> buf ! 0 \<noteq> 1 then None
      else case job_kind_of (buf ! 1) of None \<Rightarrow> None | Some k \<Rightarrow>
        if k = JOB_KIND_COMPLETION then None
        else
          let kl = unat (get16 (drop 26 buf))
          in if 28 + kl + 4 > length buf then None
             else
               let vl = unat (get32 (drop (28 + kl) buf))
               in if 32 + kl + vl + 16 \<noteq> length buf then None
                  else Some (k, take 16 (drop 2 buf), get64 (drop 18 buf), take kl (drop 28 buf), take vl (drop (32 + kl) buf),
                             get64 (drop (32 + kl + vl) buf), get64 (drop (40 + kl + vl) buf)))"

subsection \<open>Collecting expired receipts\<close>

definition receipt_dead :: "u64 \<Rightarrow> job_receipt \<Rightarrow> bool" where
  "receipt_dead now r \<longleftrightarrow> rp_expires r \<noteq> 0 \<and> rp_expires r \<le> now"

definition gc_bucket :: "u64 \<Rightarrow> u64 \<times> job_engine \<Rightarrow> u64 \<times> job_engine" where
  "gc_bucket now st =
     (case st of (removed, je) \<Rightarrow>
      let b = j_gc_cursor je; dead = filter (receipt_dead now) (j_receipts je b); n = word_of_nat (length dead)
      in (removed + n,
          je\<lparr>j_gc_cursor := (b + 1) AND (JOB_RECEIPT_BUCKETS - 1),
             j_receipts := (j_receipts je)(b := filter (\<lambda>r. \<not> receipt_dead now r) (j_receipts je b)),
             j_receipt_count := j_receipt_count je - n,
             j_receipt_bytes := j_receipt_bytes je - sum_list (map (\<lambda>r. ucast (rp_footprint r)) dead)\<rparr>))"

definition job_receipt_gc_locked :: "job_engine \<Rightarrow> u64 \<Rightarrow> u64 \<times> job_engine" where
  "job_receipt_gc_locked je now =
     (case (gc_bucket now ^^ JOB_GC_BUDGET) (0, je) of (removed, je1) \<Rightarrow>
        (removed, je1\<lparr>j_counters := (j_counters je1)\<lparr>jn_receipt_gc := jn_receipt_gc (j_counters je1) + removed\<rparr>\<rparr>))"

definition job_receipt_gc :: "job_engine \<Rightarrow> u64 \<Rightarrow> u64 \<times> job_engine" where
  "job_receipt_gc je now = job_receipt_gc_locked je now"

subsection \<open>Reads\<close>

definition job_state_get :: "job_engine \<Rightarrow> bytes \<Rightarrow> (job_status + bytes \<times> u64 \<times> u64) \<times> job_engine" where
  "job_state_get je key =
     (if key = [] \<or> length key > 65535 then (Inl JOB_VALIDATION_FAILED, je)
      else case job_state_find_locked je key of
        None \<Rightarrow> (Inl JOB_NOT_FOUND, je)
      | Some e \<Rightarrow> (case je_alloc je of (ok, je1) \<Rightarrow>
          (if ok then Inr (st_value e, st_version e, st_commit e) else Inl JOB_RESOURCE_EXHAUSTED, je1)))"

record receipt_view =
  rv_op :: bytes
  rv_kind :: byte
  rv_commit :: u64
  rv_version :: u64
  rv_in_queue :: bytes
  rv_in_msg :: u64
  rv_out_queue :: bytes
  rv_out_msg :: u64
  rv_completed :: u64
  rv_expires :: u64

definition job_receipt_fill :: "job_receipt \<Rightarrow> receipt_view" where
  "job_receipt_fill r =
     \<lparr>rv_op = rp_op r, rv_kind = rp_kind r, rv_commit = rp_commit r, rv_version = rp_version r,
      rv_in_queue = rp_in_queue r, rv_in_msg = rp_in_msg r, rv_out_queue = rp_out_queue r,
      rv_out_msg = rp_out_msg r, rv_completed = rp_completed r, rv_expires = rp_expires r\<rparr>"

definition job_receipt_lookup :: "job_engine \<Rightarrow> bytes \<Rightarrow> job_status + receipt_view" where
  "job_receipt_lookup je op =
     (if op = zero_id then Inl JOB_VALIDATION_FAILED
      else case job_receipt_find_locked je op of None \<Rightarrow> Inl JOB_NOT_FOUND | Some r \<Rightarrow> Inr (job_receipt_fill r))"

definition state_entries :: "job_engine \<Rightarrow> job_entry list" where
  "state_entries je = concat (map (j_state je) [0..<JOB_STATE_BUCKETS])"

definition receipt_entries :: "job_engine \<Rightarrow> job_receipt list" where
  "receipt_entries je = concat (map (j_receipts je) [0..<JOB_RECEIPT_BUCKETS])"

text \<open>What the callback is given; the count is the length.\<close>

definition job_state_foreach :: "job_engine \<Rightarrow> nat \<Rightarrow> (bytes \<times> u64 \<times> u64 \<times> nat) list" where
  "job_state_foreach je max_entries =
     map (\<lambda>e. (st_key e, st_version e, st_commit e, length (st_value e))) (take max_entries (state_entries je))"

subsection \<open>The page of receipts\<close>

fun memcmp_less :: "bytes \<Rightarrow> bytes \<Rightarrow> bool" where
  "memcmp_less (x # xs) (y # ys) = (if x = y then memcmp_less xs ys else x < y)"
| "memcmp_less _ _ = False"

type_synonym receipt_key = "u64 \<times> bytes"

definition receipt_sel_less :: "receipt_key \<Rightarrow> receipt_key \<Rightarrow> bool" where
  "receipt_sel_less a b = (if fst a \<noteq> fst b then fst a < fst b else memcmp_less (snd a) (snd b))"

definition receipt_key :: "job_receipt \<Rightarrow> receipt_key" where
  "receipt_key r = (rp_completed r, rp_op r)"

definition receipt_wanted :: "u32 \<Rightarrow> receipt_key option \<Rightarrow> job_receipt \<Rightarrow> bool" where
  "receipt_wanted kind_filter after r \<longleftrightarrow>
     (kind_filter = 0 \<or> rp_kind r = ucast kind_filter) \<and>
     (case after of None \<Rightarrow> True | Some a \<Rightarrow> receipt_sel_less a (receipt_key r))"

text \<open>One match: the kept keys and the index of the largest.\<close>

definition sel_step :: "nat \<Rightarrow> receipt_key list \<times> nat \<Rightarrow> receipt_key \<Rightarrow> receipt_key list \<times> nat" where
  "sel_step max_entries st x =
     (case st of (sel, largest) \<Rightarrow>
      if length sel < max_entries
      then (sel @ [x], if sel = [] \<or> receipt_sel_less (sel ! largest) x then length sel else largest)
      else if \<not> receipt_sel_less x (sel ! largest) then (sel, largest)
      else
        let sel1 = sel[largest := x]
        in (sel1, foldl (\<lambda>l i. if receipt_sel_less (sel1 ! l) (sel1 ! i) then i else l) largest [1..<length sel1]))"

text \<open>The insertion sort of the page, from the right end of the sorted part.\<close>

fun insert_back :: "receipt_key \<Rightarrow> receipt_key list \<Rightarrow> receipt_key list" where
  "insert_back x [] = [x]"
| "insert_back x (y # ys) = (if receipt_sel_less x y then y # insert_back x ys else x # y # ys)"

definition sort_sel :: "receipt_key list \<Rightarrow> receipt_key list" where
  "sort_sel sel = rev (foldl (\<lambda>acc x. insert_back x acc) [] sel)"

definition job_receipt_foreach ::
  "job_engine \<Rightarrow> u32 \<Rightarrow> u64 \<Rightarrow> bytes option \<Rightarrow> nat \<Rightarrow> (nat \<times> receipt_view list) \<times> job_engine" where
  "job_receipt_foreach je kind_filter after_ms after_op max_entries =
     (if max_entries = 0 then ((0, []), je)
      else case je_alloc je of (ok, je1) \<Rightarrow>
        if \<not> ok then ((0, []), je1)
        else
          let after = (case after_op of None \<Rightarrow> None | Some a \<Rightarrow> if a = zero_id then None else Some (after_ms, a));
              matches = filter (receipt_wanted kind_filter after) (receipt_entries je1);
              sel = fst (foldl (sel_step max_entries) ([], 0) (map receipt_key matches))
          in ((length matches,
               map job_receipt_fill (List.map_filter (\<lambda>k. job_receipt_find_locked je1 (snd k)) (sort_sel sel))), je1))"

definition job_engine_usage :: "job_engine \<Rightarrow> u64 \<times> u64 \<times> u64 \<times> u64" where
  "job_engine_usage je = (j_state_entries je, j_state_bytes je, j_receipt_count je, j_receipt_bytes je)"

definition job_engine_counters :: "job_engine \<Rightarrow> job_counters" where
  "job_engine_counters je = j_counters je"

subsection \<open>Mutations of the state\<close>

record admission =
  ad_version :: u64
  ad_commit :: u64
  ad_completed :: u64
  ad_expires :: u64
  ad_rec :: job_receipt
  ad_plan :: "state_plan option"
  ad_payload :: bytes

datatype admit = Admitted admission | Admit_Replay | Admit_Reject job_status

definition mutation_kind :: "bool \<Rightarrow> job_kind" where
  "mutation_kind is_put = (if is_put then JOB_KIND_STATE_PUT else JOB_KIND_STATE_DELETE)"

definition cas_fails :: "u64 \<Rightarrow> job_entry option \<Rightarrow> bool" where
  "cas_fails expected cur =
     (if expected = 0 then cur \<noteq> None else case cur of None \<Rightarrow> True | Some e \<Rightarrow> st_version e \<noteq> expected)"

text \<open>The version check; a delete of a missing key is a definite answer, not a conflict.\<close>

definition version_check :: "bool \<Rightarrow> u64 \<Rightarrow> job_entry option \<Rightarrow> job_status option" where
  "version_check is_put expected cur =
     (if is_put then (if cas_fails expected cur then Some JOB_STATE_VERSION_CONFLICT else None)
      else case cur of None \<Rightarrow> Some JOB_NOT_FOUND
        | Some e \<Rightarrow> if st_version e \<noteq> expected then Some JOB_STATE_VERSION_CONFLICT else None)"

definition put_delta :: "bytes \<Rightarrow> bytes \<Rightarrow> job_entry option \<Rightarrow> int" where
  "put_delta key val cur =
     (case cur of Some e \<Rightarrow> int (length val) - int (length (st_value e))
      | None \<Rightarrow> int (SIZEOF_JOB_ENTRY + length key + length val + JOB_STATE_ENTRY_OVERHEAD))"

definition state_full :: "job_engine \<Rightarrow> int \<Rightarrow> bool" where
  "state_full je delta \<longleftrightarrow> delta > 0 \<and> j_state_bytes je + word_of_int delta > cf_state_max (j_cfg je)"

definition receipts_full :: "job_engine \<Rightarrow> u32 \<Rightarrow> bool" where
  "receipts_full je footprint \<longleftrightarrow>
     j_receipt_count je + 1 > cf_receipts_count (j_cfg je) \<or>
     j_receipt_bytes je + ucast footprint > cf_receipts_max (j_cfg je)"

text \<open>Room for one more receipt, after a bounded collection if there is none.\<close>

definition receipt_room :: "job_engine \<Rightarrow> u32 \<Rightarrow> u64 \<Rightarrow> bool \<times> job_engine" where
  "receipt_room je footprint now =
     (if receipts_full je footprint
      then let je1 = snd (job_receipt_gc_locked je now) in (\<not> receipts_full je1 footprint, je1)
      else (True, je))"

definition resource_reject :: "job_engine \<Rightarrow> job_engine" where
  "resource_reject = count_je jn_resource_update"

definition counters_spent :: "job_engine \<Rightarrow> bool" where
  "counters_spent je \<longleftrightarrow> j_version_hwm je = - 1 \<or> j_commit_hwm je = - 1"

text \<open>The ids are taken, then everything the application needs is built.\<close>

definition state_reserve :: "job_engine \<Rightarrow> bool \<Rightarrow> bytes \<Rightarrow> bytes \<Rightarrow> u64 \<Rightarrow> bytes \<Rightarrow> bytes \<Rightarrow> u64 \<Rightarrow> admit \<times> job_engine" where
  "state_reserve je is_put key val expected op digest now =
     (let version = j_version_hwm je + 1; commit_id = j_commit_hwm je + 1;
          expires = now + cf_retention (j_cfg je); k = mutation_kind is_put;
          je1 = je\<lparr>j_version_hwm := version, j_commit_hwm := commit_id\<rparr>
      in case je_alloc je1 of (payload_ok, je2) \<Rightarrow>
         case receipt_create je2 (kind_byte k) op digest commit_id version [] 0 [] 0 now expires of (r, je3) \<Rightarrow>
         case (if is_put then job_state_plan_locked je3 key val version commit_id else (None, je3)) of (plan, je4) \<Rightarrow>
         if is_put \<and> plan = None then (Admit_Reject JOB_RESOURCE_EXHAUSTED, resource_reject je4)
         else if \<not> payload_ok \<or> r = None then (Admit_Reject JOB_RESOURCE_EXHAUSTED, resource_reject je4)
         else (Admitted \<lparr>ad_version = version, ad_commit = commit_id, ad_completed = now, ad_expires = expires,
                 ad_rec = the r, ad_plan = plan,
                 ad_payload = job_state_record_encode k op expected key (if is_put then val else []) now expires\<rparr>, je4))"

definition state_admit :: "job_engine \<Rightarrow> bool \<Rightarrow> bytes \<Rightarrow> bytes \<Rightarrow> u64 \<Rightarrow> bytes \<Rightarrow> bytes \<Rightarrow> u64 \<Rightarrow> admit \<times> job_engine" where
  "state_admit je is_put key val expected op digest now =
     (case job_receipt_find_locked je op of
        Some x \<Rightarrow>
          (if rp_kind x \<noteq> kind_byte (mutation_kind is_put) \<or> rp_digest x \<noteq> digest
           then (Admit_Reject JOB_IDEMPOTENCY_CONFLICT, count_je jn_id_conflicts_update je)
           else (Admit_Replay, count_je jn_replays_update je))
      | None \<Rightarrow>
        if j_in_doubt je = Some op then (Admit_Reject JOB_OPERATION_IN_DOUBT, je)
        else if j_failed je then (Admit_Reject JOB_PERSISTENCE_UNAVAILABLE, je)
        else
          let cur = job_state_find_locked je key
          in case version_check is_put expected cur of
               Some st \<Rightarrow> (Admit_Reject st,
                 if st = JOB_STATE_VERSION_CONFLICT then count_je jn_state_conflicts_update je else je)
             | None \<Rightarrow>
               if is_put \<and> state_full je (put_delta key val cur)
               then (Admit_Reject JOB_RESOURCE_EXHAUSTED, resource_reject je)
               else case receipt_room je (receipt_footprint 0 0) now of
                 (False, je1) \<Rightarrow> (Admit_Reject JOB_RESOURCE_EXHAUSTED, resource_reject je1)
               | (True, je1) \<Rightarrow>
                 if counters_spent je1 then (Admit_Reject JOB_PERSISTENCE_UNAVAILABLE, je1\<lparr>j_failed := True\<rparr>)
                 else state_reserve je1 is_put key val expected op digest now)"

record mutation =
  mu_op :: bytes
  mu_kind :: byte
  mu_commit :: u64
  mu_version :: u64
  mu_completed :: u64
  mu_expires :: u64
  mu_replayed :: bool

definition mutation_fill :: "byte \<Rightarrow> bytes \<Rightarrow> u64 \<Rightarrow> u64 \<Rightarrow> u64 \<Rightarrow> u64 \<Rightarrow> bool \<Rightarrow> mutation" where
  "mutation_fill kind op commit_id version completed expires replayed =
     \<lparr>mu_op = op, mu_kind = kind, mu_commit = commit_id, mu_version = version, mu_completed = completed,
      mu_expires = expires, mu_replayed = replayed\<rparr>"

definition replay_fill :: "job_receipt \<Rightarrow> mutation" where
  "replay_fill r = mutation_fill (rp_kind r) (rp_op r) (rp_commit r) (rp_version r) (rp_completed r) (rp_expires r) True"

definition state_request :: "job_engine \<Rightarrow> job_kind \<Rightarrow> bytes \<Rightarrow> bytes \<Rightarrow> u64 \<Rightarrow> bytes \<Rightarrow> job_request" where
  "state_request je kind key val expected op =
     \<lparr>rq_kind = kind_byte kind, rq_op = op, rq_store = j_store_id je, rq_in = None, rq_key = key,
      rq_expected = expected, rq_value = val, rq_out = None\<rparr>"

definition QUEUE_WAL_JOB_STATE_NAME :: bytes where
  "QUEUE_WAL_JOB_STATE_NAME = [42, 106, 111, 98, 45, 115, 116, 97, 116, 101]"

definition QUEUE_WAL_JOB_RECEIPT_NAME :: bytes where
  "QUEUE_WAL_JOB_RECEIPT_NAME = [42, 106, 111, 98, 45, 114, 101, 99, 101, 105, 112, 116]"

text \<open>An engine that is not attached has no store, and appending to none fails.\<close>

definition je_append :: "job_engine \<Rightarrow> store \<Rightarrow> admission \<Rightarrow> int \<times> store" where
  "je_append je s a =
     (if j_attached je
      then queue_job_record_append_sync s LOG_JOB_STATE QUEUE_WAL_JOB_STATE_NAME (ad_version a) (ad_commit a) (ad_payload a)
      else (-1, s))"

definition job_state_put :: "store \<Rightarrow> job_engine \<Rightarrow> bytes \<Rightarrow> bytes \<Rightarrow> u64 \<Rightarrow> bytes \<Rightarrow> u64 \<Rightarrow>
    (job_status + mutation) \<times> job_engine \<times> store" where
  "job_state_put s je key val expected op now =
     (if key = [] \<or> length key > 65535 \<or> op = zero_id then (Inl JOB_VALIDATION_FAILED, je, s)
      else if word_of_nat (length key + length val + 64) > cf_max_op (j_cfg je)
      then (Inl JOB_REQUEST_TOO_LARGE, count_je jn_too_large_update je, s)
      else
        let digest = job_canonical_digest (state_request je JOB_KIND_STATE_PUT key val expected op)
        in case state_admit je True key val expected op digest now of
             (Admit_Reject st, je1) \<Rightarrow> (Inl st, je1, s)
           | (Admit_Replay, je1) \<Rightarrow> (Inr (replay_fill (the (job_receipt_find_locked je1 op))), je1, s)
           | (Admitted a, je1) \<Rightarrow>
             case je_append je1 s a of (rc, s1) \<Rightarrow>
             if rc < 0 then (Inl JOB_OPERATION_IN_DOUBT, job_engine_mark_in_doubt je1 op, s1)
             else (Inr (mutation_fill (kind_byte JOB_KIND_STATE_PUT) op (ad_commit a) (ad_version a) (ad_completed a)
                          (ad_expires a) False),
                   receipt_link_locked (job_state_plan_apply je1 (the (ad_plan a))) (ad_rec a), s1))"

definition job_state_delete :: "store \<Rightarrow> job_engine \<Rightarrow> bytes \<Rightarrow> u64 \<Rightarrow> bytes \<Rightarrow> u64 \<Rightarrow>
    (job_status + mutation) \<times> job_engine \<times> store" where
  "job_state_delete s je key expected op now =
     (if key = [] \<or> length key > 65535 \<or> op = zero_id \<or> expected = 0 then (Inl JOB_VALIDATION_FAILED, je, s)
      else if word_of_nat (length key + 64) > cf_max_op (j_cfg je)
      then (Inl JOB_REQUEST_TOO_LARGE, count_je jn_too_large_update je, s)
      else
        let digest = job_canonical_digest (state_request je JOB_KIND_STATE_DELETE key [] expected op)
        in case state_admit je False key [] expected op digest now of
             (Admit_Reject st, je1) \<Rightarrow> (Inl st, je1, s)
           | (Admit_Replay, je1) \<Rightarrow> (Inr (replay_fill (the (job_receipt_find_locked je1 op))), je1, s)
           | (Admitted a, je1) \<Rightarrow>
             case je_append je1 s a of (rc, s1) \<Rightarrow>
             if rc < 0 then (Inl JOB_OPERATION_IN_DOUBT, job_engine_mark_in_doubt je1 op, s1)
             else (Inr (mutation_fill (kind_byte JOB_KIND_STATE_DELETE) op (ad_commit a) (ad_version a) (ad_completed a)
                          (ad_expires a) False),
                   receipt_link_locked (job_state_apply_delete_locked je1 key) (ad_rec a), s1))"

subsection \<open>Binding to a store\<close>

text \<open>\<open>fresh\<close> is what the random source gave for a new identity.\<close>

definition job_engine_attach :: "store \<Rightarrow> job_engine \<Rightarrow> bytes option \<Rightarrow> job_status \<times> job_engine \<times> store" where
  "job_engine_attach s je fresh =
     (if \<not> queue_wal_enabled s then (JOB_UNSUPPORTED_FEATURE, je, s)
      else if j_attached je then (JOB_VALIDATION_FAILED, je, s)
      else if j_store_id_set je then (JOB_OK, je\<lparr>j_attached := True\<rparr>, s)
      else case fresh of None \<Rightarrow> (JOB_PERSISTENCE_UNAVAILABLE, je, s)
      | Some sid \<Rightarrow>
        case queue_job_record_append_sync s LOG_JOB_META QUEUE_WAL_JOB_META_NAME 0 0
               ([1] @ sid @ put64 (s_next_id s) @ put64 (s_next_incarnation s) @
                put64 (j_version_hwm je) @ put64 (j_commit_hwm je)) of (rc, s1) \<Rightarrow>
        if rc < 0 then (JOB_OPERATION_IN_DOUBT, job_engine_fail je, s1)
        else (JOB_OK, je\<lparr>j_store_id := sid, j_store_id_set := True, j_attached := True\<rparr>, s1))"

subsection \<open>Replay hooks\<close>

definition raise_hwm :: "u64 \<Rightarrow> u64 \<Rightarrow> job_engine \<Rightarrow> job_engine" where
  "raise_hwm version commit_id je =
     je\<lparr>j_version_hwm := max (j_version_hwm je) version, j_commit_hwm := max (j_commit_hwm je) commit_id\<rparr>"

definition hook_rc :: "int \<Rightarrow> int" where
  "hook_rc rc = (if rc = 0 then 0 else -1)"

definition hook_state_apply :: "job_state_args \<Rightarrow> job_engine \<Rightarrow> int \<times> job_engine" where
  "hook_state_apply a je =
     (let put = (js_kind a = JOB_KIND_STATE_PUT);
          digest = job_canonical_digest
            (state_request je (mutation_kind put) (js_key a) (if put then js_value a else []) (js_expected a) (js_op_id a))
      in case (if put then job_state_apply_put_locked je (js_key a) (js_value a) (js_version a) (js_commit_id a)
               else (0, job_state_apply_delete_locked je (js_key a))) of (rc, je1) \<Rightarrow>
         if rc \<noteq> 0 then (-1, je1)
         else
           let je2 = raise_hwm (js_version a) (js_commit_id a) je1
           in if js_expires_at a = 0 then (0, je2)
              else case job_receipt_insert_locked je2 (kind_byte (js_kind a)) (js_op_id a) digest (js_commit_id a)
                (js_version a) [] 0 [] 0 (js_completed_at a) (js_expires_at a) of (rc, je3) \<Rightarrow> (hook_rc rc, je3))"

definition hook_completion_apply :: "job_completion_args \<Rightarrow> job_engine \<Rightarrow> int \<times> job_engine" where
  "hook_completion_apply c je =
     (let digest = job_canonical_digest
            \<lparr>rq_kind = kind_byte JOB_KIND_COMPLETION, rq_op = jc_op_id c, rq_store = j_store_id je,
             rq_in = Some (jc_in_name c, jc_in_incarnation c, jc_in_id c), rq_key = jc_key c,
             rq_expected = jc_expected c, rq_value = jc_value c,
             rq_out = (case jc_out c of None \<Rightarrow> None | Some (n, inc, _, v) \<Rightarrow> Some (n, inc, v))\<rparr>
      in case job_state_apply_put_locked je (jc_key c) (jc_value c) (jc_version c) (jc_commit_id c) of (rc, je1) \<Rightarrow>
         if rc \<noteq> 0 then (-1, je1)
         else case job_receipt_insert_locked (raise_hwm (jc_version c) (jc_commit_id c) je1)
                (kind_byte JOB_KIND_COMPLETION) (jc_op_id c) digest (jc_commit_id c) (jc_version c) (jc_in_name c) (jc_in_id c)
                (case jc_out c of None \<Rightarrow> [] | Some (n, _) \<Rightarrow> n)
                (case jc_out c of None \<Rightarrow> 0 | Some (_, _, mid, _) \<Rightarrow> mid)
                (jc_completed_at c) (jc_expires_at c) of (rc, je2) \<Rightarrow> (hook_rc rc, je2))"

definition hook_receipt_apply :: "job_receipt_args \<Rightarrow> job_engine \<Rightarrow> int \<times> job_engine" where
  "hook_receipt_apply a je =
     (case job_receipt_insert_locked (raise_hwm (jr_version a) (jr_commit_id a) je) (kind_byte (jr_kind a)) (jr_op_id a)
        (jr_digest a) (jr_commit_id a) (jr_version a) (jr_in_name a) (jr_in_id a) (jr_out_name a) (jr_out_id a)
        (jr_completed_at a) (jr_expires_at a) of (rc, je1) \<Rightarrow> (hook_rc rc, je1))"

definition hook_meta_apply :: "bytes \<Rightarrow> u64 \<Rightarrow> u64 \<Rightarrow> u64 \<Rightarrow> u64 \<Rightarrow> job_engine \<Rightarrow> int \<times> job_engine" where
  "hook_meta_apply sid next_msg next_inc version commit_id je =
     (0, raise_hwm version commit_id
           (if j_store_id_set je then je else je\<lparr>j_store_id := sid, j_store_id_set := True\<rparr>))"

subsection \<open>Checkpoint emission\<close>

definition state_record :: "job_entry \<Rightarrow> log_record" where
  "state_record e =
     rec LOG_JOB_STATE True QUEUE_WAL_JOB_STATE_NAME (st_version e) (st_commit e)
       (job_state_record_encode JOB_KIND_STATE_PUT zero_id 0 (st_key e) (st_value e) 0 0)"

definition receipt_record :: "job_receipt \<Rightarrow> log_record" where
  "receipt_record r =
     rec LOG_JOB_RECEIPT True QUEUE_WAL_JOB_RECEIPT_NAME (rp_commit r) (rp_version r)
       ([rp_kind r, 1] @ rp_op r @ rp_digest r @ [if rp_out_queue r = [] then 0 else 1] @
        len16 (rp_out_queue r) @ rp_out_queue r @ put64 (rp_out_msg r) @
        len16 (rp_in_queue r) @ rp_in_queue r @ put64 (rp_in_msg r) @
        put64 (rp_completed r) @ put64 (rp_expires r))"

text \<open>
  One buffer is allocated for each record; the emission asks the oracle from the engine's
  counter on.  The records that were emitted before a failure are part of the answer.
\<close>

fun emit_loop :: "(nat \<Rightarrow> bool) \<Rightarrow> nat \<Rightarrow> log_record list \<Rightarrow> log_record list \<times> int" where
  "emit_loop mem n [] = ([], 0)"
| "emit_loop mem n (r # rs) =
     (if mem n then case emit_loop mem (Suc n) rs of (out, rc) \<Rightarrow> (r # out, rc) else ([], -1))"

definition hook_checkpoint_emit :: "u64 \<Rightarrow> job_engine \<Rightarrow> log_record list \<times> int" where
  "hook_checkpoint_emit now je =
     emit_loop (j_malloc je) (j_allocs je)
       (map state_record (state_entries je) @
        map receipt_record (filter (\<lambda>r. \<not> receipt_dead now r) (receipt_entries je)))"

definition hook_live_bytes :: "job_engine \<Rightarrow> u64" where
  "hook_live_bytes je = j_state_bytes je + j_receipt_bytes je"

definition hook_store_id :: "job_engine \<Rightarrow> bytes option" where
  "hook_store_id je = (if j_store_id_set je then Some (j_store_id je) else None)"

text \<open>The table of hooks; the clock of the emission is its argument.\<close>

definition job_engine_replay_hooks :: "u64 \<Rightarrow> job_engine job_hooks" where
  "job_engine_replay_hooks now =
     \<lparr>jh_state_apply = Some hook_state_apply, jh_completion_apply = Some hook_completion_apply,
      jh_receipt_apply = Some hook_receipt_apply, jh_meta_apply = Some hook_meta_apply,
      jh_checkpoint_emit = Some (hook_checkpoint_emit now), jh_live_bytes = Some hook_live_bytes,
      jh_store_id = Some hook_store_id, jh_version_hwm = Some j_version_hwm, jh_commit_hwm = Some j_commit_hwm\<rparr>"

end
