(* ===== verification/Spec2Isabelle.thy ===== *)
theory Spec2Isabelle
  imports Queue_Views Queue_Batch Queue_Checkpoint Job_Commit Queue_Fifo Routing_Props Cache_Props Cache_Views
    Lifecycle Job_Engine
begin

text \<open>
  A verification development for KuttiDB, an in-memory store with a durable message
  queue engine.  The parts and the order in which they are modelled:

  \<^item> the byte codecs and the checksum of the write-ahead log (\<open>Byte_Codec\<close>, \<open>Crc32\<close>);
  \<^item> topic routing (\<open>Topic_Match\<close>);
  \<^item> the queue engine of \<open>src/src/queue.c\<close>.
\<close>

end
